(* ===== verification/Prelude.thy ===== *)
theory Prelude
  imports
    Main
    "HOL-Library.Word"
    "HOL-Library.Multiset"
    "HOL-Library.AList"
    "HOL-Library.Char_ord"
    "HOL-Library.List_Lexorder"
    "HOL-Library.Product_Lexorder"
    "HOL-Library.Signed_Division"
begin

text \<open>
  What the Go program takes from its language and standard library, and the generic
  lemmas the component theories share: 64 bit integers with their wrap-around, instants
  and durations of package \<open>time\<close>, error returns as sums, \<open>sort.Slice\<close> and
  \<open>sort.Search\<close>, Go maps as association lists, and the loops over them.
\<close>

named_theorems go_simps \<open>unfolding rules of the small Go primitives\<close>
named_theorems map_simps \<open>association lists read as Go maps\<close>
named_theorems wf_intros \<open>well-formedness is kept\<close>


section \<open>64 bit integers\<close>

text \<open>
  \<open>int\<close>, \<open>int64\<close> and \<open>time.Duration\<close> are two's complement 64 bit
  integers. Where an operation can leave the range, the model writes the wrap-around.
\<close>

definition wrap64 :: "int \<Rightarrow> int" where
  "wrap64 x = (x + 9223372036854775808) mod 18446744073709551616 - 9223372036854775808"

definition in_int64 :: "int \<Rightarrow> bool" where
  "in_int64 x \<longleftrightarrow> -9223372036854775808 \<le> x \<and> x < 9223372036854775808"

abbreviation maxInt64 :: int where
  "maxInt64 \<equiv> 9223372036854775807"

abbreviation minInt64 :: int where
  "minInt64 \<equiv> -9223372036854775808"

lemma wrap64_id [simp]: "in_int64 x \<Longrightarrow> wrap64 x = x"
  by (simp add: wrap64_def in_int64_def)

lemma wrap64_in [simp]: "in_int64 (wrap64 x)"
proof -
  have "0 \<le> (x + 9223372036854775808) mod 18446744073709551616"
    and "(x + 9223372036854775808) mod 18446744073709551616 < 18446744073709551616"
    by simp_all
  then show ?thesis
    unfolding wrap64_def in_int64_def by linarith
qed

lemma in_int64I: "-9223372036854775808 \<le> x \<Longrightarrow> x < 9223372036854775808 \<Longrightarrow> in_int64 x"
  by (simp add: in_int64_def)

text \<open>Go's \<open>/\<close> on integers truncates towards zero.\<close>

definition i64_quot :: "int \<Rightarrow> int \<Rightarrow> int" where
  "i64_quot a b = wrap64 (a sdiv b)"

definition i64_rem :: "int \<Rightarrow> int \<Rightarrow> int" where
  "i64_rem a b = wrap64 (a smod b)"

lemma sdiv_nonneg: "0 \<le> a \<Longrightarrow> 0 < b \<Longrightarrow> a sdiv b = a div b" for a b :: int
  by (cases "a = 0") (simp_all add: signed_divide_int_def)

lemma smod_nonneg: "0 \<le> a \<Longrightarrow> 0 < b \<Longrightarrow> a smod b = a mod b" for a b :: int
  by (cases "a = 0") (simp_all add: signed_modulo_int_def)

lemma i64_quot_nonneg:
  assumes "0 \<le> a" "0 < b" "in_int64 a"
  shows "i64_quot a b = a div b"
proof -
  have "a div b \<le> a"
    using assms(1,2) zdiv_mono2[of a 1 b] by simp
  moreover have "0 \<le> a div b"
    using assms(1,2) by (simp add: pos_imp_zdiv_nonneg_iff)
  ultimately have "in_int64 (a div b)"
    using assms(3) by (simp add: in_int64_def)
  then show ?thesis
    using assms(1,2) by (simp add: i64_quot_def sdiv_nonneg)
qed


section \<open>Instants and durations\<close>

text \<open>
  An instant (\<open>time.Time\<close>) is its number of nanoseconds since the Unix epoch; the
  location and the monotonic reading do not take part in any comparison of the program.
  \<open>zero_time\<close> is the zero value of the type, 1 January of year 1.
\<close>

type_synonym Time = int
type_synonym Duration = int

abbreviation Millisecond :: Duration where
  "Millisecond \<equiv> 1000000"

abbreviation Second :: Duration where
  "Second \<equiv> 1000000000"

abbreviation Minute :: Duration where
  "Minute \<equiv> 60000000000"

abbreviation Hour :: Duration where
  "Hour \<equiv> 3600000000000"

definition zero_time :: Time where
  "zero_time = -62135596800000000000"

definition IsZero :: "Time \<Rightarrow> bool" where
  "IsZero t \<longleftrightarrow> t = zero_time"

text \<open>\<open>t.Sub(u)\<close> saturates at the range of a duration.\<close>

definition time_sub :: "Time \<Rightarrow> Time \<Rightarrow> Duration" where
  "time_sub t u = max minInt64 (min maxInt64 (t - u))"

text \<open>\<open>t.UnixMilli()\<close> counts whole milliseconds, rounding down.\<close>

definition UnixMilli :: "Time \<Rightarrow> int" where
  "UnixMilli t = wrap64 (t div Millisecond)"

definition FromUnixMilli :: "int \<Rightarrow> Time" where
  "FromUnixMilli ms = ms * Millisecond"

definition FromUnix :: "int \<Rightarrow> Time" where
  "FromUnix s = s * Second"

text \<open>\<open>d.Truncate(m)\<close> rounds towards zero to a multiple of \<open>m\<close>.\<close>

definition dur_truncate :: "Duration \<Rightarrow> Duration \<Rightarrow> Duration" where
  "dur_truncate d m = (if m \<le> 0 then d else wrap64 (d - i64_rem d m))"

lemma time_sub_in [simp]: "in_int64 (time_sub t u)"
  by (simp add: time_sub_def in_int64_def)

lemma time_sub_exact: "in_int64 (t - u) \<Longrightarrow> time_sub t u = t - u"
  by (simp add: time_sub_def in_int64_def)

lemma dur_truncate_nonneg:
  assumes "0 \<le> d" "0 < m" "in_int64 d"
  shows "dur_truncate d m = d - d mod m"
proof -
  have r: "0 \<le> d mod m" "d mod m \<le> d"
    using assms(1,2) by (auto simp: zmod_le_nonneg_dividend)
  then have "in_int64 (d mod m)" "in_int64 (d - d mod m)"
    using assms(1,3) by (auto simp: in_int64_def)
  then show ?thesis
    using assms by (simp add: dur_truncate_def i64_rem_def smod_nonneg)
qed


section \<open>Errors as values\<close>

text \<open>Sequencing of computations that may stop with an error, and loops of such bodies.\<close>

definition res_bind :: "'e + 'a \<Rightarrow> ('a \<Rightarrow> 'e + 'b) \<Rightarrow> 'e + 'b" where
  "res_bind r f = (case r of Inl e \<Rightarrow> Inl e | Inr a \<Rightarrow> f a)"

lemma res_bind_simps [simp, go_simps]:
  "res_bind (Inl e) f = Inl e"
  "res_bind (Inr a) f = f a"
  by (simp_all add: res_bind_def)

lemma res_bind_Inr_iff: "res_bind r f = Inr b \<longleftrightarrow> (\<exists>a. r = Inr a \<and> f a = Inr b)"
  by (cases r) simp_all

primrec fold_res :: "('x \<Rightarrow> 's \<Rightarrow> 'e + 's) \<Rightarrow> 'x list \<Rightarrow> 's \<Rightarrow> 'e + 's" where
  "fold_res f [] s = Inr s"
| "fold_res f (x # xs) s = res_bind (f x s) (fold_res f xs)"

lemma fold_res_append:
  "fold_res f (xs @ ys) s = res_bind (fold_res f xs s) (fold_res f ys)"
  by (induction xs arbitrary: s) (auto simp: res_bind_def split: sum.splits)

text \<open>A loop whose body never fails is a plain fold.\<close>

lemma fold_res_total:
  assumes "\<And>x s. x \<in> set xs \<Longrightarrow> f x s = Inr (g x s)"
  shows "fold_res f xs s = Inr (fold g xs s)"
  using assms by (induction xs arbitrary: s) simp_all

lemma fold_invariant_list:
  assumes "P s" "\<And>x s. x \<in> set xs \<Longrightarrow> P s \<Longrightarrow> P (f x s)"
  shows "P (fold f xs s)"
  using assms by (induction xs arbitrary: s) simp_all


section \<open>Go maps\<close>

text \<open>
  A Go map is an association list with distinct keys. A \<open>range\<close> loop visits the
  entries in an order the language leaves open: the models of such loops visit a
  permutation that is an argument of the model.
\<close>

type_synonym ('k, 'v) gomap = "('k \<times> 'v) list"

definition gomap_ok :: "('k, 'v) gomap \<Rightarrow> bool" where
  "gomap_ok m \<longleftrightarrow> distinct (map fst m)"

definition map_get :: "'v \<Rightarrow> ('k, 'v) gomap \<Rightarrow> 'k \<Rightarrow> 'v" where
  "map_get d m k = (case map_of m k of None \<Rightarrow> d | Some v \<Rightarrow> v)"

abbreviation map_put :: "('k, 'v) gomap \<Rightarrow> 'k \<Rightarrow> 'v \<Rightarrow> ('k, 'v) gomap" where
  "map_put m k v \<equiv> AList.update k v m"

abbreviation map_del :: "('k, 'v) gomap \<Rightarrow> 'k \<Rightarrow> ('k, 'v) gomap" where
  "map_del m k \<equiv> AList.delete k m"

definition map_incr :: "('k, int) gomap \<Rightarrow> 'k \<Rightarrow> ('k, int) gomap" where
  "map_incr m k = map_put m k (map_get 0 m k + 1)"

lemma gomap_ok_Nil [simp, wf_intros]: "gomap_ok []"
  by (simp add: gomap_ok_def)

lemma gomap_ok_put [simp, wf_intros]: "gomap_ok m \<Longrightarrow> gomap_ok (map_put m k v)"
  by (simp add: gomap_ok_def distinct_update)

lemma gomap_ok_del [simp, wf_intros]: "gomap_ok m \<Longrightarrow> gomap_ok (map_del m k)"
  by (simp add: gomap_ok_def distinct_delete)

lemma gomap_ok_incr [simp, wf_intros]: "gomap_ok m \<Longrightarrow> gomap_ok (map_incr m k)"
  by (simp add: map_incr_def)

lemma map_of_put [simp, map_simps]: "map_of (map_put m k v) = (map_of m)(k \<mapsto> v)"
  by (simp add: update_conv')

lemma map_of_del [simp, map_simps]: "map_of (map_del m k) = (map_of m)(k := None)"
  by (simp add: delete_conv')

lemma map_get_put [simp, map_simps]:
  "map_get d (map_put m k v) k' = (if k' = k then v else map_get d m k')"
  by (simp add: map_get_def)

lemma map_get_incr [simp, map_simps]:
  "map_get 0 (map_incr m k) k' = map_get 0 m k' + (if k' = k then 1 else 0)"
  by (simp add: map_incr_def)

lemma map_get_Nil [simp, map_simps]: "map_get d [] k = d"
  by (simp add: map_get_def)

lemma keys_put [simp, map_simps]: "fst ` set (map_put m k v) = insert k (fst ` set m)"
  using dom_update[of k v m] by (simp add: dom_map_of_conv_image_fst)

lemma keys_del [simp, map_simps]: "fst ` set (map_del m k) = fst ` set m - {k}"
  by (induction m) auto

lemma keys_incr [simp, map_simps]: "fst ` set (map_incr m k) = insert k (fst ` set m)"
  by (simp add: map_incr_def)

lemma gomap_lookup_iff: "gomap_ok m \<Longrightarrow> map_of m k = Some v \<longleftrightarrow> (k, v) \<in> set m"
  by (simp add: gomap_ok_def)

lemma gomap_perm_lookup:
  assumes "gomap_ok m" "mset m' = mset m"
  shows "gomap_ok m'" "map_of m' = map_of m"
proof -
  have "mset (map fst m') = mset (map fst m)"
    using assms(2) by (simp del: mset_map add: mset_map)
  then show ok: "gomap_ok m'"
    using assms(1) by (metis gomap_ok_def mset_eq_imp_distinct_iff)
  have "set m' = set m"
    using assms(2) by (rule mset_eq_setD)
  with ok assms(1) show "map_of m' = map_of m"
    by (simp add: gomap_ok_def map_of_inject_set)
qed

lemma map_get_perm:
  assumes "gomap_ok m" "mset m' = mset m"
  shows "map_get d m' = map_get d m"
  using gomap_perm_lookup[OF assms] by (simp add: map_get_def fun_eq_iff)

text \<open>Counting with a map: the count of a key is its number of occurrences.\<close>

lemma map_get_count:
  "map_get 0 (fold (\<lambda>k m. map_incr m k) ks m) k = map_get 0 m k + int (count_list ks k)"
  by (induction ks arbitrary: m) auto

lemma keys_count: "fst ` set (fold (\<lambda>k m. map_incr m k) ks m) = fst ` set m \<union> set ks"
  by (induction ks arbitrary: m) auto

lemma gomap_ok_count: "gomap_ok m \<Longrightarrow> gomap_ok (fold (\<lambda>k m. map_incr m k) ks m)"
  by (induction ks arbitrary: m) simp_all


section \<open>sort.Slice and sort.Search\<close>

text \<open>
  \<open>sort.Slice\<close> leaves the elements sorted by the given \<open>less\<close>; which sorted
  permutation it is, is left open. The model inserts one element at a time. Where the
  order is total on the elements the result is the only one, which the locale shows.
\<close>

fun insert_by :: "('a \<Rightarrow> 'a \<Rightarrow> bool) \<Rightarrow> 'a \<Rightarrow> 'a list \<Rightarrow> 'a list" where
  "insert_by lt x [] = [x]"
| "insert_by lt x (y # ys) = (if lt y x then y # insert_by lt x ys else x # y # ys)"

definition sort_slice :: "('a \<Rightarrow> 'a \<Rightarrow> bool) \<Rightarrow> 'a list \<Rightarrow> 'a list" where
  "sort_slice lt xs = foldr (insert_by lt) xs []"

lemma mset_insert_by [simp]: "mset (insert_by lt x xs) = add_mset x (mset xs)"
  by (induction xs) auto

lemma mset_sort_slice [simp]: "mset (sort_slice lt xs) = mset xs"
  by (induction xs) (simp_all add: sort_slice_def)

lemma set_sort_slice [simp]: "set (sort_slice lt xs) = set xs"
  by (rule mset_eq_setD) simp

lemma set_insert_by [simp]: "set (insert_by lt x xs) = insert x (set xs)"
  by (metis mset_insert_by set_mset_add_mset_insert set_mset_mset)

lemma length_sort_slice [simp]: "length (sort_slice lt xs) = length xs"
  by (metis mset_sort_slice size_mset)

lemma distinct_sort_slice [simp]: "distinct (sort_slice lt xs) = distinct xs"
  by (metis mset_sort_slice mset_eq_imp_distinct_iff)

locale comparator =
  fixes lt :: "'a \<Rightarrow> 'a \<Rightarrow> bool"
  assumes less_irrefl: "\<not> lt x x"
    and less_trans: "lt x y \<Longrightarrow> lt y z \<Longrightarrow> lt x z"
    and not_less_trans: "\<not> lt x y \<Longrightarrow> \<not> lt y z \<Longrightarrow> \<not> lt x z"
begin

lemma less_asym: "lt x y \<Longrightarrow> \<not> lt y x"
  using less_irrefl less_trans by blast

lemma sorted_insert_by:
  "sorted_wrt (\<lambda>x y. \<not> lt y x) xs \<Longrightarrow> sorted_wrt (\<lambda>x y. \<not> lt y x) (insert_by lt x xs)"
proof (induction xs)
  case Nil
  then show ?case by simp
next
  case (Cons y ys)
  show ?case
  proof (cases "lt y x")
    case True
    with Cons less_asym[of y x] show ?thesis by simp
  next
    case False
    have "\<not> lt z x" if "z \<in> set ys" for z
      using Cons.prems that False not_less_trans[of z y x] by simp
    with Cons.prems False show ?thesis by simp
  qed
qed

lemma sorted_sort_slice: "sorted_wrt (\<lambda>x y. \<not> lt y x) (sort_slice lt xs)"
  by (induction xs) (simp_all add: sort_slice_def sorted_insert_by)

text \<open>The only sorted permutation, where the order tells any two elements apart.\<close>

lemma sorted_unique:
  assumes "mset xs = mset ys"
    and "sorted_wrt (\<lambda>x y. \<not> lt y x) xs" "sorted_wrt (\<lambda>x y. \<not> lt y x) ys"
    and "\<And>x y. x \<in> set xs \<Longrightarrow> y \<in> set xs \<Longrightarrow> x \<noteq> y \<Longrightarrow> lt x y \<or> lt y x"
  shows "xs = ys"
  using assms
proof (induction xs arbitrary: ys)
  case Nil
  then show ?case by simp
next
  case (Cons x xs)
  then obtain y ys' where ys: "ys = y # ys'"
    by (cases ys) auto
  have x_in: "x \<in> set ys" and y_in: "y \<in> set (x # xs)"
    using mset_eq_setD[OF Cons.prems(1)] ys by auto
  have "x = y"
  proof (rule ccontr)
    assume "x \<noteq> y"
    then have "lt x y \<or> lt y x"
      using Cons.prems(4) y_in by simp
    moreover have "\<not> lt y x"
      using Cons.prems(2) y_in \<open>x \<noteq> y\<close> by auto
    moreover have "\<not> lt x y"
      using Cons.prems(3) ys x_in \<open>x \<noteq> y\<close> by auto
    ultimately show False by blast
  qed
  moreover have "xs = ys'"
    using Cons ys \<open>x = y\<close> by simp
  ultimately show ?case
    using ys by simp
qed

lemma sort_slice_unique:
  assumes "mset ys = mset xs" "sorted_wrt (\<lambda>x y. \<not> lt y x) ys"
    and "\<And>x y. x \<in> set xs \<Longrightarrow> y \<in> set xs \<Longrightarrow> x \<noteq> y \<Longrightarrow> lt x y \<or> lt y x"
  shows "sort_slice lt xs = ys"
  using assms by (intro sorted_unique) (auto simp: sorted_sort_slice)

text \<open>With distinct elements told apart by the order, neighbours are strictly ordered.\<close>

lemma sorted_sort_slice_strict:
  assumes "distinct xs"
    and "\<And>x y. x \<in> set xs \<Longrightarrow> y \<in> set xs \<Longrightarrow> x \<noteq> y \<Longrightarrow> lt x y \<or> lt y x"
  shows "sorted_wrt lt (sort_slice lt xs)"
proof -
  let ?ys = "sort_slice lt xs"
  have "lt (?ys ! i) (?ys ! j)" if "i < j" "j < length ?ys" for i j
  proof -
    have "?ys ! i \<noteq> ?ys ! j"
      using that assms(1) nth_eq_iff_index_eq[of ?ys i j] by simp
    moreover have "?ys ! i \<in> set xs" "?ys ! j \<in> set xs"
      using that nth_mem[of i ?ys] nth_mem[of j ?ys] by simp_all
    moreover have "\<not> lt (?ys ! j) (?ys ! i)"
      using sorted_wrt_nth_less[OF sorted_sort_slice that] .
    ultimately show ?thesis
      using assms(2) by blast
  qed
  then show ?thesis
    by (simp add: sorted_wrt_iff_nth_less)
qed

end

text \<open>
  \<open>sort.Search(n, f)\<close>: binary search for the least index in \<open>[0, n)\<close> where
  \<open>f\<close> holds, \<open>n\<close> when there is none.
\<close>

function search_from :: "(nat \<Rightarrow> bool) \<Rightarrow> nat \<Rightarrow> nat \<Rightarrow> nat" where
  "search_from f i j =
     (if i < j then
        let h = (i + j) div 2
        in if \<not> f h then search_from f (h + 1) j else search_from f i h
      else i)"
  by pat_completeness auto
termination
  by (relation "measure (\<lambda>(f, i, j). j - i)") auto

declare search_from.simps [simp del]

definition sort_Search :: "nat \<Rightarrow> (nat \<Rightarrow> bool) \<Rightarrow> nat" where
  "sort_Search n f = search_from f 0 n"

lemma search_from_least:
  assumes "\<And>a b. a \<le> b \<Longrightarrow> b < n \<Longrightarrow> f a \<Longrightarrow> f b"
    and "i \<le> j" "j \<le> n" "\<And>k. k < i \<Longrightarrow> \<not> f k" "j < n \<Longrightarrow> f j"
  shows "search_from f i j \<le> n \<and> (\<forall>k < search_from f i j. \<not> f k) \<and>
    (search_from f i j < n \<longrightarrow> f (search_from f i j))"
  using assms
proof (induction f i j rule: search_from.induct)
  case (1 f i j)
  let ?h = "(i + j) div 2"
  show ?case
  proof (cases "i < j")
    case False
    then have "search_from f i j = i" "i = j"
      using "1.prems"(2) by (auto simp: search_from.simps)
    then show ?thesis
      using "1.prems" by auto
  next
    case True
    then have h: "?h < j" "i \<le> ?h" "?h < n"
      using "1.prems"(3) by auto
    show ?thesis
    proof (cases "f ?h")
      case True
      then have eq: "search_from f i j = search_from f i ?h"
        using \<open>i < j\<close> by (simp add: search_from.simps[of f i j] Let_def)
      have "?h \<le> n" "\<not> \<not> f ?h"
        using h True by simp_all
      from "1.IH"(2)[OF \<open>i < j\<close> refl this(2) "1.prems"(1) h(2) this(1) "1.prems"(4) True]
      show ?thesis
        unfolding eq .
    next
      case False
      have below: "\<not> f k" if "k < ?h + 1" for k
        using "1.prems"(1)[of k ?h] h False that by auto
      have eq: "search_from f i j = search_from f (?h + 1) j"
        using \<open>i < j\<close> False by (simp add: search_from.simps[of f i j] Let_def)
      have "?h + 1 \<le> j"
        using h by simp
      from "1.IH"(1)[OF \<open>i < j\<close> refl False "1.prems"(1) this "1.prems"(3) below "1.prems"(5)]
      show ?thesis
        unfolding eq .
    qed
  qed
qed

lemma sort_Search_least:
  assumes "\<And>a b. a \<le> b \<Longrightarrow> b < n \<Longrightarrow> f a \<Longrightarrow> f b"
  shows "sort_Search n f \<le> n" "k < sort_Search n f \<Longrightarrow> \<not> f k"
    "sort_Search n f < n \<Longrightarrow> f (sort_Search n f)"
proof -
  have "search_from f 0 n \<le> n \<and> (\<forall>k < search_from f 0 n. \<not> f k) \<and>
    (search_from f 0 n < n \<longrightarrow> f (search_from f 0 n))"
    by (rule search_from_least[where n = n]) (use assms in simp_all)
  then show "sort_Search n f \<le> n" "k < sort_Search n f \<Longrightarrow> \<not> f k"
    "sort_Search n f < n \<Longrightarrow> f (sort_Search n f)"
    by (simp_all add: sort_Search_def)
qed

text \<open>On a list sorted for the predicate, the search cuts the list where it first holds.\<close>

lemma drop_sort_Search:
  assumes "sorted_wrt (\<lambda>x y. P x \<longrightarrow> P y) xs"
  shows "drop (sort_Search (length xs) (\<lambda>i. P (xs ! i))) xs = filter P xs"
proof -
  let ?n = "sort_Search (length xs) (\<lambda>i. P (xs ! i))"
  have mono: "\<And>a b. a \<le> b \<Longrightarrow> b < length xs \<Longrightarrow> P (xs ! a) \<Longrightarrow> P (xs ! b)"
    using assms by (metis le_neq_implies_less sorted_wrt_iff_nth_less)
  have le: "?n \<le> length xs" and lo: "\<And>k. k < ?n \<Longrightarrow> \<not> P (xs ! k)"
    and hi: "?n < length xs \<Longrightarrow> P (xs ! ?n)"
    by (rule sort_Search_least[where f = "\<lambda>i. P (xs ! i)", OF mono]; assumption)+
  have "filter P (take ?n xs) = []"
    unfolding filter_empty_conv using lo by (fastforce simp: in_set_conv_nth)
  moreover have "filter P (drop ?n xs) = drop ?n xs"
  proof (rule filter_True, rule ballI)
    fix x
    assume "x \<in> set (drop ?n xs)"
    then obtain k where k: "k < length xs - ?n" "x = xs ! (?n + k)"
      using le by (auto simp: in_set_conv_nth)
    then show "P x"
      using mono[of ?n "?n + k"] hi by auto
  qed
  ultimately have "filter P (take ?n xs @ drop ?n xs) = drop ?n xs"
    by (simp only: filter_append append_Nil)
  then show ?thesis by simp
qed

text \<open>\<open>sort.Strings\<close> is the library's \<open>sort\<close>: bytewise lexicographic.\<close>

definition sort_Strings :: "string list \<Rightarrow> string list" where
  "sort_Strings xs = sort xs"

lemma sort_Strings_perm: "mset xs = mset ys \<Longrightarrow> sort_Strings xs = sort_Strings ys"
  unfolding sort_Strings_def by (simp flip: sorted_list_of_multiset_mset)


section \<open>The first elements of a sorted set\<close>

lemma distinct_remdups_adj: "sorted xs \<Longrightarrow> distinct (remdups_adj xs)" for xs :: "'a :: linorder list"
proof (induction xs rule: remdups_adj.induct)
  case (3 x y xs)
  then have "x \<noteq> y \<Longrightarrow> x \<notin> set (y # xs)"
    by auto
  then show ?case
    using 3 by auto
qed simp_all

lemma take_insort:
  fixes xs :: "'a :: linorder list"
  assumes "sorted xs" "k \<le> length (filter (\<lambda>y. y < x) xs)"
  shows "take k (insort x xs) = take k xs"
  using assms
proof (induction xs arbitrary: k)
  case (Cons y ys)
  show ?case
  proof (cases "y < x")
    case True
    then show ?thesis
      using Cons by (cases k) auto
  next
    case False
    then have "filter (\<lambda>z. z < x) (y # ys) = []"
      using Cons.prems(1) by (auto simp: filter_empty_conv)
    then show ?thesis
      using Cons.prems(2) by simp
  qed
qed simp

lemma take_sorted_set:
  fixes D E :: "'a :: linorder set"
  assumes "finite E" "D \<subseteq> E" "\<And>x. x \<in> E - D \<Longrightarrow> k \<le> card {y \<in> D. y < x}"
  shows "take k (sorted_list_of_set E) = take k (sorted_list_of_set D)"
proof -
  have "finite D"
    using assms(1,2) finite_subset by blast
  have "take k (sorted_list_of_set (D \<union> F)) = take k (sorted_list_of_set D)" if "finite F" "F \<subseteq> E - D" for F
    using that
  proof (induction F rule: finite_induct)
    case (insert x F)
    let ?xs = "sorted_list_of_set (D \<union> F)"
    have "k \<le> card {y \<in> D. y < x}"
      using insert.prems assms(3) by blast
    also have "\<dots> \<le> card {y \<in> D \<union> F. y < x}"
      using \<open>finite D\<close> insert.hyps(1) by (intro card_mono) auto
    also have "\<dots> = length (filter (\<lambda>y. y < x) ?xs)"
      using \<open>finite D\<close> insert.hyps(1) by (subst distinct_card[symmetric]) (auto intro!: arg_cong[of _ _ card])
    finally have "take k (insort x ?xs) = take k ?xs"
      by (intro take_insort) simp_all
    moreover have "sorted_list_of_set (D \<union> insert x F) = insort x ?xs"
      using \<open>finite D\<close> insert by (simp add: sorted_list_of_set_insert_remove)
    ultimately show ?case
      using insert by simp
  qed simp
  from this[of "E - D"] show ?thesis
    using assms(1,2) by (simp add: Un_absorb1)
qed

lemma take_merge:
  fixes A B :: "'a :: linorder set"
  assumes "finite A" "finite B"
  shows "take k (sorted_list_of_set (set (take k (sorted_list_of_set A)) \<union> B)) = take k (sorted_list_of_set (A \<union> B))"
proof (rule take_sorted_set[symmetric])
  let ?xs = "sorted_list_of_set A"
  show "finite (A \<union> B)" "set (take k ?xs) \<union> B \<subseteq> A \<union> B"
    using assms by (auto dest: in_set_takeD)
  fix x assume "x \<in> A \<union> B - (set (take k ?xs) \<union> B)"
  then have x: "x \<in> set ?xs" "x \<notin> set (take k ?xs)"
    using assms(1) by auto
  then obtain i where i: "i < length ?xs" "?xs ! i = x"
    by (auto simp: in_set_conv_nth)
  then have "k \<le> i"
    using x(2) by (metis in_set_conv_nth length_take linorder_not_le min_less_iff_conj nth_take)
  have "k = card (set (take k ?xs))"
    using \<open>k \<le> i\<close> i by (simp add: distinct_card)
  also have "\<dots> \<le> card {y \<in> set (take k ?xs) \<union> B. y < x}"
  proof (intro card_mono subsetI)
    fix y assume "y \<in> set (take k ?xs)"
    then obtain j where "j < k" "y = ?xs ! j" "j < length ?xs"
      by (auto simp: in_set_conv_nth)
    then have "y < x"
      using i \<open>k \<le> i\<close> sorted_wrt_nth_less[OF strict_sorted_list_of_set, of j i A] by simp
    then show "y \<in> {y \<in> set (take k ?xs) \<union> B. y < x}"
      using \<open>y \<in> set (take k ?xs)\<close> by simp
  qed (use assms in simp)
  finally show "k \<le> card {y \<in> set (take k ?xs) \<union> B. y < x}" .
qed

end
