(* ===== verification/Timeline.thy ===== *)
theory Timeline
  imports GoStrings
begin

text \<open>
  The event model of package \<open>timeline\<close>: statuses and kinds with their names, the
  event and the instance record, the headline status of an event, and the derivation of
  team, application and version from service meta (\<open>event.go\<close>, \<open>derive.go\<close>).
\<close>


section \<open>Statuses and kinds\<close>

text \<open>Both are Go \<open>int8\<close> values: a stored number need not be one of the constants.\<close>

type_synonym Status = "8 word"
type_synonym Kind = "8 word"

definition StatusUnknown :: Status where "StatusUnknown = 0"
definition StatusMissing :: Status where "StatusMissing = 1"
definition StatusCritical :: Status where "StatusCritical = 2"
definition StatusWarning :: Status where "StatusWarning = 3"
definition StatusPassing :: Status where "StatusPassing = 4"
definition StatusMaintenance :: Status where "StatusMaintenance = 5"

lemmas status_consts =
  StatusUnknown_def StatusMissing_def StatusCritical_def StatusWarning_def
  StatusPassing_def StatusMaintenance_def

definition KindUnknown :: Kind where "KindUnknown = 0"
definition KindCheck :: Kind where "KindCheck = 1"
definition KindInstance :: Kind where "KindInstance = 2"
definition KindNode :: Kind where "KindNode = 3"

lemmas kind_consts = KindUnknown_def KindCheck_def KindInstance_def KindNode_def

definition statusNames :: "string list" where
  "statusNames = [''unknown'', ''missing'', ''critical'', ''warning'', ''passing'', ''maintenance'']"

definition kindNames :: "string list" where
  "kindNames = [''unknown'', ''check'', ''instance'', ''node'']"

definition Status_String :: "Status \<Rightarrow> string" where
  "Status_String s =
     (if sint s < 0 \<or> int (length statusNames) \<le> sint s then ''unknown''
      else statusNames ! nat (sint s))"

definition Kind_String :: "Kind \<Rightarrow> string" where
  "Kind_String k =
     (if sint k < 0 \<or> int (length kindNames) \<le> sint k then ''unknown''
      else kindNames ! nat (sint k))"

text \<open>The loops over the name tables: the first index whose name is the given one.\<close>

fun index_from :: "nat \<Rightarrow> string list \<Rightarrow> string \<Rightarrow> nat option" where
  "index_from i [] s = None"
| "index_from i (n # ns) s = (if n = s then Some i else index_from (Suc i) ns s)"

definition ParseStatus :: "string \<Rightarrow> Status \<times> bool" where
  "ParseStatus s = (case index_from 0 statusNames s of
     Some i \<Rightarrow> (word_of_nat i, True) | None \<Rightarrow> (StatusUnknown, False))"

definition ParseKind :: "string \<Rightarrow> Kind \<times> bool" where
  "ParseKind s = (case index_from 0 kindNames s of
     Some i \<Rightarrow> (word_of_nat i, True) | None \<Rightarrow> (KindUnknown, False))"

text \<open>
  The constants of the Consul API client the program compares against
  (\<open>api.HealthPassing\<close> and the like) come from a package outside the repository: they are
  an argument of what uses them. That they differ is what the compiler checks, as they are
  cases of one \<open>switch\<close>.
\<close>

record ConsulApi =
  HealthPassing :: string
  HealthWarning :: string
  HealthCritical :: string
  HealthMaint :: string
  NodeMaint :: string
  ServiceMaintPrefix :: string

definition api_ok :: "ConsulApi \<Rightarrow> bool" where
  "api_ok c \<longleftrightarrow> distinct [HealthPassing c, HealthWarning c, HealthCritical c, HealthMaint c]"

definition StatusFromConsul :: "ConsulApi \<Rightarrow> string \<Rightarrow> Status" where
  "StatusFromConsul c s =
     (if s = HealthPassing c then StatusPassing
      else if s = HealthWarning c then StatusWarning
      else if s = HealthCritical c then StatusCritical
      else if s = HealthMaint c then StatusMaintenance
      else StatusUnknown)"


section \<open>Events and instances\<close>

record Event =
  ev_ID :: int
  ev_Time :: Time
  ev_Datacenter :: string
  ev_Kind :: Kind
  ev_ConsulIndex :: "64 word"
  ev_NodeName :: string
  ev_NodeIP :: string
  ev_OldNodeStatus :: Status
  ev_NewNodeStatus :: Status
  ev_ServiceName :: string
  ev_ServiceID :: string
  ev_Team :: string
  ev_App :: string
  ev_Version :: string
  ev_Tags :: "string list"
  ev_OldServiceStatus :: Status
  ev_NewServiceStatus :: Status
  ev_OldHealthy :: int
  ev_NewHealthy :: int
  ev_TotalInstances :: int
  ev_CheckID :: string
  ev_CheckName :: string
  ev_CheckType :: string
  ev_OldCheckStatus :: Status
  ev_NewCheckStatus :: Status
  ev_CheckOutput :: string

text \<open>The zero value: what a struct literal leaves out, and what a fresh ring buffer holds.\<close>

definition zero_event :: Event where
  "zero_event = \<lparr> ev_ID = 0, ev_Time = zero_time, ev_Datacenter = [], ev_Kind = KindUnknown,
     ev_ConsulIndex = 0, ev_NodeName = [], ev_NodeIP = [], ev_OldNodeStatus = StatusUnknown,
     ev_NewNodeStatus = StatusUnknown, ev_ServiceName = [], ev_ServiceID = [], ev_Team = [],
     ev_App = [], ev_Version = [], ev_Tags = [], ev_OldServiceStatus = StatusUnknown,
     ev_NewServiceStatus = StatusUnknown, ev_OldHealthy = 0, ev_NewHealthy = 0,
     ev_TotalInstances = 0, ev_CheckID = [], ev_CheckName = [], ev_CheckType = [],
     ev_OldCheckStatus = StatusUnknown, ev_NewCheckStatus = StatusUnknown, ev_CheckOutput = [] \<rparr>"

definition OldStatus :: "Event \<Rightarrow> Status" where
  "OldStatus e = (if ev_Kind e = KindNode then ev_OldNodeStatus e
     else if ev_Kind e = KindInstance then ev_OldServiceStatus e
     else ev_OldCheckStatus e)"

definition NewStatus :: "Event \<Rightarrow> Status" where
  "NewStatus e = (if ev_Kind e = KindNode then ev_NewNodeStatus e
     else if ev_Kind e = KindInstance then ev_NewServiceStatus e
     else ev_NewCheckStatus e)"

record Instance =
  in_Datacenter :: string
  in_NodeName :: string
  in_ServiceID :: string
  in_ServiceName :: string
  in_NodeIP :: string
  in_Address :: string
  in_Port :: int
  in_Team :: string
  in_App :: string
  in_Version :: string
  in_Tags :: "string list"
  in_Meta :: "(string, string) gomap"
  in_NodeMeta :: "(string, string) gomap"
  in_FirstSeen :: Time
  in_LastSeen :: Time


section \<open>Team, application and version\<close>

record Derive =
  dv_Team :: "string list"
  dv_App :: "string list"
  dv_Version :: "string list"

definition DefaultDerive :: Derive where
  "DefaultDerive = \<lparr> dv_Team = [''team'', ''owner'', ''owners''],
     dv_App = [''app'', ''application''], dv_Version = [''version''] \<rparr>"

fun first_present :: "(string, string) gomap \<Rightarrow> string list \<Rightarrow> string" where
  "first_present meta [] = []"
| "first_present meta (k # ks) =
     (let v = map_get [] meta k in if v \<noteq> [] then v else first_present meta ks)"

definition Apply :: "Derive \<Rightarrow> (string, string) gomap \<Rightarrow> string \<times> string \<times> string" where
  "Apply d meta = (first_present meta (dv_Team d), first_present meta (dv_App d),
     first_present meta (dv_Version d))"

fun split_list_loop :: "string list \<Rightarrow> string list \<Rightarrow> string list" where
  "split_list_loop [] out = out"
| "split_list_loop (v # vs) out =
     (let v' = TrimSpace v in split_list_loop vs (if v' \<noteq> [] then out @ [v'] else out))"

definition SplitList :: "string \<Rightarrow> string list" where
  "SplitList s = split_list_loop (Split s CHR '','') []"


section \<open>Lemmas\<close>

subsection \<open>Name tables\<close>

lemma index_from_Some:
  "index_from i ns s = Some j \<Longrightarrow> i \<le> j \<and> j - i < length ns \<and> ns ! (j - i) = s"
proof (induction i ns s rule: index_from.induct)
  case (1 i s)
  then show ?case by simp
next
  case (2 i n ns s)
  show ?case
  proof (cases "n = s")
    case True
    then show ?thesis using "2.prems" by simp
  next
    case False
    then have "Suc i \<le> j \<and> j - Suc i < length ns \<and> ns ! (j - Suc i) = s"
      using 2 by simp
    moreover from this have "j - i = Suc (j - Suc i)"
      by arith
    ultimately show ?thesis by simp
  qed
qed

lemma index_from_None: "index_from i ns s = None \<longleftrightarrow> s \<notin> set ns"
  by (induction i ns s rule: index_from.induct) auto

lemma index_from_nth:
  "distinct ns \<Longrightarrow> k < length ns \<Longrightarrow> index_from i ns (ns ! k) = Some (i + k)"
proof (induction ns arbitrary: i k)
  case Nil
  then show ?case by simp
next
  case (Cons n ns)
  then show ?case
    by (cases k) (auto simp: nth_mem)
qed

lemma distinct_statusNames [simp]: "distinct statusNames"
  by (simp add: statusNames_def)

lemma distinct_kindNames [simp]: "distinct kindNames"
  by (simp add: kindNames_def)

lemma length_statusNames [simp]: "length statusNames = 6"
  by (simp add: statusNames_def)

lemma length_kindNames [simp]: "length kindNames = 4"
  by (simp add: kindNames_def)

lemma sint_small8: "n < 128 \<Longrightarrow> sint (word_of_nat n :: 8 word) = int n"
  by (simp add: signed_of_nat signed_take_bit_int_eq_self)

lemma Status_String_nat: "i < 6 \<Longrightarrow> Status_String (word_of_nat i) = statusNames ! i"
  by (simp add: Status_String_def sint_small8)

lemma Kind_String_nat: "i < 4 \<Longrightarrow> Kind_String (word_of_nat i) = kindNames ! i"
  by (simp add: Kind_String_def sint_small8)

lemma unknown_String [simp]:
  "Status_String StatusUnknown = ''unknown''"
  "Kind_String KindUnknown = ''unknown''"
  using Status_String_nat[of 0] Kind_String_nat[of 0]
  by (simp_all add: StatusUnknown_def KindUnknown_def statusNames_def kindNames_def)

lemma word8_of_nat_sint: "0 \<le> sint s \<Longrightarrow> word_of_nat (nat (sint s)) = s" for s :: "8 word"
proof -
  assume "0 \<le> sint s"
  then obtain n where n: "sint s = int n"
    using nonneg_int_cases by blast
  have "word_of_nat n = (word_of_int (sint s) :: 8 word)"
    by (simp add: n del: of_int_sint)
  also have "\<dots> = s"
    by simp
  finally show ?thesis
    by (simp add: n)
qed

lemma ParseStatus_String:
  "ParseStatus (Status_String s) = (if 0 \<le> sint s \<and> sint s < 6 then s else StatusUnknown, True)"
proof (cases "0 \<le> sint s \<and> sint s < 6")
  case True
  then have "ParseStatus (Status_String s) = (word_of_nat (nat (sint s)), True)"
    by (simp add: ParseStatus_def Status_String_def index_from_nth nat_less_iff)
  with True show ?thesis
    by (simp add: word8_of_nat_sint)
next
  case False
  then have "Status_String s = ''unknown''"
    by (auto simp: Status_String_def)
  with False show ?thesis
    by (auto simp: ParseStatus_def statusNames_def StatusUnknown_def)
qed

lemma ParseKind_String:
  "ParseKind (Kind_String k) = (if 0 \<le> sint k \<and> sint k < 4 then k else KindUnknown, True)"
proof (cases "0 \<le> sint k \<and> sint k < 4")
  case True
  then have "ParseKind (Kind_String k) = (word_of_nat (nat (sint k)), True)"
    by (simp add: ParseKind_def Kind_String_def index_from_nth nat_less_iff)
  with True show ?thesis
    by (simp add: word8_of_nat_sint)
next
  case False
  then have "Kind_String k = ''unknown''"
    by (auto simp: Kind_String_def)
  with False show ?thesis
    by (auto simp: ParseKind_def kindNames_def KindUnknown_def)
qed

lemma Status_String_Parse:
  "snd (ParseStatus n) = (n \<in> set statusNames)"
  "Status_String (fst (ParseStatus n)) = (if n \<in> set statusNames then n else ''unknown'')"
proof -
  have "snd (ParseStatus n) = (n \<in> set statusNames) \<and>
    Status_String (fst (ParseStatus n)) = (if n \<in> set statusNames then n else ''unknown'')"
  proof (cases "index_from 0 statusNames n")
    case None
    then show ?thesis
      using index_from_None[of 0 statusNames n] by (simp add: ParseStatus_def)
  next
    case (Some i)
    then have "i < 6 \<and> statusNames ! i = n"
      using index_from_Some[OF Some] by simp
    with Some show ?thesis
      by (auto simp: ParseStatus_def Status_String_nat nth_mem)
  qed
  then show "snd (ParseStatus n) = (n \<in> set statusNames)"
    "Status_String (fst (ParseStatus n)) = (if n \<in> set statusNames then n else ''unknown'')"
    by auto
qed

lemma Kind_String_Parse:
  "snd (ParseKind n) = (n \<in> set kindNames)"
  "Kind_String (fst (ParseKind n)) = (if n \<in> set kindNames then n else ''unknown'')"
proof -
  have "snd (ParseKind n) = (n \<in> set kindNames) \<and>
    Kind_String (fst (ParseKind n)) = (if n \<in> set kindNames then n else ''unknown'')"
  proof (cases "index_from 0 kindNames n")
    case None
    then show ?thesis
      using index_from_None[of 0 kindNames n] by (simp add: ParseKind_def)
  next
    case (Some i)
    then have "i < 4 \<and> kindNames ! i = n"
      using index_from_Some[OF Some] by simp
    with Some show ?thesis
      by (auto simp: ParseKind_def Kind_String_nat nth_mem)
  qed
  then show "snd (ParseKind n) = (n \<in> set kindNames)"
    "Kind_String (fst (ParseKind n)) = (if n \<in> set kindNames then n else ''unknown'')"
    by auto
qed

lemma StatusFromConsul_not_missing [simp]: "StatusFromConsul c s \<noteq> StatusMissing"
  by (simp add: StatusFromConsul_def status_consts)


subsection \<open>Derivation\<close>

lemma first_present_spec:
  "first_present meta ks =
     (case find (\<lambda>k. map_get [] meta k \<noteq> []) ks of None \<Rightarrow> [] | Some k \<Rightarrow> map_get [] meta k)"
  by (induction ks) (simp_all add: Let_def)

lemma first_present_perm:
  assumes "gomap_ok meta" "mset meta' = mset meta"
  shows "first_present meta' ks = first_present meta ks"
  unfolding first_present_spec map_get_perm[OF assms] ..

lemma split_list_loop_filter:
  "split_list_loop vs out = out @ filter (\<lambda>v. v \<noteq> []) (map TrimSpace vs)"
  by (induction vs arbitrary: out) (simp_all add: Let_def)


section \<open>Properties\<close>

text \<open>
  Status and kind names round-trip. Parsing accepts exactly the names of the tables;
  parsing the name of a declared status or kind gives it back; a stored number outside the
  declared constants reads as unknown; and printing what was parsed gives the parsed name.
\<close>

theorem enum_names_roundtrip:
  "ParseStatus (Status_String s) = (if 0 \<le> sint s \<and> sint s < 6 then s else StatusUnknown, True) \<and>
   ParseKind (Kind_String k) = (if 0 \<le> sint k \<and> sint k < 4 then k else KindUnknown, True) \<and>
   snd (ParseStatus n) = (n \<in> set statusNames) \<and>
   snd (ParseKind n) = (n \<in> set kindNames) \<and>
   Status_String (fst (ParseStatus n)) = (if n \<in> set statusNames then n else ''unknown'') \<and>
   Kind_String (fst (ParseKind n)) = (if n \<in> set kindNames then n else ''unknown'')"
  by (intro conjI ParseStatus_String ParseKind_String Status_String_Parse Kind_String_Parse)

end
