(* ===== verification/Query.thy ===== *)
theory Query
  imports Timeline
begin

text \<open>
  Package \<open>storage\<close>, the part every backend shares: filter fields and filters, queries and
  their validation, the matching of an event against a query, cursors and their text form,
  and the values an event has for a field (\<open>storage.go\<close>, \<open>fields.go\<close>).
\<close>


section \<open>Fields, filters, queries\<close>

abbreviation FieldDatacenter :: string where "FieldDatacenter \<equiv> ''dc''"
abbreviation FieldService :: string where "FieldService \<equiv> ''service''"
abbreviation FieldNode :: string where "FieldNode \<equiv> ''node''"
abbreviation FieldCheck :: string where "FieldCheck \<equiv> ''check''"
abbreviation FieldKind :: string where "FieldKind \<equiv> ''kind''"
abbreviation FieldTag :: string where "FieldTag \<equiv> ''tag''"
abbreviation FieldTeam :: string where "FieldTeam \<equiv> ''team''"
abbreviation FieldApp :: string where "FieldApp \<equiv> ''app''"
abbreviation FieldVersion :: string where "FieldVersion \<equiv> ''version''"
abbreviation FieldCheckType :: string where "FieldCheckType \<equiv> ''type''"
abbreviation FieldTo :: string where "FieldTo \<equiv> ''to''"
abbreviation FieldFrom :: string where "FieldFrom \<equiv> ''from''"
abbreviation FieldHealthy :: string where "FieldHealthy \<equiv> ''healthy''"

definition Fields :: "string list" where
  "Fields = [FieldDatacenter, FieldService, FieldNode, FieldCheck, FieldKind, FieldTag, FieldTeam,
     FieldApp, FieldVersion, FieldCheckType, FieldTo, FieldFrom, FieldHealthy]"

definition FacetFields :: "string list" where
  "FacetFields = [FieldDatacenter, FieldKind, FieldTo, FieldTag, FieldTeam, FieldApp, FieldService,
     FieldNode, FieldCheck, FieldCheckType, FieldVersion]"

record Filter =
  f_Field :: string
  f_Values :: "string list"
  f_Not :: bool

text \<open>A position in the newest-first ordering: the last row seen.\<close>

datatype Cursor = Cursor (cur_Time: Time) (cur_ID: int)

definition zero_cursor :: Cursor where
  "zero_cursor = Cursor zero_time 0"

definition Cursor_IsZero :: "Cursor \<Rightarrow> bool" where
  "Cursor_IsZero c \<longleftrightarrow> IsZero (cur_Time c)"

record Query =
  q_Datacenter :: string
  q_From :: Time
  q_To :: Time
  q_Filters :: "Filter list"
  q_Text :: string
  q_Cursor :: Cursor
  q_Limit :: int

definition zero_query :: Query where
  "zero_query = \<lparr> q_Datacenter = [], q_From = zero_time, q_To = zero_time, q_Filters = [],
     q_Text = [], q_Cursor = zero_cursor, q_Limit = 0 \<rparr>"

text \<open>Every error return of the modelled storage code, and the one panic it can reach.\<close>

datatype error =
    ErrNoValue string
  | ErrUnknownKind string
  | ErrUnknownStatus string
  | ErrHealthyNumber string
  | ErrUnknownField string
  | ErrMalformedCursor
  | ErrUnknownSplit string
  | PanicMakeslice


section \<open>Cursors as text\<close>

definition Cursor_String :: "Cursor \<Rightarrow> string" where
  "Cursor_String c = (if Cursor_IsZero c then []
     else EncodeToString (Itoa (UnixMilli (cur_Time c)) @ '':'' @ Itoa (cur_ID c)))"

definition ParseCursor :: "string \<Rightarrow> error + Cursor" where
  "ParseCursor s =
     (if s = [] then Inr zero_cursor
      else case DecodeString s of
        None \<Rightarrow> Inl ErrMalformedCursor
      | Some b \<Rightarrow>
          (let parts = Split b CHR '':''
           in if length parts \<noteq> 2 then Inl ErrMalformedCursor
              else let (ms, ok1) = ParseInt (parts ! 0); (i, ok2) = ParseInt (parts ! 1)
                in if \<not> ok1 \<or> \<not> ok2 then Inl ErrMalformedCursor
                   else Inr (Cursor (FromUnixMilli ms) i)))"


section \<open>Splits and bucket keys\<close>

datatype Split = SplitStatus | SplitDatacenter

definition ParseSplit :: "string \<Rightarrow> error + Split" where
  "ParseSplit s =
     (if s = [] \<or> s = ''status'' then Inr SplitStatus
      else if s = ''dc'' then Inr SplitDatacenter
      else Inl (ErrUnknownSplit s))"

definition BucketKey :: "Event \<Rightarrow> Split \<Rightarrow> string" where
  "BucketKey e split =
     (if split = SplitDatacenter then ev_Datacenter e else Status_String (NewStatus e))"


section \<open>Validation\<close>

definition Filter_Validate :: "Filter \<Rightarrow> error option" where
  "Filter_Validate f =
     (if f_Values f = [] then Some (ErrNoValue (f_Field f))
      else if f_Field f \<in> {FieldDatacenter, FieldService, FieldNode, FieldCheck, FieldTeam, FieldApp,
        FieldVersion, FieldCheckType, FieldTag} then None
      else if f_Field f = FieldKind then
        map_option ErrUnknownKind (find (\<lambda>v. \<not> snd (ParseKind v)) (f_Values f))
      else if f_Field f \<in> {FieldTo, FieldFrom} then
        map_option ErrUnknownStatus (find (\<lambda>v. \<not> snd (ParseStatus v)) (f_Values f))
      else if f_Field f = FieldHealthy then
        map_option ErrHealthyNumber (find (\<lambda>v. Atoi v = None) (f_Values f))
      else Some (ErrUnknownField (f_Field f)))"

fun validate_filters :: "Filter list \<Rightarrow> error option" where
  "validate_filters [] = None"
| "validate_filters (f # fs) =
     (case Filter_Validate f of Some err \<Rightarrow> Some err | None \<Rightarrow> validate_filters fs)"

definition Query_Validate :: "Query \<Rightarrow> error option" where
  "Query_Validate q = validate_filters (q_Filters q)"


section \<open>Matching\<close>

definition MatchName :: "string \<Rightarrow> string \<Rightarrow> bool" where
  "MatchName name pattern =
     (if HasSuffix pattern ''*'' then HasPrefix name (take (length pattern - 1) pattern)
      else name = pattern)"

definition matchOne :: "string \<Rightarrow> Event \<Rightarrow> string \<Rightarrow> bool" where
  "matchOne field e v =
     (if field = FieldDatacenter then MatchName (ev_Datacenter e) v
      else if field = FieldService then MatchName (ev_ServiceName e) v
      else if field = FieldNode then MatchName (ev_NodeName e) v
      else if field = FieldCheck then MatchName (ev_CheckName e) v
      else if field = FieldTeam then MatchName (ev_Team e) v
      else if field = FieldApp then MatchName (ev_App e) v
      else if field = FieldVersion then MatchName (ev_Version e) v
      else if field = FieldCheckType then ev_CheckType e = v
      else if field = FieldKind then Kind_String (ev_Kind e) = v
      else if field = FieldTag then list_ex (\<lambda>t. MatchName t v) (ev_Tags e)
      else if field = FieldTo then Status_String (NewStatus e) = v
      else if field = FieldFrom then Status_String (OldStatus e) = v
      else if field = FieldHealthy then (case Atoi v of None \<Rightarrow> False | Some n \<Rightarrow> ev_NewHealthy e = n)
      else False)"

definition Filter_match :: "Filter \<Rightarrow> Event \<Rightarrow> bool" where
  "Filter_match f e = list_ex (matchOne (f_Field f) e) (f_Values f)"

definition match_text :: "Event \<Rightarrow> string \<Rightarrow> bool" where
  "match_text e text =
     (let t = ToLower text in
        Contains (ToLower (ev_CheckOutput e)) t \<or> Contains (ToLower (ev_ServiceName e)) t \<or>
        Contains (ToLower (ev_NodeName e)) t \<or> Contains (ToLower (ev_CheckName e)) t)"

definition Match :: "Event \<Rightarrow> Query \<Rightarrow> bool" where
  "Match e q =
     (if q_Datacenter q \<noteq> [] \<and> ev_Datacenter e \<noteq> q_Datacenter q then False
      else if \<not> IsZero (q_From q) \<and> ev_Time e < q_From q then False
      else if \<not> IsZero (q_To q) \<and> q_To q < ev_Time e then False
      else if list_ex (\<lambda>f. Filter_match f e = f_Not f) (q_Filters q) then False
      else if q_Text q \<noteq> [] \<and> \<not> match_text e (q_Text q) then False
      else True)"

definition HeadlineStatus :: "Event \<Rightarrow> Status \<times> Status" where
  "HeadlineStatus e = (OldStatus e, NewStatus e)"


section \<open>The values of a field\<close>

definition FieldValue :: "Event \<Rightarrow> string \<Rightarrow> string" where
  "FieldValue e field =
     (if field = FieldDatacenter then ev_Datacenter e
      else if field = FieldService then ev_ServiceName e
      else if field = FieldNode then ev_NodeName e
      else if field = FieldCheck then ev_CheckName e
      else if field = FieldTeam then ev_Team e
      else if field = FieldApp then ev_App e
      else if field = FieldVersion then ev_Version e
      else if field = FieldCheckType then ev_CheckType e
      else if field = FieldKind then Kind_String (ev_Kind e)
      else if field = FieldTo then Status_String (NewStatus e)
      else if field = FieldFrom then Status_String (OldStatus e)
      else if field = FieldHealthy then Itoa (ev_NewHealthy e)
      else [])"

definition FieldValues :: "Event \<Rightarrow> string \<Rightarrow> string list" where
  "FieldValues e field =
     (if field = FieldTag then ev_Tags e
      else let v = FieldValue e field in if v \<noteq> [] then [v] else [])"


section \<open>The newest-first order\<close>

text \<open>
  Positions are ordered newest first: a later time comes before, and at equal times the
  larger identifier. The library's sorting and its lemmas apply through the class.
\<close>

instantiation Cursor :: linorder
begin

definition less_Cursor :: "Cursor \<Rightarrow> Cursor \<Rightarrow> bool" where
  "less_Cursor a b \<longleftrightarrow> cur_Time a > cur_Time b \<or> (cur_Time a = cur_Time b \<and> cur_ID a > cur_ID b)"

definition less_eq_Cursor :: "Cursor \<Rightarrow> Cursor \<Rightarrow> bool" where
  "less_eq_Cursor a b \<longleftrightarrow> a < b \<or> a = b"

instance
proof
  fix x y z :: Cursor
  show "x < y \<longleftrightarrow> x \<le> y \<and> \<not> y \<le> x"
    by (auto simp: less_Cursor_def less_eq_Cursor_def)
  show "x \<le> x"
    by (simp add: less_eq_Cursor_def)
  show "x \<le> y \<Longrightarrow> y \<le> z \<Longrightarrow> x \<le> z"
    by (auto simp: less_Cursor_def less_eq_Cursor_def)
  show "x \<le> y \<Longrightarrow> y \<le> x \<Longrightarrow> x = y"
    by (auto simp: less_Cursor_def less_eq_Cursor_def)
  show "x \<le> y \<or> y \<le> x"
    by (cases x; cases y) (auto simp: less_Cursor_def less_eq_Cursor_def)
qed

end

definition event_pos :: "Event \<Rightarrow> Cursor" where
  "event_pos e = Cursor (ev_Time e) (ev_ID e)"


section \<open>Lemmas\<close>

lemma MatchName_star: "MatchName name (p @ ''*'') \<longleftrightarrow> HasPrefix name p"
  by (simp add: MatchName_def HasSuffix_def)

lemma MatchName_plain: "\<not> HasSuffix v ''*'' \<Longrightarrow> MatchName name v \<longleftrightarrow> name = v"
  by (simp add: MatchName_def)

lemma Status_String_not_Nil [simp]: "Status_String s \<noteq> []"
  by (cases "nat (sint s)" rule: nat.exhaust)
    (auto simp: Status_String_def statusNames_def nth_Cons split: nat.splits)

lemma Kind_String_not_Nil [simp]: "Kind_String k \<noteq> []"
  by (cases "nat (sint k)" rule: nat.exhaust)
    (auto simp: Kind_String_def kindNames_def nth_Cons split: nat.splits)

lemma Itoa_not_Nil [simp]: "Itoa i \<noteq> []"
  by (simp add: Itoa_def)

text \<open>The matching written out: one conjunct per guard.\<close>

lemma Match_iff:
  "Match e q \<longleftrightarrow>
     (q_Datacenter q = [] \<or> ev_Datacenter e = q_Datacenter q) \<and>
     (IsZero (q_From q) \<or> q_From q \<le> ev_Time e) \<and>
     (IsZero (q_To q) \<or> ev_Time e \<le> q_To q) \<and>
     list_all (\<lambda>f. Filter_match f e \<noteq> f_Not f) (q_Filters q) \<and>
     (q_Text q = [] \<or> match_text e (q_Text q))"
  by (auto simp: Match_def list_ex_iff list_all_iff)

lemma Filter_Validate_None_iff:
  "Filter_Validate f = None \<longleftrightarrow>
     f_Values f \<noteq> [] \<and> f_Field f \<in> set Fields \<and>
     (f_Field f = FieldKind \<longrightarrow> set (f_Values f) \<subseteq> set kindNames) \<and>
     (f_Field f \<in> {FieldTo, FieldFrom} \<longrightarrow> set (f_Values f) \<subseteq> set statusNames) \<and>
     (f_Field f = FieldHealthy \<longrightarrow> (\<forall>v \<in> set (f_Values f). Atoi v \<noteq> None))"
  by (auto simp: Filter_Validate_def Fields_def find_None_iff Status_String_Parse Kind_String_Parse)

lemma Query_Validate_None_iff:
  "Query_Validate q = None \<longleftrightarrow> list_all (\<lambda>f. Filter_Validate f = None) (q_Filters q)"
proof -
  have "validate_filters fs = None \<longleftrightarrow> list_all (\<lambda>f. Filter_Validate f = None) fs" for fs
    by (induction fs) (auto split: option.splits)
  then show ?thesis
    by (simp add: Query_Validate_def)
qed

lemma UnixMilli_range [simp]: "in_int64 (UnixMilli t)"
  by (simp add: UnixMilli_def)

lemma ParseCursor_String_aux:
  assumes "in_int64 (cur_ID c)" "\<not> Cursor_IsZero c"
  shows "ParseCursor (Cursor_String c) = Inr (Cursor (FromUnixMilli (UnixMilli (cur_Time c))) (cur_ID c))"
proof -
  let ?b = "Itoa (UnixMilli (cur_Time c)) @ CHR '':'' # Itoa (cur_ID c)"
  have "Split ?b CHR '':'' = [Itoa (UnixMilli (cur_Time c)), Itoa (cur_ID c)]"
    by (simp add: Split_append Split_no_sep Itoa_no_colon)
  moreover have "Cursor_String c \<noteq> []"
    using assms(2) DecodeString_EncodeToString[of ?b]
    by (auto simp: Cursor_String_def DecodeString_def)
  ultimately show ?thesis
    using assms by (simp add: ParseCursor_def Cursor_String_def ParseInt_Itoa)
qed

text \<open>What a value must look like for its field to be accepted.\<close>

definition value_ok :: "string \<Rightarrow> string \<Rightarrow> bool" where
  "value_ok field v =
     (if field = FieldKind then v \<in> set kindNames
      else if field \<in> {FieldTo, FieldFrom} then v \<in> set statusNames
      else if field = FieldHealthy then Atoi v \<noteq> None
      else True)"

lemma Filter_Validate_value_ok:
  "Filter_Validate f = None \<longleftrightarrow>
     f_Values f \<noteq> [] \<and> f_Field f \<in> set Fields \<and> list_all (value_ok (f_Field f)) (f_Values f)"
  unfolding Filter_Validate_None_iff by (auto simp: value_ok_def list_all_iff Fields_def)

lemma field_value_plain:
  "field \<noteq> FieldHealthy \<Longrightarrow> field \<in> set Fields \<Longrightarrow> v \<noteq> [] \<Longrightarrow> \<not> HasSuffix v ''*'' \<Longrightarrow>
   matchOne field e v \<longleftrightarrow> v \<in> set (FieldValues e field)"
  unfolding Fields_def
  by (simp, elim disjE)
    (auto simp: matchOne_def FieldValues_def FieldValue_def MatchName_plain list_ex_iff Let_def)

lemma field_value_healthy:
  "in_int64 (ev_NewHealthy e) \<Longrightarrow> in_int64 n \<Longrightarrow>
   matchOne FieldHealthy e (Itoa n) \<longleftrightarrow> Itoa n \<in> set (FieldValues e FieldHealthy)"
  by (auto simp: matchOne_def FieldValues_def FieldValue_def Let_def) (metis Atoi_Itoa option.inject)

lemma lower_char_idem [simp]: "lower_char (lower_char c) = lower_char c"
  by (simp add: lower_char_def)

lemma ToLower_idem [simp]: "ToLower (ToLower s) = ToLower s"
  by (simp add: ToLower_def)

lemma Contains_ToLower: "Contains s t \<Longrightarrow> Contains (ToLower s) (ToLower t)"
  unfolding Contains_iff ToLower_def by (metis map_append)


section \<open>Properties\<close>

text \<open>
  Cursors survive the URL. Parsing the text of a cursor gives back its position, with the
  time rounded down to a whole millisecond; the zero cursor's empty text gives the zero
  cursor.
\<close>

theorem cursor_text_roundtrip:
  assumes "in_int64 (cur_ID c)" "in_int64 (cur_Time c div Millisecond)"
  shows "ParseCursor (Cursor_String c) =
    Inr (if Cursor_IsZero c then zero_cursor
         else Cursor (cur_Time c - cur_Time c mod Millisecond) (cur_ID c))"
proof (cases "Cursor_IsZero c")
  case True
  then show ?thesis
    by (simp add: Cursor_String_def ParseCursor_def)
next
  case False
  then show ?thesis
    using assms
    by (simp add: ParseCursor_String_aux UnixMilli_def FromUnixMilli_def minus_mod_eq_div_mult)
qed

theorem cursor_text_roundtrip_witness:
  "ParseCursor (Cursor_String (Cursor 1789600000123456789 42)) = Inr (Cursor 1789600000123000000 42)"
  using cursor_text_roundtrip[of "Cursor 1789600000123456789 42"]
  by (simp add: in_int64_def Cursor_IsZero_def IsZero_def zero_time_def)

text \<open>
  Validation accepts exactly the queries whose every filter has a value and a known
  field, with values that are names of the kind and status tables and numbers where the field
  asks for them; so matching never meets a value it cannot read.
\<close>

theorem validate_accepts:
  "Query_Validate q = None \<longleftrightarrow>
     list_all (\<lambda>f. f_Values f \<noteq> [] \<and> f_Field f \<in> set Fields \<and>
       list_all (value_ok (f_Field f)) (f_Values f)) (q_Filters q)"
  unfolding Query_Validate_None_iff Filter_Validate_value_ok ..

text \<open>
  Filters and facets agree. For every field but the healthy count, filtering on a value
  without a trailing star selects exactly the events that list this value among their values
  of the field: what a facet counts is what choosing it shows. For the healthy count the
  printed number of a machine integer does the same.
\<close>

theorem filter_selects_field_values:
  assumes "field \<in> set Fields" "v \<noteq> []" "\<not> HasSuffix v ''*''"
    and "field = FieldHealthy \<Longrightarrow> in_int64 (ev_NewHealthy e) \<and> in_int64 n \<and> v = Itoa n"
  shows "Match e (zero_query\<lparr>q_Filters := [\<lparr>f_Field = field, f_Values = [v], f_Not = neg\<rparr>]\<rparr>) \<longleftrightarrow>
    (v \<in> set (FieldValues e field)) \<noteq> neg"
proof -
  have "matchOne field e v \<longleftrightarrow> v \<in> set (FieldValues e field)"
    using assms field_value_plain[of field v e] field_value_healthy[of e n]
    by (cases "field = FieldHealthy") auto
  then show ?thesis
    by (simp add: Match_iff zero_query_def IsZero_def Filter_match_def)
qed

theorem filter_selects_field_values_witness:
  "Match (zero_event\<lparr>ev_Tags := [''http'', ''kube'']\<rparr>)
     (zero_query\<lparr>q_Filters := [\<lparr>f_Field = FieldTag, f_Values = [''kube''], f_Not = False\<rparr>]\<rparr>) \<and>
   \<not> Match (zero_event\<lparr>ev_Tags := [''http'', ''kube'']\<rparr>)
     (zero_query\<lparr>q_Filters := [\<lparr>f_Field = FieldTag, f_Values = [''kube''], f_Not = True\<rparr>]\<rparr>)"
  using filter_selects_field_values[where field = FieldTag and v = "''kube''" and neg = False
      and e = "zero_event\<lparr>ev_Tags := [''http'', ''kube'']\<rparr>"]
    filter_selects_field_values[where field = FieldTag and v = "''kube''" and neg = True
      and e = "zero_event\<lparr>ev_Tags := [''http'', ''kube'']\<rparr>"]
  by (simp add: Fields_def HasSuffix_def FieldValues_def)

text \<open>
  the text search ignores case and finds every substring: an event whose check output,
  service, node or check name contains the text matches it, whatever the case of the text;
  and a match is such a containment up to case.
\<close>

theorem text_search:
  "match_text e (ToLower t) = match_text e t \<and>
   (match_text e t \<longleftrightarrow> list_ex (\<lambda>s. \<exists>a b. ToLower s = a @ ToLower t @ b)
     [ev_CheckOutput e, ev_ServiceName e, ev_NodeName e, ev_CheckName e]) \<and>
   (list_ex (\<lambda>s. Contains s t) [ev_CheckOutput e, ev_ServiceName e, ev_NodeName e, ev_CheckName e]
     \<longrightarrow> match_text e t)"
  using Contains_ToLower[where t = t] by (auto simp: match_text_def Let_def Contains_iff)

theorem text_search_witness:
  "match_text (zero_event\<lparr>ev_CheckOutput := ''HTTP 503''\<rparr>) ''ttp'' \<and>
   match_text (zero_event\<lparr>ev_CheckOutput := ''HTTP 503''\<rparr>) ''TTP 5''"
proof -
  let ?e = "zero_event\<lparr>ev_CheckOutput := ''HTTP 503''\<rparr>"
  have "Contains ''HTTP 503'' ''TTP 5''" "Contains ''HTTP 503'' ''TTP''"
    by (simp_all add: HasPrefix_def)
  then have "match_text ?e ''TTP 5''" "match_text ?e (ToLower ''TTP'')"
    using text_search[of ?e "''TTP 5''"] text_search[of ?e "''TTP''"] by auto
  moreover have "ToLower ''TTP'' = ''ttp''"
    by code_simp
  ultimately show ?thesis by simp
qed

end
