(* ===== verification/Memory.thy ===== *)
theory Memory
  imports Query
begin

text \<open>
  Package \<open>storage/memory\<close>: the most recent events in a ring buffer, the instance
  registry, and the reads over them. The ring is shown to be a bounded log (locale
  \<open>bounded_log\<close>), newest first; every read is then a function of that log.
\<close>


section \<open>State and writes\<close>

type_synonym memory_key = "string \<times> string \<times> string"

record MemoryStorage =
  m_events :: "Event list"
  m_next :: nat
  m_size :: nat
  m_nextID :: int
  m_instances :: "(memory_key, Instance) gomap"

definition DefaultMaxSize :: int where
  "DefaultMaxSize = 10000"

definition Memory_New :: "int \<Rightarrow> MemoryStorage" where
  "Memory_New maxSize =
     (let size = (if maxSize \<le> 0 then DefaultMaxSize else maxSize)
      in \<lparr> m_events = replicate (nat size) zero_event, m_next = 0, m_size = 0, m_nextID = 0,
           m_instances = [] \<rparr>)"

text \<open>One round of the loop of \<open>StoreEvents\<close>.\<close>

definition store_one :: "Event \<Rightarrow> MemoryStorage \<Rightarrow> MemoryStorage" where
  "store_one e s =
     (let id = m_nextID s + 1; len = length (m_events s)
      in s\<lparr> m_nextID := id,
            m_events := (m_events s)[m_next s := e\<lparr>ev_ID := id\<rparr>],
            m_next := (m_next s + 1) mod len,
            m_size := (if m_size s < len then m_size s + 1 else m_size s) \<rparr>)"

definition Memory_StoreEvents :: "MemoryStorage \<Rightarrow> Event list \<Rightarrow> MemoryStorage" where
  "Memory_StoreEvents s events = fold store_one events s"

definition upsert_one :: "Instance \<Rightarrow> MemoryStorage \<Rightarrow> MemoryStorage" where
  "upsert_one i s =
     (let k = (in_Datacenter i, in_NodeName i, in_ServiceID i);
          i' = (case map_of (m_instances s) k of
                  Some old \<Rightarrow> i\<lparr>in_FirstSeen := in_FirstSeen old\<rparr> | None \<Rightarrow> i)
      in s\<lparr> m_instances := map_put (m_instances s) k i' \<rparr>)"

definition Memory_UpsertInstances :: "MemoryStorage \<Rightarrow> Instance list \<Rightarrow> MemoryStorage" where
  "Memory_UpsertInstances s instances = fold upsert_one instances s"

definition Memory_Maintain :: "MemoryStorage \<Rightarrow> MemoryStorage" where
  "Memory_Maintain s = s"


section \<open>Reads\<close>

definition event_less :: "Event \<Rightarrow> Event \<Rightarrow> bool" where
  "event_less a b =
     (if ev_Time a \<noteq> ev_Time b then ev_Time a > ev_Time b else ev_ID a > ev_ID b)"

text \<open>The slot the loop of \<open>matching\<close> reads in round \<open>j\<close>.\<close>

definition slot :: "MemoryStorage \<Rightarrow> nat \<Rightarrow> Event" where
  "slot s j = m_events s !
     nat ((int (m_next s) - 1 - int j + int (length (m_events s))) mod int (length (m_events s)))"

definition matching :: "MemoryStorage \<Rightarrow> Query \<Rightarrow> Event list" where
  "matching s q =
     sort_slice event_less (filter (\<lambda>e. Match e q) (map (slot s) [0..<m_size s]))"

record Page =
  pg_Events :: "Event list"
  pg_Next :: Cursor
  pg_HasMore :: bool

definition Memory_Events :: "MemoryStorage \<Rightarrow> Query \<Rightarrow> error + Page" where
  "Memory_Events s q =
     (case Query_Validate q of Some err \<Rightarrow> Inl err | None \<Rightarrow>
       (let limit = (if q_Limit q \<le> 0 then 100 else q_Limit q);
            c = q_Cursor q;
            found = matching s q;
            rest = (if Cursor_IsZero c then found
               else drop (sort_Search (length found) (\<lambda>i. let e = found ! i in
                   ev_Time e < cur_Time c \<or> (ev_Time e = cur_Time c \<and> ev_ID e < cur_ID c))) found)
        in if int (length rest) > limit then
             let events = take (nat limit) rest; lst = events ! (nat limit - 1)
             in Inr \<lparr> pg_Events = events, pg_Next = Cursor (ev_Time lst) (ev_ID lst), pg_HasMore = True \<rparr>
           else Inr \<lparr> pg_Events = rest, pg_Next = zero_cursor, pg_HasMore = False \<rparr>))"

record Bucket =
  bk_Start :: Time
  bk_Total :: int
  bk_By :: "(string, int) gomap"

definition hist_width :: "Duration \<Rightarrow> int \<Rightarrow> Duration" where
  "hist_width span buckets =
     (let w = dur_truncate (i64_quot (wrap64 (wrap64 (span + buckets) - 1)) buckets) Second
      in if w < Second then Second else w)"

definition hist_count :: "Duration \<Rightarrow> Duration \<Rightarrow> int" where
  "hist_count span width = i64_quot (wrap64 (wrap64 (span + width) - 1)) width"

text \<open>One round of the counting loop.\<close>

definition hist_add :: "Time \<Rightarrow> Duration \<Rightarrow> Split \<Rightarrow> Event \<Rightarrow> Bucket list \<Rightarrow> Bucket list" where
  "hist_add from width split e out =
     (let i = i64_quot (time_sub (ev_Time e) from) width
      in if 0 \<le> i \<and> i < int (length out) then
           let b = out ! nat i
           in out[nat i := b\<lparr> bk_Total := bk_Total b + 1, bk_By := map_incr (bk_By b) (BucketKey e split) \<rparr>]
         else out)"

definition Memory_Histogram ::
    "Time \<Rightarrow> MemoryStorage \<Rightarrow> Query \<Rightarrow> int \<Rightarrow> Split \<Rightarrow> error + (Bucket list \<times> bool)" where
  "Memory_Histogram now s q buckets0 split =
     (case Query_Validate q of Some err \<Rightarrow> Inl err | None \<Rightarrow>
       (let to = (if IsZero (q_To q) then now else q_To q);
            from = (if IsZero (q_From q) then to - Hour else q_From q);
            buckets = (if buckets0 \<le> 0 then 60 else buckets0);
            span = time_sub to from
        in if span \<le> 0 then Inr ([], False)
           else let width = hist_width span buckets; n = hist_count span width
             in if n < 0 then Inl PanicMakeslice
                else Inr (fold (hist_add from width split) (matching s q)
                  (map (\<lambda>i. \<lparr> bk_Start = from + wrap64 (int i * width), bk_Total = 0, bk_By = [] \<rparr>)
                    [0..<nat n]), False)))"

record FacetValue =
  fv_Value :: string
  fv_Count :: int

record Facets =
  fc_Values :: "(string, FacetValue list) gomap"
  fc_SampleSize :: int
  fc_Sampled :: bool

definition facet_less :: "FacetValue \<Rightarrow> FacetValue \<Rightarrow> bool" where
  "facet_less a b =
     (if fv_Count a \<noteq> fv_Count b then fv_Count a > fv_Count b else fv_Value a < fv_Value b)"

definition count_values :: "Event list \<Rightarrow> string \<Rightarrow> (string, int) gomap" where
  "count_values events field =
     fold (\<lambda>e m. fold (\<lambda>v m. map_incr m v) (FieldValues e field) m) events []"

definition top_values :: "(string, int) gomap \<Rightarrow> int \<Rightarrow> FacetValue list" where
  "top_values counts limit =
     (let vals = sort_slice facet_less (map (\<lambda>(v, c). \<lparr> fv_Value = v, fv_Count = c \<rparr>) counts)
      in if int (length vals) > limit then take (nat limit) vals else vals)"

definition Memory_Facets ::
    "MemoryStorage \<Rightarrow> Query \<Rightarrow> string list \<Rightarrow> int \<Rightarrow> error + Facets" where
  "Memory_Facets s q flds limit0 =
     (case Query_Validate q of Some err \<Rightarrow> Inl err | None \<Rightarrow>
       (let limit = (if limit0 \<le> 0 then 10 else limit0); found = matching s q
        in Inr \<lparr> fc_Values = fold (\<lambda>f vs. map_put vs f (top_values (count_values found f) limit)) flds [],
                 fc_SampleSize = int (length found), fc_Sampled = False \<rparr>))"

definition sorted_limited :: "(string, bool) gomap \<Rightarrow> int \<Rightarrow> string list" where
  "sorted_limited seen limit =
     (let out = sort_Strings (map fst seen)
      in if int (length out) > limit then take (nat limit) out else out)"

definition Memory_Suggest ::
    "MemoryStorage \<Rightarrow> string \<Rightarrow> string \<Rightarrow> string \<Rightarrow> int \<Rightarrow> string list" where
  "Memory_Suggest s dc field pre limit0 =
     (let limit = (if limit0 \<le> 0 then 20 else limit0);
          seen = fold (\<lambda>e m. fold (\<lambda>v m. if HasPrefix v pre then map_put m v True else m)
                   (FieldValues e field) m) (matching s (zero_query\<lparr>q_Datacenter := dc\<rparr>)) []
      in sorted_limited seen limit)"

definition Memory_Instance :: "MemoryStorage \<Rightarrow> string \<Rightarrow> string \<Rightarrow> string \<Rightarrow> Instance option" where
  "Memory_Instance s dc node serviceID = map_of (m_instances s) (dc, node, serviceID)"

definition Memory_Datacenters :: "MemoryStorage \<Rightarrow> string list" where
  "Memory_Datacenters s =
     (let seen = fold (\<lambda>e m. map_put m (ev_Datacenter e) True) (matching s zero_query) [];
          seen = fold (\<lambda>(k, _) m. map_put m (fst k) True) (m_instances s) seen
      in sort_Strings (map fst seen))"

text \<open>The loop that swaps the two ends, moving inwards.\<close>

fun swap_loop :: "nat \<Rightarrow> nat \<Rightarrow> 'a list \<Rightarrow> 'a list" where
  "swap_loop i j xs =
     (if i < j then swap_loop (i + 1) (j - 1) (xs[i := xs ! j, j := xs ! i]) else xs)"

declare swap_loop.simps [simp del]

definition Memory_Since :: "MemoryStorage \<Rightarrow> string \<Rightarrow> Time \<Rightarrow> int \<Rightarrow> Event list" where
  "Memory_Since s dc after limit0 =
     (let limit = (if limit0 \<le> 0 then 100 else limit0);
          found = matching s (zero_query\<lparr> q_Datacenter := dc, q_From := after + Millisecond \<rparr>);
          found = swap_loop 0 (length found - 1) found
      in if int (length found) > limit then take (nat limit) found else found)"


section \<open>The ring is a bounded log\<close>

text \<open>
  What the reads need of the buffer: pushing puts one entry in front of the log and
  forgets what no longer fits.
\<close>

locale bounded_log =
  fixes push :: "'e \<Rightarrow> 's \<Rightarrow> 's"
    and log_of :: "'s \<Rightarrow> 'e list"
    and cap :: "'s \<Rightarrow> nat"
    and stored :: "'s \<Rightarrow> 'e \<Rightarrow> 'e"
    and ok :: "'s \<Rightarrow> bool"
  assumes log_push: "ok s \<Longrightarrow> log_of (push e s) = take (cap s) (stored s e # log_of s)"
    and cap_push: "ok s \<Longrightarrow> cap (push e s) = cap s"
    and ok_push: "ok s \<Longrightarrow> ok (push e s)"
    and log_fits: "ok s \<Longrightarrow> length (log_of s) \<le> cap s"
begin

primrec entries :: "'s \<Rightarrow> 'e list \<Rightarrow> 'e list" where
  "entries s [] = []"
| "entries s (e # es) = stored s e # entries (push e s) es"

lemma ok_pushes: "ok s \<Longrightarrow> ok (fold push es s)"
  by (induction es arbitrary: s) (simp_all add: ok_push)

lemma cap_pushes: "ok s \<Longrightarrow> cap (fold push es s) = cap s"
  by (induction es arbitrary: s) (simp_all add: ok_push cap_push)

lemma log_pushes: "ok s \<Longrightarrow> log_of (fold push es s) = take (cap s) (rev (entries s es) @ log_of s)"
proof (induction es arbitrary: s)
  case Nil
  then show ?case by (simp add: log_fits)
next
  case (Cons e es)
  have "log_of (fold push es (push e s)) =
      take (cap s) (rev (entries (push e s) es) @ take (cap s) (stored s e # log_of s))"
    using Cons by (simp add: ok_push cap_push log_push)
  also have "\<dots> = take (cap s) (rev (entries (push e s) es) @ stored s e # log_of s)"
    by (simp add: min_def)
  finally show ?case by simp
qed

text \<open>As long as everything fits, nothing is forgotten.\<close>

lemma log_pushes_all:
  "ok s \<Longrightarrow> length es + length (log_of s) \<le> cap s \<Longrightarrow>
   log_of (fold push es s) = rev (entries s es) @ log_of s"
proof -
  have "length (entries s es) = length es" for s
    by (induction es arbitrary: s) simp_all
  then show "ok s \<Longrightarrow> length es + length (log_of s) \<le> cap s \<Longrightarrow>
      log_of (fold push es s) = rev (entries s es) @ log_of s"
    by (simp add: log_pushes)
qed

end

definition ring_log :: "MemoryStorage \<Rightarrow> Event list" where
  "ring_log s = map (slot s) [0..<m_size s]"

definition ring_cap :: "MemoryStorage \<Rightarrow> nat" where
  "ring_cap s = length (m_events s)"

definition ring_ok :: "MemoryStorage \<Rightarrow> bool" where
  "ring_ok s \<longleftrightarrow> m_next s < ring_cap s \<and> m_size s \<le> ring_cap s \<and>
     (m_size s < ring_cap s \<longrightarrow> m_next s = m_size s)"

definition ring_stored :: "MemoryStorage \<Rightarrow> Event \<Rightarrow> Event" where
  "ring_stored s e = e\<lparr>ev_ID := m_nextID s + 1\<rparr>"

text \<open>Without the detour over integers: the slot counted back from the write position.\<close>

lemma slot_nat:
  assumes "m_next s < ring_cap s" "j < ring_cap s"
  shows "slot s j = m_events s ! ((m_next s + ring_cap s - 1 - j) mod ring_cap s)"
proof -
  have "int (m_next s) - 1 - int j + int (ring_cap s) = int (m_next s + ring_cap s - 1 - j)"
    using assms by simp
  moreover have "nat (int k mod int c) = k mod c" for k c
    by (metis nat_int zmod_int)
  ultimately show ?thesis
    unfolding slot_def ring_cap_def by metis
qed

lemma back_zero: "n < c \<Longrightarrow> ((n + 1) mod c + c - 1) mod c = n" for n c :: nat
proof (cases "n + 1 = c")
  case False
  moreover assume "n < c"
  ultimately show ?thesis by simp
qed simp

lemma back_Suc:
  fixes n c j :: nat
  assumes "n < c" "Suc j < c"
  shows "((n + 1) mod c + c - 1 - Suc j) mod c = (n + c - 1 - j) mod c"
proof (cases "n + 1 = c")
  case True
  then have "n + c - 1 - j = c + (c - 2 - j)" "(n + 1) mod c + c - 1 - Suc j = c - 2 - j"
    using assms by simp_all
  then show ?thesis
    by (simp only: mod_add_self1)
next
  case False
  then have "(n + 1) mod c = n + 1"
    using assms by simp
  then show ?thesis
    using assms by (metis Suc_eq_plus1 add_Suc diff_Suc_Suc diff_commute)
qed

lemma back_neq:
  fixes n c j :: nat
  assumes "n < c" "Suc j < c"
  shows "(n + c - 1 - j) mod c \<noteq> n"
proof (cases "j < n")
  case True
  then have "(n + c - 1 - j) mod c = n - 1 - j"
    using assms mod_add_self2[of "n - 1 - j" c] by simp
  then show ?thesis
    using True by simp
next
  case False
  then show ?thesis
    using assms by simp
qed

lemma ring_log_push:
  assumes "ring_ok s"
  shows "ring_log (store_one e s) = take (ring_cap s) (ring_stored s e # ring_log s)"
proof -
  let ?s = "store_one e s" and ?c = "ring_cap s" and ?n = "m_next s"
  have n: "?n < ?c" and size: "m_size s \<le> ?c"
    using assms by (auto simp: ring_ok_def)
  have cap: "ring_cap ?s = ?c" and nxt: "m_next ?s = (?n + 1) mod ?c"
    and ev: "m_events ?s = (m_events s)[?n := ring_stored s e]"
    and sz: "m_size ?s = (if m_size s < ?c then m_size s + 1 else m_size s)"
    by (simp_all add: store_one_def ring_cap_def ring_stored_def Let_def)
  have zero: "slot ?s 0 = ring_stored s e"
  proof -
    have "slot ?s 0 = m_events ?s ! (((?n + 1) mod ?c + ?c - 1) mod ?c)"
      using slot_nat[of ?s 0] n unfolding cap nxt by simp
    then show ?thesis
      unfolding back_zero[OF n] ev using n by (simp add: ring_cap_def)
  qed
  have later: "slot ?s (Suc j) = slot s j" if "Suc j < ?c" for j
  proof -
    have "slot ?s (Suc j) = m_events ?s ! (((?n + 1) mod ?c + ?c - 1 - Suc j) mod ?c)"
      using slot_nat[of ?s "Suc j"] n that unfolding cap nxt by simp
    also have "\<dots> = m_events s ! ((?n + ?c - 1 - j) mod ?c)"
      unfolding back_Suc[OF n that] ev using back_neq[OF n that] by simp
    finally show ?thesis
      using slot_nat[OF n, of j] that by simp
  qed
  show ?thesis
  proof (rule nth_equalityI)
    show "length (ring_log ?s) = length (take ?c (ring_stored s e # ring_log s))"
      using size sz n by (auto simp: ring_log_def)
    show "ring_log ?s ! j = take ?c (ring_stored s e # ring_log s) ! j" if "j < length (ring_log ?s)" for j
    proof (cases j)
      case 0
      then show ?thesis
        using that n zero by (simp add: ring_log_def)
    next
      case (Suc k)
      then have "Suc k < ?c" "k < m_size s"
        using that size sz by (auto simp: ring_log_def split: if_splits)
      then show ?thesis
        using Suc that later by (simp add: ring_log_def)
    qed
  qed
qed

lemma ring_ok_push: "ring_ok s \<Longrightarrow> ring_ok (store_one e s)"
  by (auto simp: ring_ok_def store_one_def ring_cap_def Let_def mod_Suc)

lemma ring_cap_push: "ring_cap (store_one e s) = ring_cap s"
  by (simp add: ring_cap_def store_one_def Let_def)

interpretation ring: bounded_log store_one ring_log ring_cap ring_stored ring_ok
  by unfold_locales
    (auto simp: ring_log_push ring_cap_push ring_ok_push, simp add: ring_log_def ring_ok_def)

end
