(* ===== verification/MemoryReads.thy ===== *)
theory MemoryReads
  imports Memory
begin

text \<open>
  What the in-memory storage returns: the states it can reach and their invariant, the
  result of every read as a function of the ring's log, and pages that put together are
  the whole answer.
\<close>


section \<open>Reachable states and their invariant\<close>

inductive memory_step :: "MemoryStorage \<Rightarrow> MemoryStorage \<Rightarrow> bool" where
  step_store: "memory_step s (Memory_StoreEvents s es)"
| step_upsert: "memory_step s (Memory_UpsertInstances s ins)"
| step_maintain: "memory_step s (Memory_Maintain s)"

inductive memory_reachable :: "MemoryStorage \<Rightarrow> bool" where
  reach_new: "memory_reachable (Memory_New n)"
| reach_step: "memory_reachable s \<Longrightarrow> memory_step s t \<Longrightarrow> memory_reachable t"

inductive_cases memory_stepE: "memory_step s t"

definition mem_ok :: "MemoryStorage \<Rightarrow> bool" where
  "mem_ok s \<longleftrightarrow> ring_ok s \<and> gomap_ok (m_instances s) \<and>
     map ev_ID (ring_log s) = map (\<lambda>j. m_nextID s - int j) [0..<m_size s]"

lemma length_ring_log [simp]: "length (ring_log s) = m_size s"
  by (simp add: ring_log_def)

lemma mem_ok_ring: "mem_ok s \<Longrightarrow> ring_ok s"
  by (simp add: mem_ok_def)

lemma mem_ok_New: "mem_ok (Memory_New n)"
  by (auto simp: mem_ok_def ring_ok_def ring_cap_def ring_log_def Memory_New_def Let_def DefaultMaxSize_def)

lemma mem_ok_store_one:
  assumes "mem_ok s"
  shows "mem_ok (store_one e s)"
proof -
  let ?t = "store_one e s"
  have ok: "ring_ok s" and size: "m_size s \<le> ring_cap s"
    using assms by (auto simp: mem_ok_def ring_ok_def)
  have t: "m_nextID ?t = m_nextID s + 1" "m_instances ?t = m_instances s"
    "m_size ?t = min (ring_cap s) (m_size s + 1)"
    using size by (auto simp: store_one_def ring_cap_def Let_def)
  have "map ev_ID (ring_log ?t) = take (ring_cap s) ((m_nextID s + 1) # map ev_ID (ring_log s))"
    unfolding ring_log_push[OF ok] take_map[symmetric] by (simp add: ring_stored_def)
  also have "\<dots> = take (ring_cap s) (map (\<lambda>j. m_nextID ?t - int j) [0..<m_size s + 1])"
    using assms by (simp add: mem_ok_def t map_upt_Suc del: upt_Suc)
  also have "\<dots> = map (\<lambda>j. m_nextID ?t - int j) [0..<m_size ?t]"
    by (simp add: take_map take_upt t min_def del: upt_Suc)
  finally show ?thesis
    using assms ring_ok_push[OF ok] by (simp add: mem_ok_def t)
qed

lemma mem_ok_store: "mem_ok s \<Longrightarrow> mem_ok (Memory_StoreEvents s es)"
  unfolding Memory_StoreEvents_def by (rule fold_invariant_list) (simp_all add: mem_ok_store_one)

lemma upsert_frame [simp]:
  "ring_log (upsert_one i s) = ring_log s" "ring_ok (upsert_one i s) = ring_ok s"
  "m_nextID (upsert_one i s) = m_nextID s" "m_size (upsert_one i s) = m_size s"
  "ring_cap (upsert_one i s) = ring_cap s"
  by (simp_all add: upsert_one_def Let_def ring_log_def ring_ok_def ring_cap_def slot_def[abs_def])

lemma mem_ok_upsert: "mem_ok s \<Longrightarrow> mem_ok (Memory_UpsertInstances s ins)"
  unfolding Memory_UpsertInstances_def
  by (rule fold_invariant_list) (simp_all add: mem_ok_def, simp add: upsert_one_def Let_def)

lemma memory_step_ok: "memory_step s t \<Longrightarrow> mem_ok s \<Longrightarrow> mem_ok t"
  by (elim memory_stepE) (simp_all add: mem_ok_store mem_ok_upsert Memory_Maintain_def)

lemma reachable_ok: "memory_reachable s \<Longrightarrow> mem_ok s"
  by (induction rule: memory_reachable.induct) (auto intro: mem_ok_New memory_step_ok)

lemma reachable_stored: "memory_reachable (Memory_StoreEvents (Memory_New n) es)"
  by (blast intro: memory_reachable.intros memory_step.intros)

text \<open>Identifiers count the events stored since the start.\<close>

primrec number :: "int \<Rightarrow> Event list \<Rightarrow> Event list" where
  "number i [] = []"
| "number i (e # es) = e\<lparr>ev_ID := i + 1\<rparr> # number (i + 1) es"

lemma entries_number: "ring.entries s es = number (m_nextID s) es"
  by (induction es arbitrary: s) (simp_all add: ring_stored_def store_one_def Let_def)

lemma length_number [simp]: "length (number i es) = length es"
  by (induction es arbitrary: i) simp_all

lemma number_set:
  "e \<in> set (number i es) \<Longrightarrow> ev_Time e \<in> ev_Time ` set es \<and> i < ev_ID e \<and> ev_ID e \<le> i + int (length es)"
  by (induction es arbitrary: i) fastforce+

lemma number_append: "number i (xs @ ys) = number i xs @ number (i + int (length xs)) ys"
  by (induction xs arbitrary: i) (simp_all add: algebra_simps)

lemma nextID_store: "m_nextID (Memory_StoreEvents s es) = m_nextID s + int (length es)"
  unfolding Memory_StoreEvents_def
  by (induction es arbitrary: s) (simp_all add: store_one_def Let_def)

lemma ring_log_New [simp]: "ring_log (Memory_New n) = []"
  by (simp add: ring_log_def Memory_New_def Let_def)

lemma ring_log_store:
  "mem_ok s \<Longrightarrow> ring_log (Memory_StoreEvents s es) =
     take (ring_cap s) (rev (number (m_nextID s) es) @ ring_log s)"
  unfolding Memory_StoreEvents_def
  using ring.log_pushes[OF mem_ok_ring, of s es] by (simp add: entries_number)

lemma log_IDs:
  assumes "mem_ok s" "e \<in> set (ring_log s)"
  shows "m_nextID s - int (m_size s) < ev_ID e" "ev_ID e \<le> m_nextID s"
proof -
  have "ev_ID e \<in> set (map ev_ID (ring_log s))"
    using assms(2) by simp
  also have "\<dots> = (\<lambda>j. m_nextID s - int j) ` {0..<m_size s}"
    using assms(1) by (simp only: mem_ok_def set_map set_upt)
  finally show "m_nextID s - int (m_size s) < ev_ID e" "ev_ID e \<le> m_nextID s"
    by auto
qed

lemma log_ID_inj:
  assumes "mem_ok s" "a \<in> set (ring_log s)" "b \<in> set (ring_log s)" "ev_ID a = ev_ID b"
  shows "a = b"
proof -
  have "distinct (map ev_ID (ring_log s))"
    using assms(1) by (simp add: mem_ok_def distinct_map inj_on_def)
  then show ?thesis
    using assms(2-4) by (simp add: distinct_map inj_on_def)
qed

lemma distinct_log: "mem_ok s \<Longrightarrow> distinct (ring_log s)"
  by (metis (mono_tags, lifting) distinct_map distinct_upt inj_onI mem_ok_def of_nat_eq_iff diff_left_imp_eq diff_add_cancel add_diff_cancel_left')


section \<open>The sorted matches\<close>

lemma event_less_pos: "event_less a b \<longleftrightarrow> event_pos a < event_pos b"
  by (auto simp: event_less_def event_pos_def less_Cursor_def)

interpretation newest_first: comparator event_less
  by unfold_locales (auto simp: event_less_pos)

lemma matching_mset: "mset (matching s q) = mset (filter (\<lambda>e. Match e q) (ring_log s))"
  by (simp add: matching_def ring_log_def)

lemma matching_set: "set (matching s q) = {e \<in> set (ring_log s). Match e q}"
  using mset_eq_setD[OF matching_mset] by simp

lemma matching_length: "length (matching s q) = length (filter (\<lambda>e. Match e q) (ring_log s))"
  using matching_mset by (rule mset_eq_length)

lemma log_total:
  assumes "mem_ok s" "a \<in> set (ring_log s)" "b \<in> set (ring_log s)" "a \<noteq> b"
  shows "event_less a b \<or> event_less b a"
proof -
  have "ev_ID a \<noteq> ev_ID b"
    using log_ID_inj[OF assms(1-3)] assms(4) by blast
  then show ?thesis
    by (auto simp: event_less_def)
qed

lemma matching_sorted:
  assumes "mem_ok s"
  shows "sorted_wrt (\<lambda>a b. event_pos a < event_pos b) (matching s q)"
proof -
  have "sorted_wrt event_less (matching s q)"
    unfolding matching_def ring_log_def[symmetric]
    using log_total[OF assms]
    by (intro newest_first.sorted_sort_slice_strict) (simp_all add: distinct_log[OF assms])
  then show ?thesis
    unfolding event_less_pos[abs_def] .
qed

lemma matching_unique:
  assumes "mem_ok s" "mset es = mset (filter (\<lambda>e. Match e q) (ring_log s))"
    and "sorted_wrt (\<lambda>a b. \<not> event_pos b < event_pos a) es"
  shows "matching s q = es"
  unfolding matching_def ring_log_def[symmetric]
  using log_total[OF assms(1)] assms(2,3)
  by (intro newest_first.sort_slice_unique) (simp_all add: event_less_pos)

lemma matching_cursor [simp]: "matching s (q\<lparr>q_Cursor := c\<rparr>) = matching s q"
  by (simp add: matching_def Match_def)


section \<open>Pages\<close>

definition page_limit :: "Query \<Rightarrow> nat" where
  "page_limit q = nat (if q_Limit q \<le> 0 then 100 else q_Limit q)"

definition rest_from :: "MemoryStorage \<Rightarrow> Query \<Rightarrow> Event list" where
  "rest_from s q = (if Cursor_IsZero (q_Cursor q) then matching s q
     else filter (\<lambda>e. q_Cursor q < event_pos e) (matching s q))"

lemma page_limit_pos: "0 < page_limit q"
  by (simp add: page_limit_def)

lemma cut_at_cursor:
  assumes "mem_ok s"
  shows "drop (sort_Search (length (matching s q)) (\<lambda>i. let e = matching s q ! i in
      ev_Time e < cur_Time c \<or> (ev_Time e = cur_Time c \<and> ev_ID e < cur_ID c))) (matching s q) =
    filter (\<lambda>e. c < event_pos e) (matching s q)"
proof -
  have "sorted_wrt (\<lambda>x y. c < event_pos x \<longrightarrow> c < event_pos y) (matching s q)"
    by (rule sorted_wrt_mono_rel[OF _ matching_sorted[OF assms]]) auto
  moreover have "(\<lambda>i. let e = matching s q ! i in
      ev_Time e < cur_Time c \<or> (ev_Time e = cur_Time c \<and> ev_ID e < cur_ID c)) =
    (\<lambda>i. c < event_pos (matching s q ! i))"
    by (auto simp: Let_def less_Cursor_def event_pos_def)
  ultimately show ?thesis
    using drop_sort_Search[where P = "\<lambda>e. c < event_pos e" and xs = "matching s q"] by simp
qed

lemma Memory_Events_eq:
  assumes "mem_ok s" "Query_Validate q = None"
  shows "Memory_Events s q =
    (let rest = rest_from s q; n = page_limit q
     in if length rest > n
        then Inr \<lparr> pg_Events = take n rest, pg_Next = event_pos (rest ! (n - 1)), pg_HasMore = True \<rparr>
        else Inr \<lparr> pg_Events = rest, pg_Next = zero_cursor, pg_HasMore = False \<rparr>)"
proof -
  let ?limit = "if q_Limit q \<le> 0 then 100 else q_Limit q"
  have lim: "int (page_limit q) = ?limit" "nat ?limit = page_limit q"
    by (simp_all add: page_limit_def)
  have rest: "(if Cursor_IsZero (q_Cursor q) then matching s q
      else drop (sort_Search (length (matching s q)) (\<lambda>i. let e = matching s q ! i in
        ev_Time e < cur_Time (q_Cursor q) \<or>
        (ev_Time e = cur_Time (q_Cursor q) \<and> ev_ID e < cur_ID (q_Cursor q)))) (matching s q)) =
      rest_from s q"
    unfolding rest_from_def cut_at_cursor[OF assms(1)] ..
  have "take n rest ! (n - 1) = rest ! (n - 1)" if "0 < n" for n and rest :: "Event list"
    using that by simp
  then show ?thesis
    unfolding Memory_Events_def assms(2) option.case Let_def[of "q_Cursor q"] Let_def[of "matching s q"]
      Let_def[of ?limit] rest lim(1)[symmetric]
    using page_limit_pos[of q] by (simp add: Let_def event_pos_def del: nth_take)
qed

text \<open>Walking the pages: each answer's cursor, taken to the client and back, is the next query's.\<close>

fun walk :: "(Cursor \<Rightarrow> error + Cursor) \<Rightarrow> nat \<Rightarrow> MemoryStorage \<Rightarrow> Query \<Rightarrow> Event list option" where
  "walk via 0 s q = None"
| "walk via (Suc n) s q =
     (case Memory_Events s q of
        Inl err \<Rightarrow> None
      | Inr p \<Rightarrow>
          if \<not> pg_HasMore p then Some (pg_Events p)
          else (case via (pg_Next p) of
              Inl err \<Rightarrow> None
            | Inr c \<Rightarrow> map_option ((@) (pg_Events p)) (walk via n s (q\<lparr>q_Cursor := c\<rparr>))))"

lemma filter_after_nth:
  assumes "sorted_wrt (\<lambda>a b. event_pos a < event_pos b) xs" "0 < n" "n \<le> length xs"
  shows "filter (\<lambda>e. event_pos (xs ! (n - 1)) < event_pos e) xs = drop n xs"
proof -
  have lt: "event_pos (xs ! i) < event_pos (xs ! j)" if "i < j" "j < length xs" for i j
    using assms(1) that by (simp add: sorted_wrt_iff_nth_less)
  have "filter (\<lambda>e. event_pos (xs ! (n - 1)) < event_pos e) (take n xs) = []"
  proof -
    have "\<not> event_pos (xs ! (n - 1)) < event_pos (xs ! i)" if "i < n" for i
    proof (cases "i = n - 1")
      case False
      then have "i < n - 1" "n - 1 < length xs"
        using that assms(2,3) by simp_all
      from lt[OF this] show ?thesis by simp
    qed simp
    then show ?thesis
      by (auto simp: filter_empty_conv in_set_conv_nth)
  qed
  moreover have "filter (\<lambda>e. event_pos (xs ! (n - 1)) < event_pos e) (drop n xs) = drop n xs"
    using lt[of "n - 1"] assms(2,3) by (auto simp: filter_id_conv in_set_conv_nth)
  ultimately show ?thesis
    by (metis append_Nil append_take_drop_id filter_append)
qed

lemma walk_from:
  assumes "mem_ok s" "Query_Validate q = None"
    and "\<And>e. e \<in> set (matching s q) \<Longrightarrow> via (event_pos e) = Inr (event_pos e)"
    and "\<And>e. e \<in> set (matching s q) \<Longrightarrow> \<not> IsZero (ev_Time e)"
    and "length (rest_from s q) < n"
  shows "walk via n s q = Some (rest_from s q)"
  using assms
proof (induction n arbitrary: q)
  case 0
  then show ?case by simp
next
  case (Suc n)
  let ?rest = "rest_from s q" and ?k = "page_limit q"
  show ?case
  proof (cases "length ?rest > ?k")
    case False
    then show ?thesis
      using Memory_Events_eq[OF Suc.prems(1,2)] by (simp add: Let_def)
  next
    case True
    let ?last = "?rest ! (?k - 1)"
    let ?q = "q\<lparr>q_Cursor := event_pos ?last\<rparr>"
    have in_rest: "?last \<in> set ?rest"
      using True page_limit_pos[of q] by (intro nth_mem) simp
    then have last_in: "?last \<in> set (matching s q)"
      by (auto simp: rest_from_def split: if_splits)
    have sorted: "sorted_wrt (\<lambda>a b. event_pos a < event_pos b) ?rest"
      using matching_sorted[OF Suc.prems(1), of q] by (simp add: rest_from_def sorted_wrt_filter)
    have "\<not> Cursor_IsZero (event_pos ?last)"
      using Suc.prems(4)[OF last_in] by (simp add: Cursor_IsZero_def event_pos_def)
    then have "rest_from s ?q = filter (\<lambda>e. event_pos ?last < event_pos e) (matching s q)"
      by (simp add: rest_from_def)
    also have "\<dots> = filter (\<lambda>e. event_pos ?last < event_pos e) ?rest"
      using in_rest by (auto simp: rest_from_def intro!: filter_cong)
    also have "\<dots> = drop ?k ?rest"
      using filter_after_nth[OF sorted page_limit_pos] True by simp
    finally have rest': "rest_from s ?q = drop ?k ?rest" .
    have "Query_Validate ?q = None" "page_limit q > 0"
      using Suc.prems(2) page_limit_pos by (auto simp: Query_Validate_def)
    then have "walk via n s ?q = Some (drop ?k ?rest)"
      using Suc.IH[of ?q] Suc.prems True rest' by simp
    then show ?thesis
      using Memory_Events_eq[OF Suc.prems(1,2)] True Suc.prems(3)[OF last_in] by (simp add: Let_def)
  qed
qed

lemma ring_cap_New: "ring_cap (Memory_New n) = nat (if n \<le> 0 then 10000 else n)"
  by (simp add: ring_cap_def Memory_New_def Let_def DefaultMaxSize_def)

lemma nextID_New: "m_nextID (Memory_New n) = 0"
  by (simp add: Memory_New_def Let_def)

lemma stored_log:
  "ring_log (Memory_StoreEvents (Memory_New n) es) =
     take (nat (if n \<le> 0 then 10000 else n)) (rev (number 0 es))"
  unfolding ring_log_store[OF mem_ok_New] ring_cap_New by (simp add: nextID_New)

lemma store_batches: "foldl Memory_StoreEvents s bs = Memory_StoreEvents s (concat bs)"
  by (induction bs arbitrary: s) (simp_all add: Memory_StoreEvents_def)

lemma matching_length_le: "length (matching s q) \<le> length (ring_log s)"
  unfolding matching_length by (rule length_filter_le)

text \<open>The position of an event, printed into a URL and parsed back: rounded down to a millisecond.\<close>

definition via_url :: "Cursor \<Rightarrow> error + Cursor" where
  "via_url c = ParseCursor (Cursor_String c)"

lemma via_url_truncates:
  assumes "in_int64 (cur_ID c)" "\<not> Cursor_IsZero c" "in_int64 (cur_Time c div Millisecond)"
  shows "via_url c = Inr (Cursor (cur_Time c - cur_Time c mod Millisecond) (cur_ID c))"
  using assms
  by (simp add: via_url_def ParseCursor_String_aux UnixMilli_def FromUnixMilli_def minus_mod_eq_div_mult)


section \<open>Properties\<close>

text \<open>
  C29: the storage keeps the newest events and no others. Whatever the batches written to a
  fresh storage, its log is the last \<open>max_size\<close> of their events (10000 when the
  configured size is not positive), newest first, numbered from 1 in the order of arrival.
\<close>

theorem memory_keeps_newest:
  "ring_log (foldl Memory_StoreEvents (Memory_New n) batches) =
     take (nat (if n \<le> 0 then 10000 else n)) (rev (number 0 (concat batches)))"
  unfolding store_batches by (rule stored_log)

text \<open>
  C30: the reads see each stored event that matches exactly once, strictly ordered newest
  first, by time and then by identifier; no other order of the same events is sorted, so the
  result does not depend on how \<open>sort.Slice\<close> sorts.
\<close>

theorem matching_newest_first:
  assumes "memory_reachable s"
  shows "mset (matching s q) = mset (filter (\<lambda>e. Match e q) (ring_log s)) \<and>
    sorted_wrt (\<lambda>a b. event_pos a < event_pos b) (matching s q) \<and>
    (\<forall>es. mset es = mset (matching s q) \<and> sorted_wrt (\<lambda>a b. \<not> event_pos b < event_pos a) es \<longrightarrow>
      es = matching s q)"
  using matching_mset matching_sorted[OF reachable_ok[OF assms]]
    matching_unique[OF reachable_ok[OF assms]] by auto

text \<open>
  pages put together are the whole answer. A client that hands each page's cursor back
  gets, after finitely many pages, every matching event once and in order; no page size
  makes it skip or repeat one. (A storage whose events carry a time, and a cursor handed back
  as it is.)
\<close>

theorem pages_cover_matches:
  assumes "memory_reachable s" "Query_Validate q = None" "Cursor_IsZero (q_Cursor q)"
    and "list_all (\<lambda>e. \<not> IsZero (ev_Time e)) (ring_log s)" "m_size s < n"
  shows "walk Inr n s q = Some (matching s q)"
proof -
  have "walk Inr n s q = Some (rest_from s q)"
    using assms matching_length_le[of s q] matching_set[of s q]
    by (intro walk_from) (auto simp: reachable_ok list_all_iff rest_from_def)
  then show ?thesis
    using assms(3) by (simp add: rest_from_def)
qed

text \<open>
  the pages of the HTTP API, whose cursors travel as text, cover the matches too, when
  every stored time is a whole number of milliseconds.
\<close>

theorem api_pages_cover_matches:
  assumes "memory_reachable s" "Query_Validate q = None" "Cursor_IsZero (q_Cursor q)"
    and "list_all (\<lambda>e. \<not> IsZero (ev_Time e) \<and> ev_Time e mod Millisecond = 0 \<and>
      in_int64 (ev_Time e div Millisecond) \<and> in_int64 (ev_ID e)) (ring_log s)"
    and "m_size s < n"
  shows "walk via_url n s q = Some (matching s q)"
proof -
  have "via_url (event_pos e) = Inr (event_pos e)" if "e \<in> set (ring_log s)" for e
    using via_url_truncates[of "event_pos e"] that assms(4)
    by (simp add: event_pos_def Cursor_IsZero_def list_all_iff)
  then have "walk via_url n s q = Some (rest_from s q)"
    using assms matching_length_le[of s q] matching_set[of s q]
    by (intro walk_from) (auto simp: reachable_ok list_all_iff rest_from_def)
  then show ?thesis
    using assms(3) by (simp add: rest_from_def)
qed

text \<open>
  C31: the millisecond of a text cursor is too coarse for the in-memory storage, whose times
  keep their nanoseconds. When a page ends at one event and another event of the same
  millisecond follows it, with a time that is not a whole millisecond, the page asked for with
  the cursor from the URL never holds that event: the API skips it.
\<close>

theorem api_page_skips_same_millisecond:
  assumes "memory_reachable s" "lst \<in> set (matching s q)" "e \<in> set (matching s q)"
    and "event_pos lst < event_pos e"
    and "ev_Time e div Millisecond = ev_Time lst div Millisecond" "ev_Time e mod Millisecond \<noteq> 0"
    and "in_int64 (ev_ID lst)" "in_int64 (ev_Time lst div Millisecond)" "\<not> IsZero (ev_Time lst)"
    and "zero_time < ev_Time lst - ev_Time lst mod Millisecond"
  shows "\<exists>c. via_url (event_pos lst) = Inr c \<and>
    (\<forall>p. Memory_Events s (q\<lparr>q_Cursor := c\<rparr>) = Inr p \<longrightarrow> e \<notin> set (pg_Events p))"
proof -
  let ?c = "Cursor (ev_Time lst - ev_Time lst mod Millisecond) (ev_ID lst)"
  have url: "via_url (event_pos lst) = Inr ?c"
    using via_url_truncates[of "event_pos lst"] assms
    by (simp add: event_pos_def Cursor_IsZero_def)
  have "ev_Time lst - ev_Time lst mod Millisecond = ev_Time e - ev_Time e mod Millisecond"
    using assms(5) by (simp add: minus_mod_eq_div_mult)
  then have later: "ev_Time lst - ev_Time lst mod Millisecond < ev_Time e"
    using assms(6) pos_mod_sign[of Millisecond "ev_Time e"] by linarith
  then have "\<not> ?c < event_pos e"
    by (auto simp: less_Cursor_def event_pos_def)
  moreover have "\<not> Cursor_IsZero ?c"
    using assms(10) by (simp add: Cursor_IsZero_def IsZero_def)
  ultimately have "e \<notin> set (rest_from s (q\<lparr>q_Cursor := ?c\<rparr>))"
    by (simp add: rest_from_def)
  then have "e \<notin> set (pg_Events p)" if "Memory_Events s (q\<lparr>q_Cursor := ?c\<rparr>) = Inr p" for p
    using that Memory_Events_eq[OF reachable_ok[OF assms(1)], of "q\<lparr>q_Cursor := ?c\<rparr>"]
    by (cases "Query_Validate (q\<lparr>q_Cursor := ?c\<rparr>)")
      (auto simp: Let_def Memory_Events_def dest!: in_set_takeD split: if_splits)
  with url show ?thesis by blast
qed



section \<open>Witnesses\<close>

text \<open>Three events of one instant, half a millisecond past the second, in a storage of three.\<close>

definition sample_event :: "Time \<Rightarrow> Event" where
  "sample_event t = zero_event\<lparr>ev_Time := t\<rparr>"

definition sample_store :: "Time list \<Rightarrow> MemoryStorage" where
  "sample_store ts = Memory_StoreEvents (Memory_New 3) (map sample_event ts)"

lemma sample_log:
  "ring_log (sample_store [a, b, c]) =
     [(sample_event c)\<lparr>ev_ID := 3\<rparr>, (sample_event b)\<lparr>ev_ID := 2\<rparr>, (sample_event a)\<lparr>ev_ID := 1\<rparr>]"
  by (simp add: sample_store_def stored_log)

lemma sample_reachable: "memory_reachable (sample_store ts)"
  unfolding sample_store_def by (rule reachable_stored)

lemma sample_size: "m_size (sample_store [a, b, c]) = 3"
  using sample_log[of a b c] by (metis length_ring_log length_Cons list.size(3) numeral_3_eq_3)

lemma zero_query_simps [simp]:
  "Query_Validate zero_query = None" "Cursor_IsZero (q_Cursor zero_query)" "Match e zero_query"
  by (simp_all add: zero_query_def Query_Validate_def Cursor_IsZero_def zero_cursor_def IsZero_def
      Match_def)

theorem matching_newest_first_witness:
  "mset (matching (sample_store [5, 5, 7]) zero_query) =
     mset (filter (\<lambda>e. Match e zero_query) (ring_log (sample_store [5, 5, 7]))) \<and>
   sorted_wrt (\<lambda>a b. event_pos a < event_pos b) (matching (sample_store [5, 5, 7]) zero_query)"
  using matching_newest_first[OF sample_reachable[of "[5, 5, 7]"], where q = zero_query] by blast

theorem pages_cover_matches_witness:
  "walk Inr 4 (sample_store [5, 5, 7]) (zero_query\<lparr>q_Limit := 1\<rparr>) =
     Some (matching (sample_store [5, 5, 7]) (zero_query\<lparr>q_Limit := 1\<rparr>))"
  by (rule pages_cover_matches[OF sample_reachable])
    (simp_all add: sample_log sample_size sample_event_def IsZero_def zero_time_def zero_query_def
      Query_Validate_def Cursor_IsZero_def zero_cursor_def)

theorem api_pages_cover_matches_witness:
  "walk via_url 4 (sample_store [5000000, 5000000, 7000000]) (zero_query\<lparr>q_Limit := 1\<rparr>) =
     Some (matching (sample_store [5000000, 5000000, 7000000]) (zero_query\<lparr>q_Limit := 1\<rparr>))"
  by (rule api_pages_cover_matches[OF sample_reachable])
    (simp_all add: sample_log sample_size sample_event_def IsZero_def zero_time_def zero_query_def
      Query_Validate_def Cursor_IsZero_def zero_cursor_def in_int64_def)

theorem api_page_skips_same_millisecond_witness:
  "\<exists>c. via_url (Cursor 1000500000 3) = Inr c \<and>
    (\<forall>p. Memory_Events (sample_store [1000500000, 1000500000, 1000500000])
        (zero_query\<lparr>q_Cursor := c\<rparr>) = Inr p \<longrightarrow>
      (sample_event 1000500000)\<lparr>ev_ID := 2\<rparr> \<notin> set (pg_Events p))"
proof -
  let ?s = "sample_store [1000500000, 1000500000, 1000500000]"
  have "\<exists>c. via_url (event_pos ((sample_event 1000500000)\<lparr>ev_ID := 3\<rparr>)) = Inr c \<and>
    (\<forall>p. Memory_Events ?s (zero_query\<lparr>q_Cursor := c\<rparr>) = Inr p \<longrightarrow>
      (sample_event 1000500000)\<lparr>ev_ID := 2\<rparr> \<notin> set (pg_Events p))"
    by (rule api_page_skips_same_millisecond[OF sample_reachable])
      (simp_all add: matching_set sample_log sample_event_def event_pos_def less_Cursor_def
        in_int64_def IsZero_def zero_time_def)
  then show ?thesis
    by (simp add: event_pos_def sample_event_def)
qed

end
