(* ===== verification/MemoryStats.thy ===== *)
theory MemoryStats
  imports MemoryReads
begin

text \<open>
  The aggregating reads of the in-memory storage: replay of missed events, histogram,
  facets, suggestions, datacenters and the instance registry.
\<close>


section \<open>Replay\<close>

lemma swap_loop_nth:
  "i + j = length xs - 1 \<Longrightarrow> xs \<noteq> [] \<Longrightarrow>
   length (swap_loop i j xs) = length xs \<and>
   (\<forall>k < length xs. swap_loop i j xs ! k = (if i \<le> k \<and> k \<le> j then xs ! (length xs - 1 - k) else xs ! k))"
proof (induction i j xs rule: swap_loop.induct)
  case (1 i j xs)
  show ?case
  proof (cases "i < j")
    case False
    then have "length xs - 1 - k = k" if "i \<le> k" "k \<le> j" for k
      using "1.prems" that by arith
    with False show ?thesis
      by (simp add: swap_loop.simps[of i j xs])
  next
    case True
    let ?xs = "xs[i := xs ! j, j := xs ! i]"
    have len: "j < length xs" "i < length xs" "i + 1 + (j - 1) = length ?xs - 1" "?xs \<noteq> []"
      using "1.prems" True by (auto simp: neq_Nil_conv)
    have IH: "length (swap_loop (i + 1) (j - 1) ?xs) = length ?xs"
      "\<And>k. k < length ?xs \<Longrightarrow> swap_loop (i + 1) (j - 1) ?xs ! k =
         (if i + 1 \<le> k \<and> k \<le> j - 1 then ?xs ! (length ?xs - 1 - k) else ?xs ! k)"
      using "1.IH"[OF True len(3,4)] by blast+
    have mid: "length xs - 1 - k \<noteq> i \<and> length xs - 1 - k \<noteq> j" if "i + 1 \<le> k" "k \<le> j - 1" for k
      using "1.prems"(1) that len by arith
    have ends: "length xs - 1 - i = j" "length xs - 1 - j = i"
      using "1.prems"(1) by arith+
    have "swap_loop (i + 1) (j - 1) ?xs ! k =
        (if i \<le> k \<and> k \<le> j then xs ! (length xs - 1 - k) else xs ! k)" if "k < length xs" for k
    proof -
      consider "k = i" | "k = j" | "i + 1 \<le> k \<and> k \<le> j - 1" | "k < i \<or> j < k"
        by linarith
      then show ?thesis
        using that True len ends mid IH(2)[of k] by cases (auto simp: nth_list_update)
    qed
    with IH(1) show ?thesis
      using True by (simp add: swap_loop.simps[of i j xs])
  qed
qed

lemma swap_loop_rev: "swap_loop 0 (length xs - 1) xs = rev xs"
proof (cases "xs = []")
  case True
  then show ?thesis by (simp add: swap_loop.simps)
next
  case False
  then show ?thesis
    using swap_loop_nth[of 0 "length xs - 1" xs] by (intro nth_equalityI) (auto simp: rev_nth)
qed

definition since_query :: "string \<Rightarrow> Time \<Rightarrow> Query" where
  "since_query dc after = zero_query\<lparr> q_Datacenter := dc, q_From := after + Millisecond \<rparr>"

lemma Memory_Since_eq:
  "Memory_Since s dc after limit =
     take (nat (if limit \<le> 0 then 100 else limit)) (rev (matching s (since_query dc after)))"
  by (simp add: Memory_Since_def since_query_def Let_def swap_loop_rev del: One_nat_def)

lemma Match_since:
  "Match e (since_query dc after) \<longleftrightarrow>
     (dc = [] \<or> ev_Datacenter e = dc) \<and> (IsZero (after + Millisecond) \<or> after + Millisecond \<le> ev_Time e)"
  by (simp add: Match_iff since_query_def zero_query_def IsZero_def)


section \<open>Histogram\<close>

text \<open>The largest span and bucket count the shape lemmas cover: about 126 years.\<close>

abbreviation hist_max :: int where
  "hist_max \<equiv> 4000000000000000000"

lemma ceil_div:
  fixes a b :: int
  assumes "0 < a" "0 < b"
  shows "a \<le> (a + b - 1) div b * b" "((a + b - 1) div b - 1) * b < a" "1 \<le> (a + b - 1) div b"
proof -
  define k where "k = (a + b - 1) div b"
  have k: "k * b = a + b - 1 - (a + b - 1) mod b"
    unfolding k_def by (rule minus_mod_eq_div_mult[symmetric])
  have m: "0 \<le> (a + b - 1) mod b" "(a + b - 1) mod b < b"
    using assms(2) by simp_all
  show "a \<le> (a + b - 1) div b * b"
    unfolding k_def[symmetric] using k m(2) by linarith
  show "((a + b - 1) div b - 1) * b < a"
    unfolding k_def[symmetric] left_diff_distrib mult_1 using k m(1) by linarith
  show "1 \<le> (a + b - 1) div b"
    using assms by (simp add: int_one_le_iff_zero_less pos_imp_zdiv_pos_iff)
qed

lemma div_eq_iff_bounds:
  fixes d w k :: int
  assumes "0 < w"
  shows "d div w = k \<longleftrightarrow> k * w \<le> d \<and> d < (k + 1) * w"
proof
  have m: "0 \<le> d mod w" "d mod w < w" and e: "d div w * w + d mod w = d"
    using assms by simp_all
  assume k: "d div w = k"
  show "k * w \<le> d \<and> d < (k + 1) * w"
    unfolding distrib_right mult_1 k[symmetric] using m e by linarith
next
  assume b: "k * w \<le> d \<and> d < (k + 1) * w"
  then have "d = k * w + (d - k * w)" "0 \<le> d - k * w" "d - k * w < w"
    by (auto simp: distrib_right)
  then show "d div w = k"
    by (metis div_pos_pos_trivial assms add.commute div_mult_self1 less_irrefl add_0_right)
qed

lemma hist_width_eq:
  assumes "0 < span" "span \<le> hist_max" "0 < buckets" "buckets \<le> hist_max"
  defines "c \<equiv> (span + buckets - 1) div buckets"
  shows "hist_width span buckets = (if c - c mod Second < Second then Second else c - c mod Second)"
    and "0 \<le> c" "c \<le> span"
proof -
  have in64: "in_int64 (span + buckets)" "in_int64 (span + buckets - 1)"
    using assms by (auto simp: in_int64_def)
  have "(c - 1) * buckets < span" "1 \<le> c"
    using ceil_div[of span buckets] assms(1,3) unfolding c_def by blast+
  moreover have "c - 1 \<le> (c - 1) * buckets"
    using \<open>1 \<le> c\<close> assms(3) mult_left_mono[of 1 buckets "c - 1"] by simp
  ultimately show c: "0 \<le> c" "c \<le> span"
    by linarith+
  have "i64_quot (span + buckets - 1) buckets = c"
    unfolding c_def using assms in64 by (intro i64_quot_nonneg) auto
  moreover have "dur_truncate c Second = c - c mod Second"
    using c assms(2) by (intro dur_truncate_nonneg) (auto simp: in_int64_def)
  ultimately show "hist_width span buckets = (if c - c mod Second < Second then Second else c - c mod Second)"
    unfolding hist_width_def Let_def using in64 by simp
qed

lemma hist_width_bounds:
  assumes "0 < span" "span \<le> hist_max" "0 < buckets" "buckets \<le> hist_max"
  shows "Second \<le> hist_width span buckets" "hist_width span buckets mod Second = 0"
    and "hist_width span buckets \<le> max Second span"
    and "buckets * Second \<le> span \<Longrightarrow> span < 2 * buckets * hist_width span buckets"
proof -
  define c where "c = (span + buckets - 1) div buckets"
  let ?w = "hist_width span buckets"
  have w: "?w = (if c - c mod Second < Second then Second else c - c mod Second)" and c: "0 \<le> c" "c \<le> span"
    unfolding c_def using hist_width_eq[OF assms] by auto
  have md: "0 \<le> c mod Second" "c mod Second < Second"
    by simp_all
  show "Second \<le> ?w"
    unfolding w by simp
  show "?w mod Second = 0"
    unfolding w by (simp add: mod_diff_eq flip: mod_diff_left_eq)
  show "?w \<le> max Second span"
    unfolding w using c md by auto
  assume big: "buckets * Second \<le> span"
  have cov: "span \<le> c * buckets"
    unfolding c_def using ceil_div(1)[OF assms(1,3)] .
  have "c < 2 * ?w"
    unfolding w using md by auto
  then have "c * buckets < 2 * ?w * buckets"
    using assms(3) by simp
  with cov show "span < 2 * buckets * ?w"
    by (simp add: mult.commute mult.left_commute)
qed

lemma hist_count_eq:
  assumes "0 < span" "span \<le> hist_max" "Second \<le> w" "w \<le> max Second span"
  shows "hist_count span w = (span + w - 1) div w"
proof -
  have "in_int64 (span + w)" "in_int64 (span + w - 1)"
    using assms by (auto simp: in_int64_def max_def split: if_splits)
  then show ?thesis
    unfolding hist_count_def using assms by (simp add: i64_quot_nonneg)
qed

text \<open>Bucket \<open>i\<close> of the loop: division truncates, so the first one reaches further back.\<close>

definition in_bucket :: "Time \<Rightarrow> Duration \<Rightarrow> nat \<Rightarrow> Event \<Rightarrow> bool" where
  "in_bucket from w i e \<longleftrightarrow>
     (if i = 0 then from - w < ev_Time e else from + int i * w \<le> ev_Time e) \<and>
     ev_Time e < from + (int i + 1) * w"

definition bucket_incr :: "Split \<Rightarrow> Event \<Rightarrow> Bucket \<Rightarrow> Bucket" where
  "bucket_incr split e b =
     b\<lparr> bk_Total := bk_Total b + 1, bk_By := map_incr (bk_By b) (BucketKey e split) \<rparr>"

lemma quot_in_bucket:
  assumes "Second \<le> w" "(int i + 1) * w \<le> maxInt64"
  shows "i64_quot (time_sub (ev_Time e) from) w = int i \<longleftrightarrow> in_bucket from w i e"
proof -
  let ?d = "time_sub (ev_Time e) from"
  have w: "0 < w"
    using assms(1) by simp
  have "0 \<le> int i * w"
    using w by simp
  then have w_max: "w \<le> maxInt64"
    using assms(2) by (simp add: distrib_right)
  have d_in: "in_int64 ?d" by simp
  have d: "?d = max minInt64 (min maxInt64 (ev_Time e - from))"
    by (simp add: time_sub_def)
  show ?thesis
  proof (cases "0 \<le> ?d")
    case True
    then have q: "i64_quot ?d w = ?d div w"
      using w d_in by (rule i64_quot_nonneg)
    have "?d div w = int i \<longleftrightarrow> int i * w \<le> ?d \<and> ?d < (int i + 1) * w"
      using w by (rule div_eq_iff_bounds)
    also have "\<dots> \<longleftrightarrow> in_bucket from w i e"
      using True assms(2) w unfolding d in_bucket_def by (auto simp: max_def min_def split: if_splits)
    finally show ?thesis unfolding q .
  next
    case False
    then have neg: "?d < 0" by simp
    then have "sgn ?d = -1" by simp
    then have sd: "?d sdiv w = - ((- ?d) div w)"
      using w neg by (simp add: signed_divide_int_def)
    have "0 \<le> (- ?d) div w" "(- ?d) div w \<le> - ?d"
      using w neg zdiv_mono2[of "- ?d" 1 w] by (simp_all add: pos_imp_zdiv_nonneg_iff)
    then have "in_int64 (- ((- ?d) div w))"
      using d_in neg by (auto simp: in_int64_def)
    then have q: "i64_quot ?d w = - ((- ?d) div w)"
      by (simp add: i64_quot_def sd)
    have first: "(- ?d) div w = 0 \<longleftrightarrow> - ?d < w"
      using neg w by (simp add: div_pos_pos_trivial zdiv_eq_0_iff)
    have before: "ev_Time e - from < 0" "- ?d < w \<longleftrightarrow> from - w < ev_Time e"
      using neg w_max w unfolding d by (auto simp: max_def min_def split: if_splits)
    show ?thesis
    proof (cases "i = 0")
      case True
      then show ?thesis
        using first before w unfolding q in_bucket_def by auto
    next
      case False
      then have "\<not> in_bucket from w i e"
        using before(1) \<open>0 \<le> int i * w\<close> by (auto simp: in_bucket_def)
      with False show ?thesis
        using \<open>0 \<le> (- ?d) div w\<close> unfolding q by linarith
    qed
  qed
qed

lemma hist_add_nth:
  assumes "Second \<le> w" "int (length out) * w \<le> maxInt64" "i < length out"
  shows "hist_add from w split e out ! i =
    (if in_bucket from w i e then bucket_incr split e (out ! i) else out ! i)"
proof -
  let ?q = "i64_quot (time_sub (ev_Time e) from) w"
  have "(int i + 1) * w \<le> int (length out) * w"
    using assms(1,3) by (intro mult_right_mono) simp_all
  then have "?q = int i \<longleftrightarrow> in_bucket from w i e"
    using order_trans[OF _ assms(2)] by (intro quot_in_bucket assms(1))
  moreover have "0 \<le> ?q \<and> ?q < int (length out) \<Longrightarrow> nat ?q = i \<longleftrightarrow> ?q = int i"
    by auto
  ultimately show ?thesis
    using assms(3) by (auto simp: hist_add_def bucket_incr_def Let_def nth_list_update)
qed

lemma length_hist_add [simp]: "length (hist_add from w split e out) = length out"
  by (simp add: hist_add_def Let_def)

lemma length_hist_fold [simp]: "length (fold (hist_add from w split) es out) = length out"
  by (induction es arbitrary: out) simp_all

lemma hist_fold_nth:
  assumes "Second \<le> w" "int (length out) * w \<le> maxInt64" "i < length out"
  shows "fold (hist_add from w split) es out ! i =
    fold (bucket_incr split) (filter (in_bucket from w i) es) (out ! i)"
  using assms(2,3) by (induction es arbitrary: out) (simp_all add: hist_add_nth[OF assms(1)])

lemma fold_bucket_incr:
  "bk_Start (fold (bucket_incr split) es b) = bk_Start b"
  "bk_Total (fold (bucket_incr split) es b) = bk_Total b + int (length es)"
  "map_get 0 (bk_By (fold (bucket_incr split) es b)) k =
     map_get 0 (bk_By b) k + int (length (filter (\<lambda>e. BucketKey e split = k) es))"
  by (induction es arbitrary: b) (simp_all add: bucket_incr_def)

text \<open>The window a histogram query means, and the number of buckets.\<close>

definition hist_to :: "Time \<Rightarrow> Query \<Rightarrow> Time" where
  "hist_to now q = (if IsZero (q_To q) then now else q_To q)"

definition hist_from :: "Time \<Rightarrow> Query \<Rightarrow> Time" where
  "hist_from now q = (if IsZero (q_From q) then hist_to now q - Hour else q_From q)"

definition hist_buckets :: "int \<Rightarrow> int" where
  "hist_buckets b = (if b \<le> 0 then 60 else b)"

definition window_ok :: "Time \<Rightarrow> Query \<Rightarrow> int \<Rightarrow> bool" where
  "window_ok now q b \<longleftrightarrow> Query_Validate q = None \<and> hist_from now q < hist_to now q \<and>
     hist_to now q - hist_from now q \<le> hist_max \<and> b \<le> hist_max"

definition hist_step :: "Time \<Rightarrow> Query \<Rightarrow> int \<Rightarrow> Duration" where
  "hist_step now q b = hist_width (hist_to now q - hist_from now q) (hist_buckets b)"

lemma hist_ok:
  assumes "window_ok now q b"
  defines "span \<equiv> hist_to now q - hist_from now q" and "w \<equiv> hist_step now q b"
  obtains n where "hist_count span w = int n" "0 < n" "Second \<le> w" "w mod Second = 0"
    "span \<le> int n * w" "(int n - 1) * w < span" "int n \<le> 2 * hist_buckets b" "int n * w \<le> maxInt64"
    "Memory_Histogram now s q b split =
       Inr (fold (hist_add (hist_from now q) w split) (matching s q)
         (map (\<lambda>i. \<lparr> bk_Start = hist_from now q + int i * w, bk_Total = 0, bk_By = [] \<rparr>) [0..<n]), False)"
proof -
  let ?b = "hist_buckets b"
  have span: "0 < span" "span \<le> hist_max" and b: "0 < ?b" "?b \<le> hist_max"
    using assms(1) by (auto simp: span_def window_ok_def hist_buckets_def)
  have sub: "time_sub (hist_to now q) (hist_from now q) = span"
    using span by (simp add: time_sub_exact in_int64_def span_def[symmetric])
  note bounds = hist_width_bounds[OF span b]
  have w: "w = hist_width span ?b"
    unfolding w_def span_def hist_step_def ..
  have w_ge: "Second \<le> w" and w_le: "w \<le> max Second span" and w_mod: "w mod Second = 0"
    unfolding w using bounds by simp_all
  have w_pos: "0 < w" using w_ge by simp
  note n_eq = hist_count_eq[OF span w_ge w_le]
  note c = ceil_div[OF span(1) w_pos]
  have count: "hist_count span w = int (nat (hist_count span w))" "0 < nat (hist_count span w)"
    using c(3) n_eq by simp_all
  define n where "n = nat (hist_count span w)"
  have "int n = (span + w - 1) div w"
    using count(1) n_eq by (simp add: n_def)
  then have cov: "span \<le> int n * w" "(int n - 1) * w < span"
    using c(1,2) by simp_all
  have "int n * w < span + w"
    using cov(2) by (simp add: left_diff_distrib)
  then have fit: "int n * w \<le> maxInt64"
    using span(2) w_le by (auto simp: max_def split: if_splits)
  have n_le: "int n \<le> 2 * ?b"
  proof (rule ccontr)
    assume "\<not> int n \<le> 2 * ?b"
    then have "2 * ?b * w \<le> (int n - 1) * w"
      using w_pos by (intro mult_right_mono) simp_all
    then have "2 * ?b * w < span"
      using cov(2) by simp
    moreover have "?b * Second \<le> ?b * w"
      using w_ge b(1) by (intro mult_left_mono) linarith+
    moreover have "0 < ?b * w"
      using b(1) w_pos by (rule mult_pos_pos)
    moreover have "2 * ?b * w = ?b * w + ?b * w"
      by (simp only: mult_2 distrib_right)
    ultimately have "2 * ?b * w < span" "?b * Second \<le> span"
      by linarith+
    moreover from this have "span < 2 * ?b * w"
      using bounds(4) unfolding w[symmetric] by blast
    ultimately show False by linarith
  qed
  have wrap: "wrap64 (int i * w) = int i * w" if "i < n" for i
  proof -
    have "0 \<le> int i * w" "int i * w \<le> int n * w"
      using that w_pos by (simp_all add: mult_right_mono)
    then show ?thesis
      using fit by (simp add: in_int64_def)
  qed
  have "Memory_Histogram now s q b split =
      Inr (fold (hist_add (hist_from now q) w split) (matching s q)
         (map (\<lambda>i. \<lparr> bk_Start = hist_from now q + wrap64 (int i * w), bk_Total = 0, bk_By = [] \<rparr>) [0..<n]), False)"
    using assms(1) span(1) sub count unfolding Memory_Histogram_def window_ok_def n_def w_def hist_step_def
    by (simp add: Let_def hist_to_def[symmetric] hist_from_def[symmetric] hist_buckets_def[symmetric]
        span_def[symmetric])
  also have "map (\<lambda>i. \<lparr> bk_Start = hist_from now q + wrap64 (int i * w), bk_Total = 0, bk_By = [] \<rparr>) [0..<n] =
      map (\<lambda>i. \<lparr> bk_Start = hist_from now q + int i * w, bk_Total = 0, bk_By = [] \<rparr>) [0..<n]"
    using wrap by simp
  finally show ?thesis
    using that count cov fit n_le w_ge w_mod unfolding n_def by metis
qed

lemma matching_filter_length:
  "length (filter P (matching s q)) = length (filter (\<lambda>e. Match e q \<and> P e) (ring_log s))"
proof -
  have "mset (filter P (matching s q)) = mset (filter P (filter (\<lambda>e. Match e q) (ring_log s)))"
    by (simp only: mset_filter matching_mset)
  then have "length (filter P (matching s q)) = length (filter P (filter (\<lambda>e. Match e q) (ring_log s)))"
    by (rule mset_eq_length)
  then show ?thesis by (simp only: filter_filter)
qed

lemma hist_bucket:
  assumes "window_ok now q b"
  shows "\<exists>out. Memory_Histogram now s q b split = Inr (out, False) \<and>
    hist_count (hist_to now q - hist_from now q) (hist_step now q b) = int (length out) \<and>
    (\<forall>i. i < length out \<longrightarrow>
      bk_Start (out ! i) = hist_from now q + int i * hist_step now q b \<and>
      bk_Total (out ! i) =
        int (length (filter (\<lambda>e. Match e q \<and> in_bucket (hist_from now q) (hist_step now q b) i e) (ring_log s))) \<and>
      map_get 0 (bk_By (out ! i)) k =
        int (length (filter (\<lambda>e. Match e q \<and> in_bucket (hist_from now q) (hist_step now q b) i e \<and>
          BucketKey e split = k) (ring_log s))))"
proof -
  let ?from = "hist_from now q" and ?w = "hist_step now q b"
  obtain n where n: "hist_count (hist_to now q - ?from) ?w = int n" "Second \<le> ?w" "int n * ?w \<le> maxInt64"
    and out: "Memory_Histogram now s q b split = Inr (fold (hist_add ?from ?w split) (matching s q)
        (map (\<lambda>i. \<lparr> bk_Start = ?from + int i * ?w, bk_Total = 0, bk_By = [] \<rparr>) [0..<n]), False)"
      (is "_ = Inr (fold _ _ ?init, False)")
    by (rule hist_ok[OF assms, where s = s and split = split]) (rule that; assumption)
  have len: "length ?init = n" by simp
  have "bk_Start (fold (hist_add ?from ?w split) (matching s q) ?init ! i) = ?from + int i * ?w \<and>
      bk_Total (fold (hist_add ?from ?w split) (matching s q) ?init ! i) =
        int (length (filter (\<lambda>e. Match e q \<and> in_bucket ?from ?w i e) (ring_log s))) \<and>
      map_get 0 (bk_By (fold (hist_add ?from ?w split) (matching s q) ?init ! i)) k =
        int (length (filter (\<lambda>e. Match e q \<and> in_bucket ?from ?w i e \<and> BucketKey e split = k) (ring_log s)))"
    if "i < n" for i
  proof -
    have "int (length ?init) * ?w \<le> maxInt64" "i < length ?init"
      using that n(3) by simp_all
    note nth = hist_fold_nth[OF n(2) this]
    have init: "?init ! i = \<lparr> bk_Start = ?from + int i * ?w, bk_Total = 0, bk_By = [] \<rparr>"
      using that by simp
    show ?thesis
      unfolding nth init fold_bucket_incr filter_filter matching_filter_length by simp
  qed
  then show ?thesis
    using out n(1) by (intro exI[of _ "fold (hist_add ?from ?w split) (matching s q) ?init"]) simp
qed

lemma wrap64_over:
  "maxInt64 < x \<Longrightarrow> x \<le> 2 * maxInt64 + 1 \<Longrightarrow> wrap64 x = x - 18446744073709551616"
proof -
  assume x: "maxInt64 < x" "x \<le> 2 * maxInt64 + 1"
  have "(x + 9223372036854775808) mod 18446744073709551616 =
      (x - 9223372036854775808 + 18446744073709551616) mod 18446744073709551616"
    by (rule arg_cong[where f = "\<lambda>y. y mod 18446744073709551616"]) simp
  also have "\<dots> = x - 9223372036854775808"
    unfolding mod_add_self2 using x by simp
  finally show ?thesis by (simp add: wrap64_def)
qed

lemma hist_panics:
  assumes "2 \<le> b" "b \<le> maxInt64"
  shows "hist_count maxInt64 (hist_width maxInt64 b) < 0"
proof -
  have wrapped: "wrap64 (wrap64 (maxInt64 + b) - 1) = b - 9223372036854775810"
    using assms wrap64_over[of "maxInt64 + b"] by (simp add: in_int64_def)
  have "sgn (b - 9223372036854775810) = -1" "sgn b = 1"
    using assms by simp_all
  then have sd: "(b - 9223372036854775810) sdiv b = - ((9223372036854775810 - b) div b)"
    using assms by (simp add: signed_divide_int_def)
  have "0 \<le> (9223372036854775810 - b) div b" "(9223372036854775810 - b) div b \<le> 9223372036854775810 - b"
    using assms zdiv_mono2[of "9223372036854775810 - b" 1 b] by (simp_all add: pos_imp_zdiv_nonneg_iff)
  then have quot: "i64_quot (b - 9223372036854775810) b = - ((9223372036854775810 - b) div b)"
    using assms sd by (simp add: i64_quot_def in_int64_def)
  let ?c = "(9223372036854775810 - b) div b"
  have "?c \<le> (9223372036854775810 - b) div 2"
    using assms by (intro zdiv_mono2) simp_all
  then have c: "0 \<le> ?c" "?c \<le> maxInt64"
    using \<open>0 \<le> ?c\<close> assms(1) by linarith+
  have "dur_truncate (- ?c) Second \<le> 0"
  proof -
    have "sgn (- ?c) \<le> 0" using c by (simp add: sgn_if)
    have "(- ?c) smod Second = - (?c mod Second)"
      using c by (cases "?c = 0") (simp_all add: signed_modulo_int_def)
    moreover have "0 \<le> ?c mod Second" "?c mod Second \<le> ?c"
      using c by (auto simp: zmod_le_nonneg_dividend)
    ultimately show ?thesis
      using c by (simp add: dur_truncate_def i64_rem_def in_int64_def)
  qed
  then have "hist_width maxInt64 b = Second"
    unfolding hist_width_def wrapped quot by (simp add: Let_def)
  then show ?thesis
    by (simp add: hist_count_def wrap64_def i64_quot_def signed_divide_int_def)
qed

text \<open>Summed over the buckets, an event counts once when it is in one of them.\<close>

lemma in_bucket_unique:
  assumes "0 < w" "in_bucket from w i e" "in_bucket from w j e"
  shows "i = j"
proof -
  have "k \<le> l" if "in_bucket from w k e" "in_bucket from w l e" for k l
  proof (rule ccontr)
    assume "\<not> k \<le> l"
    then have "(int l + 1) * w \<le> int k * w"
      using assms(1) by (intro mult_right_mono) simp_all
    with that \<open>\<not> k \<le> l\<close> show False
      by (simp add: in_bucket_def)
  qed
  with assms(2,3) show ?thesis by (simp add: order_antisym)
qed

lemma sum_buckets:
  assumes "0 < w"
  shows "(\<Sum>i<n. int (length (filter (\<lambda>e. P e \<and> in_bucket from w i e) es))) =
    int (length (filter (\<lambda>e. P e \<and> (\<exists>i<n. in_bucket from w i e)) es))"
proof (induction es)
  case Nil
  then show ?case by simp
next
  case (Cons e es)
  have "(\<Sum>i<n. if P e \<and> in_bucket from w i e then 1 else 0) =
      (if P e \<and> (\<exists>i<n. in_bucket from w i e) then 1 else (0::int))"
  proof (cases "P e \<and> (\<exists>i<n. in_bucket from w i e)")
    case True
    then obtain i where i: "i < n" "in_bucket from w i e" by blast
    have "(\<Sum>j<n. if P e \<and> in_bucket from w j e then 1 else 0) = (\<Sum>j<n. if j = i then 1 else (0::int))"
      using in_bucket_unique[OF assms] i(2) True by (intro sum.cong refl) metis
    with True i(1) show ?thesis by simp
  next
    case False
    then show ?thesis by (intro trans[OF sum.neutral]) auto
  qed
  moreover have len: "int (length (filter Q (e # es))) =
      int (length (filter Q es)) + (if Q e then 1 else 0)" for Q
    by simp
  ultimately show ?case
    unfolding len sum.distrib Cons.IH by simp
qed

lemma some_bucket:
  assumes "0 < w" "from \<le> ev_Time e"
  shows "(\<exists>i<n. in_bucket from w i e) \<longleftrightarrow> ev_Time e < from + int n * w"
proof
  assume "\<exists>i<n. in_bucket from w i e"
  then obtain i where i: "i < n" "ev_Time e < from + (int i + 1) * w"
    by (auto simp: in_bucket_def)
  then have "(int i + 1) * w \<le> int n * w"
    using assms(1) by (intro mult_right_mono) simp_all
  with i(2) show "ev_Time e < from + int n * w" by simp
next
  assume lt: "ev_Time e < from + int n * w"
  define i where "i = nat ((ev_Time e - from) div w)"
  have "0 \<le> (ev_Time e - from) div w"
    using assms by (simp add: pos_imp_zdiv_nonneg_iff)
  then have i: "(ev_Time e - from) div w = int i"
    by (simp add: i_def)
  then have b: "int i * w \<le> ev_Time e - from" "ev_Time e - from < (int i + 1) * w"
    using div_eq_iff_bounds[OF assms(1), of "ev_Time e - from" "int i"] by blast+
  have "int i * w < int n * w"
    using b(1) lt by simp
  then have "i < n"
    using assms(1) by simp
  moreover have "in_bucket from w i e"
    using b assms by (auto simp: in_bucket_def)
  ultimately show "\<exists>i<n. in_bucket from w i e" by blast
qed



section \<open>Facets, suggestions, datacenters\<close>

lemma facet_less_trans: "facet_less x y \<Longrightarrow> facet_less y z \<Longrightarrow> facet_less x z"
  by (auto simp: facet_less_def split: if_splits)

interpretation most_frequent: comparator facet_less
proof
  show "\<not> facet_less x x" for x
    by (simp add: facet_less_def)
  show "facet_less x y \<Longrightarrow> facet_less y z \<Longrightarrow> facet_less x z" for x y z
    by (rule facet_less_trans)
  show "\<not> facet_less x y \<Longrightarrow> \<not> facet_less y z \<Longrightarrow> \<not> facet_less x z" for x y z
    by (auto simp: facet_less_def not_less split: if_splits)
qed

lemma facet_less_total: "x \<noteq> y \<Longrightarrow> facet_less x y \<or> facet_less y x" for x y :: FacetValue
  by (cases "fv_Count x = fv_Count y"; cases "fv_Value x = fv_Value y") (auto simp: facet_less_def)

lemma take_if: "(if int (length xs) > n then take (nat n) xs else xs) = take (nat n) xs"
  by simp

lemma left_out_of_take:
  assumes "sorted_wrt R xs" "y \<in> set xs" "y \<notin> set (take n xs)"
  shows "length (take n xs) = n \<and> (\<forall>x \<in> set (take n xs). R x y)"
proof -
  have later: "y \<in> set (drop n xs)"
    using assms(2,3) by (metis Un_iff append_take_drop_id set_append)
  then have "length (take n xs) = n"
    by (cases "n \<le> length xs") auto
  moreover have "sorted_wrt R (take n xs @ drop n xs)"
    using assms(1) by simp
  ultimately show ?thesis
    using later unfolding sorted_wrt_append by blast
qed

definition facet_list :: "(string, int) gomap \<Rightarrow> FacetValue list" where
  "facet_list counts = map (\<lambda>(v, c). \<lparr> fv_Value = v, fv_Count = c \<rparr>) counts"

lemma top_values_eq: "top_values counts limit = take (nat limit) (sort_slice facet_less (facet_list counts))"
  by (simp add: top_values_def facet_list_def Let_def)

text \<open>The order in which \<open>range counts\<close> delivers the values does not show.\<close>

lemma top_values_perm: "mset counts' = mset counts \<Longrightarrow> top_values counts' limit = top_values counts limit"
proof -
  assume perm: "mset counts' = mset counts"
  then have m: "mset (facet_list counts') = mset (facet_list counts)"
    by (simp add: facet_list_def)
  have "sort_slice facet_less (facet_list counts') = sort_slice facet_less (facet_list counts)"
    by (rule most_frequent.sort_slice_unique)
      (use m in \<open>simp_all add: most_frequent.sorted_sort_slice facet_less_total\<close>)
  then show ?thesis by (simp add: top_values_eq)
qed

lemma sorted_limited_perm: "mset seen' = mset seen \<Longrightarrow> sorted_limited seen' n = sorted_limited seen n"
proof -
  assume "mset seen' = mset seen"
  then have "sort_Strings (map fst seen') = sort_Strings (map fst seen)"
    by (intro sort_Strings_perm) simp
  then show ?thesis by (simp add: sorted_limited_def)
qed

definition occurrences :: "Event list \<Rightarrow> string \<Rightarrow> string \<Rightarrow> nat" where
  "occurrences es field v = count_list (concat (map (\<lambda>e. FieldValues e field) es)) v"

lemma fold_concat: "fold (\<lambda>e m. fold f (g e) m) es m = fold f (concat (map g es)) m"
  by (induction es arbitrary: m) simp_all

lemma count_values_spec:
  "gomap_ok (count_values es field)"
  "map_get 0 (count_values es field) v = int (occurrences es field v)"
  "fst ` set (count_values es field) = {v. 0 < occurrences es field v}"
proof -
  have eq: "count_values es field = fold (\<lambda>v m. map_incr m v) (concat (map (\<lambda>e. FieldValues e field) es)) []"
    unfolding count_values_def by (rule fold_concat)
  show "gomap_ok (count_values es field)"
    unfolding eq by (rule gomap_ok_count) simp
  show "map_get 0 (count_values es field) v = int (occurrences es field v)"
    unfolding eq map_get_count occurrences_def by simp
  show "fst ` set (count_values es field) = {v. 0 < occurrences es field v}"
    unfolding eq keys_count occurrences_def
    by (auto simp: count_list_0_iff simp flip: neq0_conv)
qed

lemma facet_list_values:
  "x \<in> set (facet_list (count_values es field)) \<longleftrightarrow>
     0 < occurrences es field (fv_Value x) \<and> fv_Count x = int (occurrences es field (fv_Value x))"
proof -
  have "x \<in> set (facet_list (count_values es field)) \<longleftrightarrow>
      (fv_Value x, fv_Count x) \<in> set (count_values es field)"
    by (cases x) (force simp: facet_list_def)
  also have "\<dots> \<longleftrightarrow> map_of (count_values es field) (fv_Value x) = Some (fv_Count x)"
    using gomap_lookup_iff[OF count_values_spec(1)] by blast
  also have "\<dots> \<longleftrightarrow> fv_Value x \<in> fst ` set (count_values es field) \<and>
      map_get 0 (count_values es field) (fv_Value x) = fv_Count x"
    unfolding map_get_def by (cases "map_of (count_values es field) (fv_Value x)")
      (auto simp: map_of_eq_None_iff intro: image_eqI[OF _ map_of_SomeD])
  finally show ?thesis
    unfolding count_values_spec(2,3) by auto
qed

lemma occurrences_matching:
  "occurrences (matching s q) field v =
     (\<Sum>e \<leftarrow> filter (\<lambda>e. Match e q) (ring_log s). count_list (FieldValues e field) v)"
proof -
  have "occurrences es field v = (\<Sum>e \<leftarrow> es. count_list (FieldValues e field) v)" for es
    by (induction es) (simp_all add: occurrences_def count_list_append)
  moreover have "(\<Sum>e \<leftarrow> matching s q. f e) = (\<Sum>e \<leftarrow> filter (\<lambda>e. Match e q) (ring_log s). f e)" for f :: "Event \<Rightarrow> nat"
    by (metis matching_mset mset_map sum_mset_sum_list)
  ultimately show ?thesis by simp
qed

lemma facets_fold:
  "map_of (fold (\<lambda>f vs. map_put vs f (g f)) flds vs) f = (if f \<in> set flds then Some (g f) else map_of vs f)"
  by (induction flds arbitrary: vs) auto

lemma fold_put_True:
  "fst ` set (fold (\<lambda>v m. if P v then map_put m v True else m) vs m) = fst ` set m \<union> {v \<in> set vs. P v}"
  "gomap_ok m \<Longrightarrow> gomap_ok (fold (\<lambda>v m. if P v then map_put m v True else m) vs m)"
  by (induction vs arbitrary: m) auto

lemma sort_keys: "gomap_ok m \<Longrightarrow> sort_Strings (map fst m) = sorted_list_of_set (fst ` set m)"
  unfolding sort_Strings_def gomap_ok_def by (metis list.set_map sorted_list_of_set_sort_remdups distinct_remdups_id)



section \<open>The registry\<close>

lemma upsert_lookup:
  "Memory_Instance (upsert_one i s) dc node sid =
     (if (in_Datacenter i, in_NodeName i, in_ServiceID i) = (dc, node, sid)
      then Some (i\<lparr>in_FirstSeen := (case Memory_Instance s dc node sid of
        Some old \<Rightarrow> in_FirstSeen old | None \<Rightarrow> in_FirstSeen i)\<rparr>)
      else Memory_Instance s dc node sid)"
  by (auto simp: Memory_Instance_def upsert_one_def Let_def split: option.splits)

lemma upserts_lookup:
  "Memory_Instance (fold upsert_one ins s) dc node sid =
     (case filter (\<lambda>i. (in_Datacenter i, in_NodeName i, in_ServiceID i) = (dc, node, sid)) ins of
        [] \<Rightarrow> Memory_Instance s dc node sid
      | i # is \<Rightarrow> Some ((last (i # is))\<lparr>in_FirstSeen := (case Memory_Instance s dc node sid of
          Some old \<Rightarrow> in_FirstSeen old | None \<Rightarrow> in_FirstSeen i)\<rparr>))"
proof (induction ins arbitrary: s)
  case Nil
  then show ?case by simp
next
  case (Cons i ins)
  show ?case
  proof (cases "(in_Datacenter i, in_NodeName i, in_ServiceID i) = (dc, node, sid)")
    case True
    show ?thesis
      unfolding fold_Cons comp_apply Cons.IH upsert_lookup filter.simps if_P[OF True]
      by (simp split: list.split option.split)
  next
    case False
    show ?thesis
      unfolding fold_Cons comp_apply Cons.IH upsert_lookup filter.simps if_not_P[OF False] ..
  qed
qed


section \<open>Properties\<close>

text \<open>
  The shape of a histogram. For a window of at most 126 years the buckets cover it
  without gap: the width is a whole number of seconds, at least one; the last bucket starts
  inside the window and ends at or after its end; and there are at most twice as many buckets
  as were asked for.
\<close>

theorem histogram_shape:
  assumes "window_ok now q b"
  shows "\<exists>out. Memory_Histogram now s q b split = Inr (out, False) \<and>
    map bk_Start out = map (\<lambda>i. hist_from now q + int i * hist_step now q b) [0..<length out] \<and>
    Second \<le> hist_step now q b \<and> hist_step now q b mod Second = 0 \<and>
    hist_from now q + (int (length out) - 1) * hist_step now q b < hist_to now q \<and>
    hist_to now q \<le> hist_from now q + int (length out) * hist_step now q b \<and>
    0 < length out \<and> int (length out) \<le> 2 * hist_buckets b"
proof -
  obtain out where out: "Memory_Histogram now s q b split = Inr (out, False)"
      "hist_count (hist_to now q - hist_from now q) (hist_step now q b) = int (length out)"
    and starts: "\<And>i. i < length out \<Longrightarrow> bk_Start (out ! i) = hist_from now q + int i * hist_step now q b"
    using hist_bucket[OF assms, of s split] by blast
  have "map bk_Start out = map (\<lambda>i. hist_from now q + int i * hist_step now q b) [0..<length out]"
    by (rule nth_equalityI) (simp_all add: starts)
  obtain n where n: "hist_count (hist_to now q - hist_from now q) (hist_step now q b) = int n"
      "0 < n" "Second \<le> hist_step now q b" "hist_step now q b mod Second = 0"
      "hist_to now q - hist_from now q \<le> int n * hist_step now q b"
      "(int n - 1) * hist_step now q b < hist_to now q - hist_from now q" "int n \<le> 2 * hist_buckets b"
    by (rule hist_ok[OF assms, where s = s and split = split]) (rule that; assumption)
  with \<open>map bk_Start out = _\<close> out show ?thesis
    by (intro exI[of _ out]) simp
qed

text \<open>
  A histogram with an explicit start counts what it claims to. Each bucket's total is the
  number of stored matching events whose time is in it, and so is each part of the split; summed
  up, every match up to the end of the last bucket is counted once.
\<close>

theorem histogram_counts:
  assumes "window_ok now q b" "\<not> IsZero (q_From q)"
  shows "\<exists>out. Memory_Histogram now s q b split = Inr (out, False) \<and>
    (\<forall>i < length out.
      bk_Total (out ! i) = int (length (filter (\<lambda>e. Match e q \<and> bk_Start (out ! i) \<le> ev_Time e \<and>
        ev_Time e < bk_Start (out ! i) + hist_step now q b) (ring_log s))) \<and>
      map_get 0 (bk_By (out ! i)) k = int (length (filter (\<lambda>e. Match e q \<and> bk_Start (out ! i) \<le> ev_Time e \<and>
        ev_Time e < bk_Start (out ! i) + hist_step now q b \<and> BucketKey e split = k) (ring_log s)))) \<and>
    (\<Sum>i<length out. bk_Total (out ! i)) = int (length (filter (\<lambda>e. Match e q \<and>
        ev_Time e < hist_from now q + int (length out) * hist_step now q b) (ring_log s)))"
proof -
  let ?from = "hist_from now q" and ?w = "hist_step now q b"
  have w: "0 < ?w"
    by (rule hist_ok[OF assms(1), where s = s and split = split]) simp
  have ge: "?from \<le> ev_Time e" if "Match e q" for e
    using that assms(2) by (simp add: Match_iff hist_from_def)
  have inb: "Match e q \<and> in_bucket ?from ?w i e \<and> R \<longleftrightarrow> Match e q \<and> ?from + int i * ?w \<le> ev_Time e \<and>
      ev_Time e < ?from + int i * ?w + ?w \<and> R" for e i R
    using ge[of e] w by (auto simp: in_bucket_def distrib_right)
  obtain out where out: "Memory_Histogram now s q b split = Inr (out, False)"
      "\<forall>i. i < length out \<longrightarrow> bk_Start (out ! i) = ?from + int i * ?w \<and>
        bk_Total (out ! i) = int (length (filter (\<lambda>e. Match e q \<and> in_bucket ?from ?w i e \<and> True) (ring_log s))) \<and>
        map_get 0 (bk_By (out ! i)) k =
          int (length (filter (\<lambda>e. Match e q \<and> in_bucket ?from ?w i e \<and> BucketKey e split = k) (ring_log s)))"
    using hist_bucket[OF assms(1), of s split k] by auto
  have "(\<Sum>i<length out. bk_Total (out ! i)) =
      (\<Sum>i<length out. int (length (filter (\<lambda>e. Match e q \<and> in_bucket ?from ?w i e) (ring_log s))))"
    using out(2) by (intro sum.cong) auto
  also have "\<dots> = int (length (filter (\<lambda>e. Match e q \<and>
      ev_Time e < ?from + int (length out) * ?w) (ring_log s)))"
    unfolding sum_buckets[OF w] using some_bucket[OF w ge] by (metis (mono_tags, lifting))
  finally show ?thesis
    using out unfolding inb by (intro exI[of _ out]) simp
qed

text \<open>
  Without an explicit start the first bucket counts too much. The window is the hour before
  the end, but neither the match nor the bucket number keeps earlier events out: division
  truncates towards zero, so an event up to one width before the window is added to the first
  bucket, whose total exceeds the number of matches in it.
\<close>

theorem histogram_default_window_leaks:
  assumes "window_ok now q b" "IsZero (q_From q)" "e \<in> set (ring_log s)" "Match e q"
    and "hist_from now q - hist_step now q b < ev_Time e" "ev_Time e < hist_from now q"
  shows "\<exists>out. Memory_Histogram now s q b split = Inr (out, False) \<and>
    bk_Start (out ! 0) = hist_from now q \<and>
    int (length (filter (\<lambda>e. Match e q \<and> bk_Start (out ! 0) \<le> ev_Time e \<and>
      ev_Time e < bk_Start (out ! 0) + hist_step now q b) (ring_log s))) < bk_Total (out ! 0)"
proof -
  let ?from = "hist_from now q" and ?w = "hist_step now q b"
  obtain out where out: "Memory_Histogram now s q b split = Inr (out, False)"
    and n: "hist_count (hist_to now q - ?from) ?w = int (length out)"
    and nth: "\<And>i. i < length out \<Longrightarrow> bk_Start (out ! i) = ?from + int i * ?w \<and>
      bk_Total (out ! i) = int (length (filter (\<lambda>e. Match e q \<and> in_bucket ?from ?w i e) (ring_log s)))"
    using hist_bucket[OF assms(1), of s split] by blast
  obtain m where m: "hist_count (hist_to now q - ?from) ?w = int m" "0 < m" "Second \<le> ?w"
    by (rule hist_ok[OF assms(1), where s = s and split = split]) (rule that; assumption)
  have "length (filter (\<lambda>e. Match e q \<and> ?from \<le> ev_Time e \<and> ev_Time e < ?from + ?w) (ring_log s)) =
      length (filter (\<lambda>e. ?from \<le> ev_Time e) (filter (\<lambda>e. Match e q \<and> in_bucket ?from ?w 0 e) (ring_log s)))"
    using m(3) by (auto simp: in_bucket_def intro!: arg_cong[where f = length] filter_cong)
  also have "\<dots> < length (filter (\<lambda>e. Match e q \<and> in_bucket ?from ?w 0 e) (ring_log s))"
    using assms(3-6) m(3) by (intro length_filter_less[of e]) (auto simp: in_bucket_def)
  finally show ?thesis
    using out nth[of 0] n m(1,2) by (intro exI[of _ out]) simp
qed


text \<open>
  replay returns the oldest missed events, in order. The events of the datacenter (of
  all of them, without one) at least a millisecond after the given instant come back oldest
  first, each once, and when there are more than the limit it is the latest that are left out.
\<close>

theorem replay_oldest_first:
  assumes "memory_reachable s" "\<not> IsZero (after + Millisecond)"
  shows "\<exists>rest. mset (Memory_Since s dc after limit @ rest) =
      mset (filter (\<lambda>e. (dc = [] \<or> ev_Datacenter e = dc) \<and> after + Millisecond \<le> ev_Time e) (ring_log s)) \<and>
    sorted_wrt (\<lambda>a b. event_pos b < event_pos a) (Memory_Since s dc after limit @ rest) \<and>
    (rest \<noteq> [] \<longrightarrow> int (length (Memory_Since s dc after limit)) = (if limit \<le> 0 then 100 else limit))"
proof -
  let ?all = "rev (matching s (since_query dc after))"
  let ?n = "nat (if limit \<le> 0 then 100 else limit)"
  have split: "Memory_Since s dc after limit @ drop ?n ?all = ?all"
    unfolding Memory_Since_eq by (rule append_take_drop_id)
  have "(\<lambda>e. Match e (since_query dc after)) =
      (\<lambda>e. (dc = [] \<or> ev_Datacenter e = dc) \<and> after + Millisecond \<le> ev_Time e)"
    using assms(2) by (simp add: Match_since)
  then have "mset ?all = mset (filter (\<lambda>e. (dc = [] \<or> ev_Datacenter e = dc) \<and>
      after + Millisecond \<le> ev_Time e) (ring_log s))"
    using matching_mset[of s "since_query dc after"] by simp
  moreover have "sorted_wrt (\<lambda>a b. event_pos b < event_pos a) ?all"
    using matching_sorted[OF reachable_ok[OF assms(1)]] by (simp add: sorted_wrt_rev)
  moreover have "drop ?n ?all \<noteq> [] \<Longrightarrow> int (length (take ?n ?all)) = (if limit \<le> 0 then 100 else limit)"
    by auto
  ultimately show ?thesis
    using split by (intro exI[of _ "drop ?n ?all"]) (simp add: Memory_Since_eq)
qed

text \<open>
  a client that reconnects loses the rest of the millisecond it was cut off in. The
  stream's event identifiers are milliseconds, and replay starts a whole millisecond after the
  one it is given: whatever event the client saw last, no event of the same millisecond is
  replayed, delivered before or not.
\<close>

theorem replay_skips_same_millisecond:
  assumes "e \<in> set (ring_log s)" "ev_Time e div Millisecond = t div Millisecond"
    and "in_int64 (t div Millisecond)" "zero_time < t - t mod Millisecond"
  shows "e \<notin> set (Memory_Since s dc (FromUnixMilli (UnixMilli t)) limit)"
proof -
  have t: "FromUnixMilli (UnixMilli t) = t - t mod Millisecond"
    using assms(3) by (simp add: FromUnixMilli_def UnixMilli_def minus_mod_eq_div_mult)
  have "ev_Time e < t - t mod Millisecond + Millisecond"
    using assms(2) pos_mod_bound[of Millisecond "ev_Time e"]
    by (simp add: minus_mod_eq_div_mult[of t] flip: assms(2) minus_mod_eq_div_mult)
  then have "\<not> Match e (since_query dc (FromUnixMilli (UnixMilli t)))"
    using assms(4) by (simp add: t Match_since IsZero_def)
  then have "e \<notin> set (matching s (since_query dc (FromUnixMilli (UnixMilli t))))"
    by (simp add: matching_set)
  then show ?thesis
    unfolding Memory_Since_eq by (auto dest: in_set_takeD)
qed

text \<open>
  C32: facets are the most frequent values of the matches. For each field asked for, the
  answer lists values with the exact number of their occurrences in the stored matching
  events, most frequent first and alphabetical among equals, as many as the limit allows; a
  value left out comes after every value listed; and in whichever order Go walks its map of
  counts, the list is the same.
\<close>

theorem facets_most_frequent:
  assumes "Query_Validate q = None" "f \<in> set flds"
  shows "\<exists>fc vals. Memory_Facets s q flds limit = Inr fc \<and> map_of (fc_Values fc) f = Some vals \<and>
    fc_SampleSize fc = int (length (filter (\<lambda>e. Match e q) (ring_log s))) \<and>
    sorted_wrt facet_less vals \<and>
    length vals \<le> nat (if limit \<le> 0 then 10 else limit) \<and>
    (\<forall>x \<in> set vals. 0 < fv_Count x \<and> fv_Count x =
      int (\<Sum>e \<leftarrow> filter (\<lambda>e. Match e q) (ring_log s). count_list (FieldValues e f) (fv_Value x))) \<and>
    (\<forall>v. 0 < (\<Sum>e \<leftarrow> filter (\<lambda>e. Match e q) (ring_log s). count_list (FieldValues e f) v) \<longrightarrow>
      v \<notin> fv_Value ` set vals \<longrightarrow>
      length vals = nat (if limit \<le> 0 then 10 else limit) \<and>
      (\<forall>x \<in> set vals. facet_less x \<lparr> fv_Value = v, fv_Count =
        int (\<Sum>e \<leftarrow> filter (\<lambda>e. Match e q) (ring_log s). count_list (FieldValues e f) v) \<rparr>)) \<and>
    (\<forall>counts. mset counts = mset (count_values (matching s q) f) \<longrightarrow>
      top_values counts (if limit \<le> 0 then 10 else limit) = vals)"
proof -
  define n where "n = (if limit \<le> 0 then 10 else limit)"
  define counts where "counts = count_values (matching s q) f"
  define vals where "vals = top_values counts n"
  let ?sorted = "sort_slice facet_less (facet_list counts)"
  have vals: "vals = take (nat n) ?sorted"
    by (simp add: vals_def top_values_eq)
  have ok: "gomap_ok counts"
    unfolding counts_def by (rule count_values_spec)
  have "distinct (facet_list counts)"
    using ok by (auto simp: facet_list_def gomap_ok_def distinct_map inj_on_def)
  then have strict: "sorted_wrt facet_less ?sorted"
    by (rule most_frequent.sorted_sort_slice_strict) (simp add: facet_less_total)
  have counted: "x \<in> set ?sorted \<longleftrightarrow> 0 < occurrences (matching s q) f (fv_Value x) \<and>
      fv_Count x = int (occurrences (matching s q) f (fv_Value x))" for x
    by (simp add: facet_list_values counts_def)
  obtain fc where fc: "Memory_Facets s q flds limit = Inr fc" "map_of (fc_Values fc) f = Some vals"
      "fc_SampleSize fc = int (length (filter (\<lambda>e. Match e q) (ring_log s)))"
    using assms by (simp add: Memory_Facets_def Let_def facets_fold vals_def counts_def n_def matching_length)
  have left: "length vals = nat n \<and>
      (\<forall>x \<in> set vals. facet_less x \<lparr> fv_Value = v, fv_Count = int (occurrences (matching s q) f v) \<rparr>)"
    if "0 < occurrences (matching s q) f v" "v \<notin> fv_Value ` set vals" for v
  proof -
    let ?y = "\<lparr> fv_Value = v, fv_Count = int (occurrences (matching s q) f v) \<rparr>"
    have "?y \<in> set ?sorted" "?y \<notin> set (take (nat n) ?sorted)"
      using that counted[of ?y] unfolding vals by (simp, force)
    with strict show ?thesis
      unfolding vals by (rule left_out_of_take)
  qed
  show ?thesis
    unfolding occurrences_matching[symmetric] n_def[symmetric] counts_def[symmetric]
  proof (intro exI[of _ fc] exI[of _ vals] conjI fc)
    show "sorted_wrt facet_less vals"
      unfolding vals using strict by (rule sorted_wrt_take)
    show "length vals \<le> nat n"
      by (simp add: vals)
    show "\<forall>x \<in> set vals. 0 < fv_Count x \<and> fv_Count x = int (occurrences (matching s q) f (fv_Value x))"
    proof
      fix x
      assume "x \<in> set vals"
      then have "x \<in> set ?sorted"
        unfolding vals by (rule in_set_takeD)
      with counted[of x] show "0 < fv_Count x \<and> fv_Count x = int (occurrences (matching s q) f (fv_Value x))"
        by simp
    qed
    show "\<forall>counts'. mset counts' = mset counts \<longrightarrow> top_values counts' n = vals"
      unfolding vals_def by (intro allI impI top_values_perm)
  qed (intro allI impI left)
qed

text \<open>
  suggestions and datacenters are complete and sorted. Suggest returns the first values in
  alphabetical order, without repetition, of those with the prefix in the datacenter's events;
  Datacenters returns all names any event or registered instance carries.
\<close>

theorem suggestions_sorted_complete:
  "Memory_Suggest s dc field pre limit =
     take (nat (if limit \<le> 0 then 20 else limit)) (sorted_list_of_set
       {v. \<exists>e. e \<in> set (ring_log s) \<and> (dc = [] \<or> ev_Datacenter e = dc) \<and> v \<in> set (FieldValues e field) \<and> HasPrefix v pre}) \<and>
   (gomap_ok (m_instances s) \<longrightarrow> Memory_Datacenters s = sorted_list_of_set
       (ev_Datacenter ` set (ring_log s) \<union> (\<lambda>(k, _). fst k) ` set (m_instances s)))"
proof (intro conjI impI)
  let ?q = "zero_query\<lparr>q_Datacenter := dc\<rparr>"
  let ?seen = "fold (\<lambda>v m. if HasPrefix v pre then map_put m v True else m)
    (concat (map (\<lambda>e. FieldValues e field) (matching s ?q))) []"
  have "Match e ?q \<longleftrightarrow> dc = [] \<or> ev_Datacenter e = dc" for e
    by (simp add: Match_iff zero_query_def IsZero_def)
  then have "fst ` set ?seen = {v. \<exists>e. e \<in> set (ring_log s) \<and> (dc = [] \<or> ev_Datacenter e = dc) \<and>
      v \<in> set (FieldValues e field) \<and> HasPrefix v pre}"
    unfolding fold_put_True(1) by (auto simp: matching_set)
  moreover have "gomap_ok ?seen"
    by (rule fold_put_True(2)) simp
  ultimately show "Memory_Suggest s dc field pre limit =
     take (nat (if limit \<le> 0 then 20 else limit)) (sorted_list_of_set
       {v. \<exists>e. e \<in> set (ring_log s) \<and> (dc = [] \<or> ev_Datacenter e = dc) \<and> v \<in> set (FieldValues e field) \<and> HasPrefix v pre})"
    unfolding Memory_Suggest_def Let_def fold_concat sorted_limited_def take_if by (simp only: sort_keys)
next
  let ?seen = "fold (\<lambda>e m. map_put m (ev_Datacenter e) True) (matching s zero_query) []"
  have keys: "fst ` set (fold (\<lambda>x m. map_put m (g x) True) xs m) = fst ` set m \<union> g ` set xs"
    and ok: "gomap_ok m \<Longrightarrow> gomap_ok (fold (\<lambda>x m. map_put m (g x) True) xs m)"
    for g :: "'x \<Rightarrow> string" and xs m
    by (induction xs arbitrary: m) auto
  have "set (matching s zero_query) = set (ring_log s)"
    by (simp add: matching_set)
  then show "Memory_Datacenters s = sorted_list_of_set
       (ev_Datacenter ` set (ring_log s) \<union> (\<lambda>(k, _). fst k) ` set (m_instances s))"
    unfolding Memory_Datacenters_def Let_def case_prod_unfold
    by (subst sort_keys) (simp_all add: ok keys)
qed

text \<open>
  The registry keeps the latest record and the first sighting. After any batch of
  instances the record of a key is the last one of the batch, with the time the key was first
  seen: by an earlier record, or else by the first of the batch; other keys are untouched.
\<close>

theorem registry_latest_first_seen:
  "Memory_Instance (Memory_UpsertInstances s ins) dc node sid =
     (case filter (\<lambda>i. (in_Datacenter i, in_NodeName i, in_ServiceID i) = (dc, node, sid)) ins of
        [] \<Rightarrow> Memory_Instance s dc node sid
      | i # is \<Rightarrow> Some ((last (i # is))\<lparr>in_FirstSeen := (case Memory_Instance s dc node sid of
          Some old \<Rightarrow> in_FirstSeen old | None \<Rightarrow> in_FirstSeen i)\<rparr>))"
  unfolding Memory_UpsertInstances_def by (rule upserts_lookup)


section \<open>Witnesses\<close>

text \<open>Events at 100.4 and 103 seconds; windows that end at 110 seconds.\<close>

abbreviation sample_hist :: MemoryStorage where
  "sample_hist \<equiv> sample_store [100400000000, 103000000000, 103000000000]"

definition sample_window :: "Time \<Rightarrow> Query" where
  "sample_window from = zero_query\<lparr>q_From := from, q_To := 110000000000\<rparr>"

lemma sample_window_ok: "from < 110000000000 \<Longrightarrow> 0 < from \<Longrightarrow> window_ok 0 (sample_window from) 5"
  by (simp add: sample_window_def window_ok_def hist_to_def hist_from_def IsZero_def zero_time_def
      zero_query_def Query_Validate_def)

theorem histogram_shape_witness:
  "\<exists>out. Memory_Histogram 0 sample_hist (sample_window 100000000000) 5 SplitStatus = Inr (out, False) \<and>
    0 < length out \<and> int (length out) \<le> 10"
  using histogram_shape[OF sample_window_ok[of 100000000000], of sample_hist SplitStatus]
  by (auto simp: hist_buckets_def)

theorem histogram_counts_witness:
  "\<exists>out. Memory_Histogram 0 sample_hist (sample_window 100000000000) 5 SplitStatus = Inr (out, False) \<and>
    (\<Sum>i<length out. bk_Total (out ! i)) = int (length (filter (\<lambda>e. Match e (sample_window 100000000000) \<and>
        ev_Time e < hist_from 0 (sample_window 100000000000) +
          int (length out) * hist_step 0 (sample_window 100000000000) 5) (ring_log sample_hist)))"
  using histogram_counts[OF sample_window_ok[of 100000000000], of sample_hist SplitStatus "''unknown''"]
  by (auto simp: sample_window_def IsZero_def zero_time_def)

theorem histogram_default_window_leaks_witness:
  "\<exists>out. Memory_Histogram 0 (sample_store [5, 5, 86400000000000]) (zero_query\<lparr>q_To := 3600000000007\<rparr>) 0 SplitStatus =
      Inr (out, False) \<and> bk_Start (out ! 0) = 7 \<and> 0 < bk_Total (out ! 0)"
proof -
  let ?q = "zero_query\<lparr>q_To := 3600000000007\<rparr>"
  let ?e = "(sample_event 5)\<lparr>ev_ID := 1\<rparr>"
  have win: "window_ok 0 ?q 0"
    by (simp add: window_ok_def hist_to_def hist_from_def IsZero_def zero_time_def
      zero_query_def Query_Validate_def)
  have "Second \<le> hist_step 0 ?q 0"
    by (rule hist_ok[OF win, where s = "sample_store []" and split = SplitStatus]) simp
  moreover have from7: "hist_from 0 ?q = 7"
    by (simp add: hist_to_def hist_from_def IsZero_def zero_time_def zero_query_def)
  ultimately have "\<exists>out. Memory_Histogram 0 (sample_store [5, 5, 86400000000000]) ?q 0 SplitStatus = Inr (out, False) \<and>
    bk_Start (out ! 0) = hist_from 0 ?q \<and>
    int (length (filter (\<lambda>e. Match e ?q \<and> bk_Start (out ! 0) \<le> ev_Time e \<and>
      ev_Time e < bk_Start (out ! 0) + hist_step 0 ?q 0) (ring_log (sample_store [5, 5, 86400000000000])))) < bk_Total (out ! 0)"
    by (intro histogram_default_window_leaks[OF win, where e = ?e])
      (simp_all add: sample_log sample_event_def Match_iff zero_query_def IsZero_def zero_time_def)
  then show ?thesis
    unfolding from7 by force
qed


theorem replay_oldest_first_witness:
  "\<exists>rest. mset (Memory_Since (sample_store [1000000, 7000000, 7000000]) [] 5000000 1 @ rest) =
      mset (filter (\<lambda>e. 6000000 \<le> ev_Time e) (ring_log (sample_store [1000000, 7000000, 7000000])))"
  using replay_oldest_first[OF sample_reachable[of "[1000000, 7000000, 7000000]"], of 5000000 "[]" 1]
  by (auto simp: IsZero_def zero_time_def)

theorem replay_skips_same_millisecond_witness:
  "(sample_event 1700300)\<lparr>ev_ID := 2\<rparr> \<notin>
     set (Memory_Since (sample_store [1500000, 1700300, 2000000]) [] (FromUnixMilli (UnixMilli 1500000)) 100)"
  by (rule replay_skips_same_millisecond)
    (simp_all add: sample_log sample_event_def in_int64_def zero_time_def)

theorem facets_most_frequent_witness:
  "\<exists>fc vals. Memory_Facets sample_hist zero_query [FieldKind] 3 = Inr fc \<and>
    map_of (fc_Values fc) FieldKind = Some vals \<and> length vals \<le> 3"
  using facets_most_frequent[where q = zero_query and f = FieldKind and flds = "[FieldKind]" and s = sample_hist
      and limit = 3] by auto

theorem suggestions_sorted_complete_witness:
  "Memory_Datacenters sample_hist = sorted_list_of_set
       (ev_Datacenter ` set (ring_log sample_hist) \<union> (\<lambda>(k, _). fst k) ` set (m_instances sample_hist))"
proof -
  have "gomap_ok (m_instances sample_hist)"
    using reachable_ok[OF sample_reachable[of "[100400000000, 103000000000, 103000000000]"]]
    by (simp add: mem_ok_def)
  then show ?thesis
    using suggestions_sorted_complete[of sample_hist] by blast
qed

end
