(* ===== verification/Compare.thy ===== *)
theory Compare
  imports Timeline
begin

text \<open>
  Package \<open>watch\<close>, the comparison of two states of a service or a node
  (\<open>compare.go\<close>), with the wire types of package \<open>consul\<close> it reads. The
  functions return what the code sends on its two channels; a nil pointer that the code
  would follow is an error value.
\<close>


section \<open>Wire types\<close>

text \<open>Pointers that a reply may leave nil are options; the checks of a reply never are nil.\<close>

record Node =
  n_ID :: string
  n_Node :: string
  n_Address :: string
  n_Datacenter :: string
  n_Meta :: "(string, string) gomap"

record NodeService =
  s_Kind :: string
  s_ID :: string
  s_Service :: string
  s_Tags :: "string list"
  s_Address :: string
  s_Meta :: "(string, string) gomap"
  s_Port :: int

record HealthCheck =
  hc_Node :: string
  hc_CheckID :: string
  hc_Name :: string
  hc_Status :: string
  hc_Notes :: string
  hc_Output :: string
  hc_ServiceID :: string
  hc_ServiceName :: string
  hc_Type :: string

record CheckServiceNode =
  csn_Node :: "Node option"
  csn_Service :: "NodeService option"
  csn_Checks :: "HealthCheck list"

datatype panic = NilDereference


section \<open>Health of an instance and of a node\<close>

text \<open>The flags the loop of \<open>aggregate\<close> raises.\<close>

record Flags =
  fl_passing :: bool
  fl_warning :: bool
  fl_critical :: bool
  fl_maintenance :: bool

definition aggregate_one :: "ConsulApi \<Rightarrow> HealthCheck \<Rightarrow> Flags \<Rightarrow> Flags" where
  "aggregate_one api c f =
     (if hc_CheckID c = NodeMaint api \<or> HasPrefix (hc_CheckID c) (ServiceMaintPrefix api)
      then f\<lparr>fl_maintenance := True\<rparr>
      else if hc_Status c = HealthPassing api then f\<lparr>fl_passing := True\<rparr>
      else if hc_Status c = HealthWarning api then f\<lparr>fl_warning := True\<rparr>
      else if hc_Status c = HealthCritical api then f\<lparr>fl_critical := True\<rparr>
      else f)"

definition aggregate :: "ConsulApi \<Rightarrow> HealthCheck list \<Rightarrow> Status" where
  "aggregate api checks =
     (let f = fold (aggregate_one api) checks
        \<lparr> fl_passing = False, fl_warning = False, fl_critical = False, fl_maintenance = False \<rparr>
      in if fl_maintenance f then StatusMaintenance
         else if fl_critical f then StatusCritical
         else if fl_warning f then StatusWarning
         else if fl_passing f then StatusPassing
         else StatusUnknown)"

definition instanceStatus :: "ConsulApi \<Rightarrow> HealthCheck list \<Rightarrow> Status" where
  "instanceStatus api checks = (if checks = [] then StatusPassing else aggregate api checks)"

definition nodeStatus :: "ConsulApi \<Rightarrow> HealthCheck list \<Rightarrow> Status" where
  "nodeStatus api checks = (if checks = [] then StatusMissing else aggregate api checks)"

definition serviceChecks :: "HealthCheck list \<Rightarrow> HealthCheck list" where
  "serviceChecks checks = filter (\<lambda>c. hc_ServiceID c \<noteq> []) checks"


section \<open>Instances by key\<close>

type_synonym instanceKey = "string \<times> string"

definition index_one ::
    "ConsulApi \<Rightarrow> CheckServiceNode \<Rightarrow> (instanceKey, CheckServiceNode) gomap \<times> int \<Rightarrow>
     (instanceKey, CheckServiceNode) gomap \<times> int" where
  "index_one api csn s =
     (case (csn_Node csn, csn_Service csn) of
        (Some n, Some v) \<Rightarrow>
          (map_put (fst s) (n_Node n, s_ID v) csn,
           if instanceStatus api (csn_Checks csn) = StatusPassing then snd s + 1 else snd s)
      | _ \<Rightarrow> s)"

definition indexInstances ::
    "ConsulApi \<Rightarrow> CheckServiceNode list \<Rightarrow> (instanceKey, CheckServiceNode) gomap \<times> int" where
  "indexInstances api ins = fold (index_one api) ins ([], 0)"


section \<open>Fingerprints\<close>

text \<open>FNV-1a on 64 bits (\<open>hash/fnv\<close>), fed with each string and a zero byte.\<close>

definition fnv_step :: "64 word \<Rightarrow> char \<Rightarrow> 64 word" where
  "fnv_step h c = xor h (word_of_nat (of_char c)) * 1099511628211"

definition fnv64a :: "string \<Rightarrow> 64 word" where
  "fnv64a bytes = foldl fnv_step 14695981039346656037 bytes"

definition written :: "string \<Rightarrow> string" where
  "written s = s @ [CHR 0x00]"

definition writeMap :: "(string, string) gomap \<Rightarrow> string" where
  "writeMap m = concat (map (\<lambda>k. written (k @ ''='' @ map_get [] m k)) (sort_Strings (map fst m)))"

text \<open>The bytes \<open>fingerprint\<close> hashes.\<close>

definition fingerprint_bytes :: "Node \<Rightarrow> NodeService \<Rightarrow> string" where
  "fingerprint_bytes n v =
     written (s_Service v) @ written (s_Address v) @ written (Itoa (s_Port v)) @
     concat (map written (sort_Strings (s_Tags v))) @ writeMap (s_Meta v) @ writeMap (n_Meta n)"

definition fingerprint :: "CheckServiceNode \<Rightarrow> panic + 64 word" where
  "fingerprint csn = (case (csn_Node csn, csn_Service csn) of
       (Some n, Some v) \<Rightarrow> Inr (fnv64a (fingerprint_bytes n v))
     | _ \<Rightarrow> Inl NilDereference)"


section \<open>What the comparison reads and writes\<close>

text \<open>The watcher's configuration: API constants, derivation rules, datacenter.\<close>

record WatchEnv =
  we_api :: ConsulApi
  we_derive :: Derive
  we_Datacenter :: string

record instanceMark =
  im_fingerprint :: "64 word"
  im_announced :: Time

type_synonym Marks = "(instanceKey, instanceMark) gomap"

text \<open>The two channels, oldest item first, and the marks of the watch.\<close>

record Out =
  o_events :: "Event list"
  o_instances :: "Instance list"
  o_marks :: Marks

text \<open>The orders in which the \<open>range\<close> loops over the code's maps visit the entries.\<close>

record Orders =
  or_instances :: "(instanceKey, CheckServiceNode) gomap \<Rightarrow> (instanceKey, CheckServiceNode) gomap"
  or_checks :: "(string, HealthCheck) gomap \<Rightarrow> (string, HealthCheck) gomap"

definition orders_ok :: "Orders \<Rightarrow> bool" where
  "orders_ok ord \<longleftrightarrow> (\<forall>m. mset (or_instances ord m) = mset m) \<and> (\<forall>m. mset (or_checks ord m) = mset m)"

definition emit :: "Event \<Rightarrow> Out \<Rightarrow> Out" where
  "emit e out = out\<lparr>o_events := o_events out @ [e]\<rparr>"

definition instanceRefresh :: Duration where
  "instanceRefresh = 24 * Hour"

definition copyMap :: "(string, string) gomap \<Rightarrow> (string, string) gomap" where
  "copyMap m = (if m = [] then [] else fold (\<lambda>(k, v) out. map_put out k v) m [])"

definition registration :: "WatchEnv \<Rightarrow> Time \<Rightarrow> Node \<Rightarrow> NodeService \<Rightarrow> Instance" where
  "registration w at n v =
     (let (team, app, version) = Apply (we_derive w) (s_Meta v)
      in \<lparr> in_Datacenter = we_Datacenter w, in_NodeName = n_Node n, in_ServiceID = s_ID v,
           in_ServiceName = s_Service v, in_NodeIP = n_Address n, in_Address = s_Address v,
           in_Port = s_Port v, in_Team = team, in_App = app, in_Version = version,
           in_Tags = s_Tags v, in_Meta = copyMap (s_Meta v), in_NodeMeta = copyMap (n_Meta n),
           in_FirstSeen = at, in_LastSeen = at \<rparr>)"

definition announce :: "WatchEnv \<Rightarrow> Time \<Rightarrow> CheckServiceNode \<Rightarrow> bool \<Rightarrow> Out \<Rightarrow> panic + Out" where
  "announce w at csn force out =
     (case (csn_Node csn, csn_Service csn) of
        (Some n, Some v) \<Rightarrow>
          res_bind (fingerprint csn) (\<lambda>fp.
            let key = (n_Node n, s_ID v) in
            if \<not> force \<and> (case map_of (o_marks out) key of
                 None \<Rightarrow> False
               | Some m \<Rightarrow> im_fingerprint m = fp \<and> time_sub at (im_announced m) < instanceRefresh)
            then Inr out
            else Inr (out\<lparr> o_marks := map_put (o_marks out) key \<lparr> im_fingerprint = fp, im_announced = at \<rparr>,
                           o_instances := o_instances out @ [registration w at n v] \<rparr>))
      | _ \<Rightarrow> Inl NilDereference)"


section \<open>Checks\<close>

definition index_checks :: "HealthCheck list \<Rightarrow> (string, HealthCheck) gomap" where
  "index_checks cs = fold (\<lambda>c m. map_put m (hc_CheckID c) c) cs []"

definition check_event ::
    "Event \<Rightarrow> Kind \<Rightarrow> (Event \<Rightarrow> Event) \<Rightarrow> HealthCheck \<Rightarrow> Status \<Rightarrow> Status \<Rightarrow> Event" where
  "check_event base kind decorate c oldStatus newStatus = decorate
     (base\<lparr> ev_Kind := kind, ev_CheckID := hc_CheckID c, ev_CheckName := hc_Name c, ev_CheckType := hc_Type c,
            ev_CheckOutput := hc_Output c, ev_OldCheckStatus := oldStatus, ev_NewCheckStatus := newStatus \<rparr>)"

definition check_new ::
    "ConsulApi \<Rightarrow> (HealthCheck \<Rightarrow> Status \<Rightarrow> Status \<Rightarrow> Event) \<Rightarrow> (string, HealthCheck) gomap \<Rightarrow>
     string \<times> HealthCheck \<Rightarrow> Out \<Rightarrow> Out" where
  "check_new api ev oldIdx = (\<lambda>(id, nc) out.
     case map_of oldIdx id of
       None \<Rightarrow> emit (ev nc StatusMissing (StatusFromConsul api (hc_Status nc))) out
     | Some oc \<Rightarrow>
         if hc_Status oc \<noteq> hc_Status nc
         then emit (ev nc (StatusFromConsul api (hc_Status oc)) (StatusFromConsul api (hc_Status nc))) out
         else out)"

definition check_gone ::
    "ConsulApi \<Rightarrow> (HealthCheck \<Rightarrow> Status \<Rightarrow> Status \<Rightarrow> Event) \<Rightarrow> (string, HealthCheck) gomap \<Rightarrow>
     string \<times> HealthCheck \<Rightarrow> Out \<Rightarrow> Out" where
  "check_gone api ev newIdx = (\<lambda>(id, oc) out.
     case map_of newIdx id of
       None \<Rightarrow> emit (ev (oc\<lparr>hc_Output := []\<rparr>) (StatusFromConsul api (hc_Status oc)) StatusMissing) out
     | Some _ \<Rightarrow> out)"

definition compareChecks ::
    "WatchEnv \<Rightarrow> Orders \<Rightarrow> Event \<Rightarrow> Kind \<Rightarrow> HealthCheck list \<Rightarrow> HealthCheck list \<Rightarrow> (Event \<Rightarrow> Event) \<Rightarrow> Out \<Rightarrow> Out" where
  "compareChecks w ord base kind old new decorate out =
     (let oldIdx = index_checks old; newIdx = index_checks new; ev = check_event base kind decorate;
          out = fold (check_new (we_api w) ev oldIdx) (or_checks ord newIdx) out
      in fold (check_gone (we_api w) ev newIdx) (or_checks ord oldIdx) out)"


section \<open>Services and nodes\<close>

definition base_event ::
    "WatchEnv \<Rightarrow> Time \<Rightarrow> 64 word \<Rightarrow> int \<Rightarrow> int \<Rightarrow> int \<Rightarrow> Node \<Rightarrow> NodeService \<Rightarrow> Event" where
  "base_event w at index oldHealthy newHealthy instances n v =
     (let (team, app, version) = Apply (we_derive w) (s_Meta v)
      in zero_event\<lparr> ev_Time := at, ev_Datacenter := we_Datacenter w, ev_ConsulIndex := index,
           ev_NodeName := n_Node n, ev_NodeIP := n_Address n, ev_ServiceName := s_Service v,
           ev_ServiceID := s_ID v, ev_Team := team, ev_App := app, ev_Version := version,
           ev_Tags := s_Tags v, ev_OldHealthy := oldHealthy, ev_NewHealthy := newHealthy,
           ev_TotalInstances := instances \<rparr>)"

definition service_base ::
    "WatchEnv \<Rightarrow> Time \<Rightarrow> 64 word \<Rightarrow> int \<Rightarrow> int \<Rightarrow> int \<Rightarrow> CheckServiceNode \<Rightarrow> panic + Event" where
  "service_base w at index oldHealthy newHealthy instances csn =
     (case (csn_Node csn, csn_Service csn) of
        (Some n, Some v) \<Rightarrow> Inr (base_event w at index oldHealthy newHealthy instances n v)
      | _ \<Rightarrow> Inl NilDereference)"

text \<open>One round of each of the two loops of \<open>compareService\<close>.\<close>

definition service_new ::
    "WatchEnv \<Rightarrow> Orders \<Rightarrow> Time \<Rightarrow> (CheckServiceNode \<Rightarrow> panic + Event) \<Rightarrow>
     (instanceKey, CheckServiceNode) gomap \<Rightarrow> instanceKey \<times> CheckServiceNode \<Rightarrow> Out \<Rightarrow> panic + Out" where
  "service_new w ord at base oldIdx = (\<lambda>(key, ns) out.
     case map_of oldIdx key of
       None \<Rightarrow> res_bind (base ns) (\<lambda>e.
         announce w at ns True (emit (e\<lparr> ev_Kind := KindInstance, ev_OldServiceStatus := StatusMissing,
           ev_NewServiceStatus := instanceStatus (we_api w) (csn_Checks ns) \<rparr>) out))
     | Some os \<Rightarrow> res_bind (announce w at ns False out) (\<lambda>out.
         res_bind (base ns) (\<lambda>e.
           Inr (compareChecks w ord e KindCheck (serviceChecks (csn_Checks os)) (serviceChecks (csn_Checks ns))
             (\<lambda>e. e\<lparr> ev_OldServiceStatus := instanceStatus (we_api w) (csn_Checks os),
                     ev_NewServiceStatus := instanceStatus (we_api w) (csn_Checks ns) \<rparr>) out))))"

definition service_gone ::
    "WatchEnv \<Rightarrow> (CheckServiceNode \<Rightarrow> panic + Event) \<Rightarrow>
     (instanceKey, CheckServiceNode) gomap \<Rightarrow> instanceKey \<times> CheckServiceNode \<Rightarrow> Out \<Rightarrow> panic + Out" where
  "service_gone w base newIdx = (\<lambda>(key, os) out.
     case map_of newIdx key of
       Some _ \<Rightarrow> Inr out
     | None \<Rightarrow> res_bind (base os) (\<lambda>e.
         Inr ((\<lambda>out. out\<lparr>o_marks := map_del (o_marks out) key\<rparr>)
           (emit (e\<lparr> ev_Kind := KindInstance, ev_OldServiceStatus := instanceStatus (we_api w) (csn_Checks os),
             ev_NewServiceStatus := StatusMissing \<rparr>) out))))"

definition compareService ::
    "WatchEnv \<Rightarrow> Orders \<Rightarrow> Time \<Rightarrow> 64 word \<Rightarrow> CheckServiceNode list \<Rightarrow> CheckServiceNode list \<Rightarrow> Out \<Rightarrow> panic + Out" where
  "compareService w ord at index old new out =
     (let (oldIdx, oldHealthy) = indexInstances (we_api w) old;
          (newIdx, newHealthy) = indexInstances (we_api w) new;
          base = service_base w at index oldHealthy newHealthy (int (length new))
      in res_bind (fold_res (service_new w ord at base oldIdx) (or_instances ord newIdx) out)
           (fold_res (service_gone w base newIdx) (or_instances ord oldIdx)))"

text \<open>The new checks are an option: nil, which is not the empty list, means the node is gone.\<close>

definition compareNode ::
    "WatchEnv \<Rightarrow> Orders \<Rightarrow> Time \<Rightarrow> 64 word \<Rightarrow> Node \<Rightarrow> HealthCheck list \<Rightarrow> HealthCheck list option \<Rightarrow> Out \<Rightarrow> Out" where
  "compareNode w ord at index node old new out =
     (let base = zero_event\<lparr> ev_Time := at, ev_Datacenter := we_Datacenter w, ev_ConsulIndex := index,
            ev_Kind := KindNode, ev_NodeName := n_Node node, ev_NodeIP := n_Address node,
            ev_OldNodeStatus := nodeStatus (we_api w) old,
            ev_NewNodeStatus := nodeStatus (we_api w) (case new of None \<Rightarrow> [] | Some cs \<Rightarrow> cs) \<rparr>
      in case new of
           None \<Rightarrow> emit base out
         | Some cs \<Rightarrow> compareChecks w ord base KindNode old cs (\<lambda>e. e) out)"


section \<open>Lemmas\<close>

subsection \<open>Loops that append\<close>

lemma fold_appends:
  assumes "\<And>x s. x \<in> set xs \<Longrightarrow> pr (g x s) = pr s @ f x"
  shows "pr (fold g xs s) = pr s @ concat (map f xs)"
  using assms by (induction xs arbitrary: s) simp_all

lemma fold_keeps:
  assumes "\<And>x s. x \<in> set xs \<Longrightarrow> pr (g x s) = pr s"
  shows "pr (fold g xs s) = pr s"
  using assms by (induction xs arbitrary: s) simp_all

text \<open>
  A loop over a map that appends, for each key, items of that key: the items of one key are
  those of its entry, whatever the order of the loop.
\<close>

lemma concat_keyed:
  assumes "distinct (map fst m)" "\<And>k v e. (k, v) \<in> set m \<Longrightarrow> e \<in> set (f (k, v)) \<Longrightarrow> key e = k"
  shows "filter (\<lambda>e. key e = k) (concat (map f m)) = (case map_of m k of None \<Rightarrow> [] | Some v \<Rightarrow> f (k, v))"
  using assms
proof (induction m)
  case Nil
  then show ?case by simp
next
  case (Cons x m)
  obtain k' v' where x: "x = (k', v')" by force
  have here: "filter (\<lambda>e. key e = k) (f (k', v')) = (if k' = k then f (k', v') else [])"
    using Cons.prems(2)[of k' v'] x by (auto simp: filter_id_conv filter_empty_conv)
  have rest: "filter (\<lambda>e. key e = k) (concat (map f m)) = (case map_of m k of None \<Rightarrow> [] | Some v \<Rightarrow> f (k, v))"
    by (rule Cons.IH) (use Cons.prems in \<open>auto intro: Cons.prems(2)\<close>)
  show ?case
  proof (cases "k' = k")
    case True
    then have "map_of m k = None"
      using Cons.prems(1) x by (auto simp: map_of_eq_None_iff)
    with True show ?thesis
      using here rest x by simp
  next
    case False
    then show ?thesis
      using here rest x by simp
  qed
qed


subsection \<open>Indexes\<close>

text \<open>The last check of an identifier, the last instance of a key.\<close>

definition check_at :: "HealthCheck list \<Rightarrow> string \<Rightarrow> HealthCheck option" where
  "check_at cs cid = find (\<lambda>c. hc_CheckID c = cid) (rev cs)"

definition csn_key :: "CheckServiceNode \<Rightarrow> instanceKey option" where
  "csn_key csn = (case (csn_Node csn, csn_Service csn) of
     (Some n, Some v) \<Rightarrow> Some (n_Node n, s_ID v) | _ \<Rightarrow> None)"

definition instance_at :: "CheckServiceNode list \<Rightarrow> instanceKey \<Rightarrow> CheckServiceNode option" where
  "instance_at ins k = find (\<lambda>csn. csn_key csn = Some k) (rev ins)"

definition healthy :: "ConsulApi \<Rightarrow> CheckServiceNode list \<Rightarrow> int" where
  "healthy api ins = int (length (filter (\<lambda>csn. csn_key csn \<noteq> None \<and>
     instanceStatus api (csn_Checks csn) = StatusPassing) ins))"

lemma find_append: "find P (xs @ ys) = (case find P xs of None \<Rightarrow> find P ys | Some x \<Rightarrow> Some x)"
  by (induction xs) auto

lemma check_at_snoc: "check_at (cs @ [c]) cid = (if hc_CheckID c = cid then Some c else check_at cs cid)"
  by (simp add: check_at_def)

lemma check_at_ID: "check_at cs cid = Some c \<Longrightarrow> hc_CheckID c = cid \<and> c \<in> set cs"
  by (auto simp: check_at_def find_Some_iff) (metis nth_mem set_rev length_rev)

lemma index_checks_ok [simp]: "gomap_ok (index_checks cs)"
  by (induction cs rule: rev_induct) (simp_all add: index_checks_def)

lemma index_checks_lookup [simp]: "map_of (index_checks cs) cid = check_at cs cid"
proof (induction cs rule: rev_induct)
  case Nil
  then show ?case by (simp add: index_checks_def check_at_def)
next
  case (snoc c cs)
  then show ?case by (auto simp: index_checks_def check_at_snoc)
qed

lemma indexInstances_snoc:
  "indexInstances api (ins @ [csn]) = index_one api csn (indexInstances api ins)"
  by (simp add: indexInstances_def)

lemma index_one_key:
  "index_one api csn s = (case csn_key csn of None \<Rightarrow> s
     | Some k \<Rightarrow> (map_put (fst s) k csn, if instanceStatus api (csn_Checks csn) = StatusPassing then snd s + 1 else snd s))"
  by (simp add: index_one_def csn_key_def split: option.splits)

lemma indexInstances_ok [simp]: "gomap_ok (fst (indexInstances api ins))"
  by (induction ins rule: rev_induct)
    (simp_all add: indexInstances_snoc index_one_key indexInstances_def split: option.splits)

lemma indexInstances_lookup [simp]: "map_of (fst (indexInstances api ins)) k = instance_at ins k"
proof (induction ins rule: rev_induct)
  case Nil
  then show ?case by (simp add: indexInstances_def instance_at_def)
next
  case (snoc csn ins)
  then show ?case
    by (auto simp: indexInstances_snoc index_one_key instance_at_def split: option.splits)
qed

lemma indexInstances_healthy: "snd (indexInstances api ins) = healthy api ins"
proof (induction ins rule: rev_induct)
  case Nil
  then show ?case by (simp add: indexInstances_def healthy_def)
next
  case (snoc csn ins)
  then show ?case
    by (simp add: indexInstances_snoc index_one_key healthy_def split: option.splits)
qed

lemma instance_at_key: "instance_at ins k = Some csn \<Longrightarrow> csn_key csn = Some k \<and> csn \<in> set ins"
  by (auto simp: instance_at_def find_Some_iff) (metis nth_mem set_rev length_rev)

lemma csn_key_Some:
  "csn_key csn = Some k \<longleftrightarrow> (\<exists>n v. csn_Node csn = Some n \<and> csn_Service csn = Some v \<and> k = (n_Node n, s_ID v))"
  by (auto simp: csn_key_def split: option.splits)


subsection \<open>What each loop sends\<close>

lemma emit_simps [simp]:
  "o_events (emit e out) = o_events out @ [e]" "o_instances (emit e out) = o_instances out"
  "o_marks (emit e out) = o_marks out"
  by (simp_all add: emit_def)

text \<open>The change of one check: the check reported, and its status before and after.\<close>

definition check_change ::
    "ConsulApi \<Rightarrow> HealthCheck option \<Rightarrow> HealthCheck option \<Rightarrow> (HealthCheck \<times> Status \<times> Status) list" where
  "check_change api old new = (case (old, new) of
       (None, None) \<Rightarrow> []
     | (None, Some n) \<Rightarrow> [(n, StatusMissing, StatusFromConsul api (hc_Status n))]
     | (Some oc, Some n) \<Rightarrow> if hc_Status oc = hc_Status n then []
         else [(n, StatusFromConsul api (hc_Status oc), StatusFromConsul api (hc_Status n))]
     | (Some oc, None) \<Rightarrow> [(oc\<lparr>hc_Output := []\<rparr>, StatusFromConsul api (hc_Status oc), StatusMissing)])"

definition new_changes ::
    "ConsulApi \<Rightarrow> HealthCheck list \<Rightarrow> string \<times> HealthCheck \<Rightarrow> (HealthCheck \<times> Status \<times> Status) list" where
  "new_changes api old = (\<lambda>(cid, nc). check_change api (check_at old cid) (Some nc))"

definition gone_changes ::
    "ConsulApi \<Rightarrow> HealthCheck list \<Rightarrow> string \<times> HealthCheck \<Rightarrow> (HealthCheck \<times> Status \<times> Status) list" where
  "gone_changes api new = (\<lambda>(cid, oc). if check_at new cid = None then check_change api (Some oc) None else [])"

definition changes :: "ConsulApi \<Rightarrow> Orders \<Rightarrow> HealthCheck list \<Rightarrow> HealthCheck list \<Rightarrow> (HealthCheck \<times> Status \<times> Status) list" where
  "changes api ord old new =
     concat (map (new_changes api old) (or_checks ord (index_checks new))) @
     concat (map (gone_changes api new) (or_checks ord (index_checks old)))"

lemma compareChecks_events:
  "o_events (compareChecks w ord base kind old new decorate out) =
     o_events out @ map (\<lambda>(c, a, b). check_event base kind decorate c a b) (changes (we_api w) ord old new)"
proof -
  let ?ev = "check_event base kind decorate"
  let ?mk = "\<lambda>(c, a, b). ?ev c a b"
  have new: "o_events (check_new (we_api w) ?ev (index_checks old) x s) =
      o_events s @ map ?mk (new_changes (we_api w) old x)" for x s
    by (cases x) (simp add: check_new_def new_changes_def check_change_def split: option.split)
  have gone: "o_events (check_gone (we_api w) ?ev (index_checks new) x s) =
      o_events s @ map ?mk (gone_changes (we_api w) new x)" for x s
    by (cases x) (simp add: check_gone_def gone_changes_def check_change_def split: option.split)
  show ?thesis
    unfolding compareChecks_def Let_def changes_def
    by (subst fold_appends[where pr = o_events, OF gone], subst fold_appends[where pr = o_events, OF new])
      (simp add: map_concat comp_def)
qed

lemma check_frame [simp]:
  "o_instances (check_new api ev m x out) = o_instances out" "o_marks (check_new api ev m x out) = o_marks out"
  "o_instances (check_gone api ev m x out) = o_instances out" "o_marks (check_gone api ev m x out) = o_marks out"
  by (cases x; simp add: check_new_def check_gone_def split: option.split)+

lemma compareChecks_frame [simp]:
  "o_instances (compareChecks w ord base kind old new decorate out) = o_instances out"
  "o_marks (compareChecks w ord base kind old new decorate out) = o_marks out"
  by (simp_all add: compareChecks_def Let_def fold_keeps[where pr = o_instances] fold_keeps[where pr = o_marks])

lemma orders_lookup:
  assumes "orders_ok ord"
  shows "distinct (map fst (or_checks ord (index_checks cs)))"
    and "map_of (or_checks ord (index_checks cs)) cid = check_at cs cid"
    and "distinct (map fst (or_instances ord (fst (indexInstances api ins))))"
    and "map_of (or_instances ord (fst (indexInstances api ins))) k = instance_at ins k"
  using assms gomap_perm_lookup[of "index_checks cs" "or_checks ord (index_checks cs)"]
    gomap_perm_lookup[of "fst (indexInstances api ins)" "or_instances ord (fst (indexInstances api ins))"]
  by (simp_all add: orders_ok_def gomap_ok_def[symmetric])

lemma orders_in_checks: "orders_ok ord \<Longrightarrow> (cid, c) \<in> set (or_checks ord (index_checks cs)) \<Longrightarrow> check_at cs cid = Some c"
  using orders_lookup(1,2)[of ord cs] by (metis map_of_eq_Some_iff)

lemma orders_in_instances:
  "orders_ok ord \<Longrightarrow> (k, c) \<in> set (or_instances ord (fst (indexInstances api ins))) \<Longrightarrow> instance_at ins k = Some c"
  using orders_lookup(3,4)[of ord api ins] by (metis map_of_eq_Some_iff)

text \<open>Each check is reported once, when it appears, disappears or changes, whatever the order.\<close>

lemma changes_of_check:
  assumes "orders_ok ord"
  shows "filter (\<lambda>(c, a, b). hc_CheckID c = cid) (changes api ord old new) =
    check_change api (check_at old cid) (check_at new cid)"
proof -
  have ID: "hc_CheckID (fst x) = cid'" if "x \<in> set (check_change api p q)"
    "p = None \<or> hc_CheckID (the p) = cid'" "q = None \<or> hc_CheckID (the q) = cid'" for x p q cid'
    using that by (auto simp: check_change_def split: option.splits if_splits)
  have new_ID: "hc_CheckID (fst e) = cid'"
    if "(cid', c) \<in> set (or_checks ord (index_checks new))" "e \<in> set (new_changes api old (cid', c))" for cid' c e
    using that ID[of e "check_at old cid'" "Some c" cid'] check_at_ID[OF orders_in_checks[OF assms that(1)]]
      check_at_ID[of old cid'] by (cases "check_at old cid'") (auto simp: new_changes_def)
  have gone_ID: "hc_CheckID (fst e) = cid'"
    if "(cid', c) \<in> set (or_checks ord (index_checks old))" "e \<in> set (gone_changes api new (cid', c))" for cid' c e
    using that ID[of e "Some c" None cid'] check_at_ID[OF orders_in_checks[OF assms that(1)]]
    by (auto simp: gone_changes_def split: if_splits)
  have "filter (\<lambda>x. hc_CheckID (fst x) = cid) (changes api ord old new) =
      (case check_at new cid of None \<Rightarrow> [] | Some c \<Rightarrow> new_changes api old (cid, c)) @
      (case check_at old cid of None \<Rightarrow> [] | Some c \<Rightarrow> gone_changes api new (cid, c))"
    unfolding changes_def filter_append
    by (simp only: orders_lookup[OF assms]
        concat_keyed[where key = "\<lambda>x. hc_CheckID (fst x)", OF orders_lookup(1)[OF assms] new_ID]
        concat_keyed[where key = "\<lambda>x. hc_CheckID (fst x)", OF orders_lookup(1)[OF assms] gone_ID])
  then show ?thesis
    by (simp add: case_prod_unfold new_changes_def gone_changes_def check_change_def split: option.split)
qed

lemma compareChecks_of_check:
  assumes "orders_ok ord" "\<And>e. ev_CheckID (decorate e) = ev_CheckID e"
  shows "\<exists>es. o_events (compareChecks w ord base kind old new decorate out) = o_events out @ es \<and>
    (\<forall>cid. filter (\<lambda>e. ev_CheckID e = cid) es =
      map (\<lambda>(c, a, b). check_event base kind decorate c a b)
        (check_change (we_api w) (check_at old cid) (check_at new cid)))"
proof -
  let ?mk = "\<lambda>(c, a, b). check_event base kind decorate c a b"
  have "ev_CheckID (?mk x) = hc_CheckID (fst x)" for x
    by (cases x) (simp add: check_event_def assms(2))
  then have "filter (\<lambda>e. ev_CheckID e = cid) (map ?mk xs) =
      map ?mk (filter (\<lambda>(c, a, b). hc_CheckID c = cid) xs)" for cid xs
    by (simp add: filter_map comp_def case_prod_unfold)
  then show ?thesis
    unfolding compareChecks_events using changes_of_check[OF assms(1)] by simp
qed


subsection \<open>Announcing\<close>

definition announced :: "WatchEnv \<Rightarrow> Time \<Rightarrow> Node \<Rightarrow> NodeService \<Rightarrow> bool \<Rightarrow> Out \<Rightarrow> Out" where
  "announced w at n v force out =
     (let key = (n_Node n, s_ID v); fp = fnv64a (fingerprint_bytes n v) in
      if \<not> force \<and> (case map_of (o_marks out) key of None \<Rightarrow> False
           | Some m \<Rightarrow> im_fingerprint m = fp \<and> time_sub at (im_announced m) < instanceRefresh)
      then out
      else out\<lparr> o_marks := map_put (o_marks out) key \<lparr> im_fingerprint = fp, im_announced = at \<rparr>,
                o_instances := o_instances out @ [registration w at n v] \<rparr>)"

lemma announce_Some:
  "csn_Node csn = Some n \<Longrightarrow> csn_Service csn = Some v \<Longrightarrow>
   announce w at csn force out = Inr (announced w at n v force out)"
  by (simp add: announce_def announced_def fingerprint_def Let_def)

lemma announced_events [simp]: "o_events (announced w at n v force out) = o_events out"
  by (simp add: announced_def Let_def)

lemma announced_ok [simp]: "gomap_ok (o_marks out) \<Longrightarrow> gomap_ok (o_marks (announced w at n v force out))"
  by (simp add: announced_def Let_def)

text \<open>A mark is fresh when it carries the registration's fingerprint and is younger than a day.\<close>

definition fresh :: "Time \<Rightarrow> Node \<Rightarrow> NodeService \<Rightarrow> Marks \<Rightarrow> bool" where
  "fresh at n v marks \<longleftrightarrow> (case map_of marks (n_Node n, s_ID v) of None \<Rightarrow> False
     | Some m \<Rightarrow> im_fingerprint m = fnv64a (fingerprint_bytes n v) \<and>
         time_sub at (im_announced m) < instanceRefresh)"

lemma announced_fresh: "fresh at n v (o_marks (announced w at n v force out))"
  by (simp add: fresh_def announced_def Let_def time_sub_def instanceRefresh_def split: option.split)

lemma announced_other:
  "k \<noteq> (n_Node n, s_ID v) \<Longrightarrow> map_of (o_marks (announced w at n v force out)) k = map_of (o_marks out) k"
  by (simp add: announced_def Let_def)


subsection \<open>Comparing services\<close>

text \<open>One round of each loop, for entries whose pointers are set.\<close>

definition node_of :: "CheckServiceNode \<Rightarrow> Node" where
  "node_of csn = the (csn_Node csn)"

definition service_of :: "CheckServiceNode \<Rightarrow> NodeService" where
  "service_of csn = the (csn_Service csn)"

lemma csn_key_parts:
  "csn_key csn = Some k \<Longrightarrow> csn_Node csn = Some (node_of csn) \<and> csn_Service csn = Some (service_of csn) \<and>
     k = (n_Node (node_of csn), s_ID (service_of csn))"
  by (auto simp: csn_key_Some node_of_def service_of_def)

definition lifecycle_event :: "Event \<Rightarrow> Status \<Rightarrow> Status \<Rightarrow> Event" where
  "lifecycle_event base oldStatus newStatus =
     base\<lparr> ev_Kind := KindInstance, ev_OldServiceStatus := oldStatus, ev_NewServiceStatus := newStatus \<rparr>"

definition with_service :: "Status \<Rightarrow> Status \<Rightarrow> Event \<Rightarrow> Event" where
  "with_service oldStatus newStatus e = e\<lparr> ev_OldServiceStatus := oldStatus, ev_NewServiceStatus := newStatus \<rparr>"

definition new_step ::
    "WatchEnv \<Rightarrow> Orders \<Rightarrow> Time \<Rightarrow> (Node \<Rightarrow> NodeService \<Rightarrow> Event) \<Rightarrow> CheckServiceNode list \<Rightarrow>
     instanceKey \<times> CheckServiceNode \<Rightarrow> Out \<Rightarrow> Out" where
  "new_step w ord at base old = (\<lambda>(k, ns) out.
     let n = node_of ns; v = service_of ns; st = instanceStatus (we_api w) in
     case instance_at old k of
       None \<Rightarrow> announced w at n v True (emit (lifecycle_event (base n v) StatusMissing (st (csn_Checks ns))) out)
     | Some os \<Rightarrow> compareChecks w ord (base n v) KindCheck (serviceChecks (csn_Checks os)) (serviceChecks (csn_Checks ns))
         (with_service (st (csn_Checks os)) (st (csn_Checks ns))) (announced w at n v False out))"

definition gone_step ::
    "WatchEnv \<Rightarrow> (Node \<Rightarrow> NodeService \<Rightarrow> Event) \<Rightarrow> CheckServiceNode list \<Rightarrow> instanceKey \<times> CheckServiceNode \<Rightarrow> Out \<Rightarrow> Out" where
  "gone_step w base new = (\<lambda>(k, os) out.
     if instance_at new k = None
     then (emit (lifecycle_event (base (node_of os) (service_of os))
       (instanceStatus (we_api w) (csn_Checks os)) StatusMissing) out)\<lparr>o_marks := map_del (o_marks out) k\<rparr>
     else out)"

definition base_of :: "WatchEnv \<Rightarrow> Time \<Rightarrow> 64 word \<Rightarrow> CheckServiceNode list \<Rightarrow> CheckServiceNode list \<Rightarrow> Node \<Rightarrow> NodeService \<Rightarrow> Event" where
  "base_of w at index old new =
     base_event w at index (healthy (we_api w) old) (healthy (we_api w) new) (int (length new))"

lemma compareService_total:
  assumes "orders_ok ord"
  shows "compareService w ord at index old new out = Inr
    (fold (gone_step w (base_of w at index old new) new) (or_instances ord (fst (indexInstances (we_api w) old)))
      (fold (new_step w ord at (base_of w at index old new) old)
        (or_instances ord (fst (indexInstances (we_api w) new))) out))"
proof -
  let ?base = "base_of w at index old new"
  let ?err = "service_base w at index (healthy (we_api w) old) (healthy (we_api w) new) (int (length new))"
  have base: "?err csn = Inr (?base (node_of csn) (service_of csn))" if "csn_key csn = Some k" for csn k
    using csn_key_parts[OF that] by (simp add: service_base_def base_of_def)
  have key: "csn_key (snd x) = Some (fst x)"
    if "x \<in> set (or_instances ord (fst (indexInstances (we_api w) ins)))" for x ins
    using orders_in_instances[OF assms, of "fst x" "snd x"] that instance_at_key by fastforce
  have new: "service_new w ord at ?err (fst (indexInstances (we_api w) old)) x s = Inr (new_step w ord at ?base old x s)"
    if "x \<in> set (or_instances ord (fst (indexInstances (we_api w) new)))" for x s
    using base[OF key[OF that]] csn_key_parts[OF key[OF that]]
    by (cases x) (simp add: service_new_def new_step_def Let_def announce_Some lifecycle_event_def
        with_service_def[abs_def] split: option.split)
  have gone: "service_gone w ?err (fst (indexInstances (we_api w) new)) x s = Inr (gone_step w ?base new x s)"
    if "x \<in> set (or_instances ord (fst (indexInstances (we_api w) old)))" for x s
    using base[OF key[OF that]]
    by (cases x) (simp add: service_gone_def gone_step_def lifecycle_event_def emit_def split: option.split)
  show ?thesis
    unfolding compareService_def Let_def case_prod_unfold indexInstances_healthy
    by (simp add: fold_res_total[OF new] fold_res_total[OF gone])
qed

text \<open>The events one instance gives rise to.\<close>

definition new_events ::
    "WatchEnv \<Rightarrow> Orders \<Rightarrow> (Node \<Rightarrow> NodeService \<Rightarrow> Event) \<Rightarrow> CheckServiceNode list \<Rightarrow> instanceKey \<times> CheckServiceNode \<Rightarrow> Event list" where
  "new_events w ord base old = (\<lambda>(k, ns).
     let n = node_of ns; v = service_of ns; st = instanceStatus (we_api w) in
     case instance_at old k of
       None \<Rightarrow> [lifecycle_event (base n v) StatusMissing (st (csn_Checks ns))]
     | Some os \<Rightarrow> map (\<lambda>(c, a, b). check_event (base n v) KindCheck
           (with_service (st (csn_Checks os)) (st (csn_Checks ns))) c a b)
         (changes (we_api w) ord (serviceChecks (csn_Checks os)) (serviceChecks (csn_Checks ns))))"

definition gone_events ::
    "WatchEnv \<Rightarrow> (Node \<Rightarrow> NodeService \<Rightarrow> Event) \<Rightarrow> CheckServiceNode list \<Rightarrow> instanceKey \<times> CheckServiceNode \<Rightarrow> Event list" where
  "gone_events w base new = (\<lambda>(k, os). if instance_at new k = None
     then [lifecycle_event (base (node_of os) (service_of os)) (instanceStatus (we_api w) (csn_Checks os)) StatusMissing]
     else [])"

lemma new_step_events: "o_events (new_step w ord at base old x out) = o_events out @ new_events w ord base old x"
  by (cases x) (simp add: new_step_def new_events_def Let_def compareChecks_events split: option.split)

lemma gone_step_events: "o_events (gone_step w base new x out) = o_events out @ gone_events w base new x"
  by (cases x) (simp add: gone_step_def gone_events_def)

definition event_key :: "Event \<Rightarrow> instanceKey" where
  "event_key e = (ev_NodeName e, ev_ServiceID e)"

lemma base_of_key: "event_key (base_of w at index old new n v) = (n_Node n, s_ID v)"
  by (simp add: base_of_def base_event_def event_key_def case_prod_unfold Let_def)

lemma event_key_frame [simp]:
  "event_key (lifecycle_event e a b) = event_key e"
  "event_key (with_service p q e) = event_key e"
  "event_key (check_event e kind (with_service p q) c a b) = event_key e"
  by (simp_all add: event_key_def lifecycle_event_def with_service_def check_event_def)

lemma compareService_by_key:
  assumes "orders_ok ord"
  shows "\<exists>out' es. compareService w ord at index old new out = Inr out' \<and> o_events out' = o_events out @ es \<and>
    (\<forall>k. filter (\<lambda>e. event_key e = k) es =
      (case instance_at new k of None \<Rightarrow> [] | Some ns \<Rightarrow> new_events w ord (base_of w at index old new) old (k, ns)) @
      (case instance_at old k of None \<Rightarrow> [] | Some os \<Rightarrow> gone_events w (base_of w at index old new) new (k, os)))"
proof -
  let ?base = "base_of w at index old new"
  let ?new = "or_instances ord (fst (indexInstances (we_api w) new))"
  let ?old = "or_instances ord (fst (indexInstances (we_api w) old))"
  have key: "(n_Node (node_of csn), s_ID (service_of csn)) = k"
    if "(k, csn) \<in> set (or_instances ord (fst (indexInstances (we_api w) ins)))" for k csn ins
    using orders_in_instances[OF assms that] instance_at_key csn_key_parts by blast
  have new: "event_key e = k" if "(k, csn) \<in> set ?new" "e \<in> set (new_events w ord ?base old (k, csn))" for k csn e
    using that(2) key[OF that(1)]
    by (auto simp: new_events_def Let_def base_of_key split: option.splits)
  have gone: "event_key e = k" if "(k, csn) \<in> set ?old" "e \<in> set (gone_events w ?base new (k, csn))" for k csn e
    using that(2) key[OF that(1)] by (auto simp: gone_events_def base_of_key split: if_splits)
  show ?thesis
  proof (intro exI conjI allI)
    show "compareService w ord at index old new out = Inr (fold (gone_step w ?base new) ?old (fold (new_step w ord at ?base old) ?new out))"
      by (rule compareService_total[OF assms])
    show "o_events (fold (gone_step w ?base new) ?old (fold (new_step w ord at ?base old) ?new out)) = o_events out @
        (concat (map (new_events w ord ?base old) ?new) @ concat (map (gone_events w ?base new) ?old))"
      by (simp add: fold_appends[where pr = o_events, OF gone_step_events] fold_appends[where pr = o_events, OF new_step_events])
    show "filter (\<lambda>e. event_key e = k) (concat (map (new_events w ord ?base old) ?new) @ concat (map (gone_events w ?base new) ?old)) =
      (case instance_at new k of None \<Rightarrow> [] | Some ns \<Rightarrow> new_events w ord ?base old (k, ns)) @
      (case instance_at old k of None \<Rightarrow> [] | Some os \<Rightarrow> gone_events w ?base new (k, os))" for k
      unfolding filter_append
      by (simp only: orders_lookup[OF assms] concat_keyed[where key = event_key, OF orders_lookup(3)[OF assms] new]
          concat_keyed[where key = event_key, OF orders_lookup(3)[OF assms] gone])
  qed
qed


subsection \<open>Marks after a comparison\<close>

lemma new_step_marks:
  "o_marks (new_step w ord at base old (k, ns) out) =
     o_marks (announced w at (node_of ns) (service_of ns) (instance_at old k = None) (out\<lparr>o_events := []\<rparr>))"
  by (simp add: new_step_def Let_def announced_def split: option.split)

lemma fresh_other: "map_of m' (n_Node n, s_ID v) = map_of m (n_Node n, s_ID v) \<Longrightarrow> fresh at n v m' = fresh at n v m"
  by (simp add: fresh_def)

definition marks_ok :: "Time \<Rightarrow> CheckServiceNode list \<Rightarrow> Marks \<Rightarrow> bool" where
  "marks_ok at ins marks \<longleftrightarrow> gomap_ok marks \<and> fst ` set marks = {k. instance_at ins k \<noteq> None} \<and>
     (\<forall>k csn. instance_at ins k = Some csn \<longrightarrow> fresh at (node_of csn) (service_of csn) marks)"

lemma new_steps_marks:
  assumes "\<And>k csn. (k, csn) \<in> set m \<Longrightarrow> csn_key csn = Some k" "distinct (map fst m)" "gomap_ok (o_marks out)"
  shows "gomap_ok (o_marks (fold (new_step w ord at base old) m out)) \<and>
    fst ` set (o_marks (fold (new_step w ord at base old) m out)) = fst ` set (o_marks out) \<union> fst ` set m \<and>
    (\<forall>(k, csn) \<in> set m. fresh at (node_of csn) (service_of csn) (o_marks (fold (new_step w ord at base old) m out)))"
  using assms
proof (induction m rule: rev_induct)
  case Nil
  then show ?case by simp
next
  case (snoc x m)
  obtain k ns where x: "x = (k, ns)" by (cases x)
  let ?out = "fold (new_step w ord at base old) m out"
  let ?out' = "new_step w ord at base old (k, ns) ?out"
  let ?n = "node_of ns" and ?v = "service_of ns"
  have k: "k = (n_Node ?n, s_ID ?v)"
    using snoc.prems(1)[of k ns] x csn_key_parts by simp
  have IH: "gomap_ok (o_marks ?out)" "fst ` set (o_marks ?out) = fst ` set (o_marks out) \<union> fst ` set m"
    "\<forall>(k, csn) \<in> set m. fresh at (node_of csn) (service_of csn) (o_marks ?out)"
    using snoc by auto
  have ok: "gomap_ok (o_marks ?out')"
    unfolding new_step_marks by (simp add: IH(1))
  have here: "fresh at ?n ?v (o_marks ?out')"
    unfolding new_step_marks by (rule announced_fresh)
  have other: "map_of (o_marks ?out') k' = map_of (o_marks ?out) k'" if "k' \<noteq> k" for k'
    using announced_other[of k' ?n ?v] that k unfolding new_step_marks by simp
  have dom: "fst ` set (o_marks ?out') = insert k (fst ` set (o_marks ?out))"
  proof -
    have "k \<in> dom (map_of (o_marks ?out'))"
      using here k by (auto simp: fresh_def split: option.splits)
    then have "k' \<in> dom (map_of (o_marks ?out')) \<longleftrightarrow> k' = k \<or> k' \<in> dom (map_of (o_marks ?out))" for k'
      by (cases "k' = k") (simp_all add: domIff other)
    then have "dom (map_of (o_marks ?out')) = insert k (dom (map_of (o_marks ?out)))"
      by blast
    then show ?thesis by (simp add: dom_map_of_conv_image_fst)
  qed
  have "fresh at (node_of csn) (service_of csn) (o_marks ?out')" if "(k', csn) \<in> set m" for k' csn
  proof -
    have "k' \<noteq> k"
      using that snoc.prems(2) x by force
    moreover have "k' = (n_Node (node_of csn), s_ID (service_of csn))"
      using snoc.prems(1)[of k' csn] that csn_key_parts by simp
    ultimately show ?thesis
      using IH(3) that fresh_other[OF other] by blast
  qed
  then show ?case
    using ok here dom IH(2) x by auto
qed

lemma gone_steps_marks:
  "gomap_ok (o_marks out) \<Longrightarrow>
   gomap_ok (o_marks (fold (gone_step w base new) m out)) \<and>
   map_of (o_marks (fold (gone_step w base new) m out)) =
     (\<lambda>k. if k \<in> fst ` set m \<and> instance_at new k = None then None else map_of (o_marks out) k)"
proof (induction m rule: rev_induct)
  case Nil
  then show ?case by simp
next
  case (snoc x m)
  then show ?case
    by (cases x) (auto simp: gone_step_def fun_eq_iff)
qed

lemma compareService_marks:
  assumes "orders_ok ord" "gomap_ok (o_marks out)" "fst ` set (o_marks out) = {k. instance_at old k \<noteq> None}"
    and "compareService w ord at index old new out = Inr out'"
  shows "marks_ok at new (o_marks out')"
proof -
  let ?base = "base_of w at index old new"
  let ?new = "or_instances ord (fst (indexInstances (we_api w) new))"
  let ?old = "or_instances ord (fst (indexInstances (we_api w) old))"
  let ?mid = "fold (new_step w ord at ?base old) ?new out"
  have out': "out' = fold (gone_step w ?base new) ?old ?mid"
    using assms(4) unfolding compareService_total[OF assms(1)] by simp
  have keys: "fst ` set (or_instances ord (fst (indexInstances (we_api w) ins))) = {k. instance_at ins k \<noteq> None}" for ins
    unfolding dom_map_of_conv_image_fst[symmetric] dom_def orders_lookup(4)[OF assms(1)] ..
  have ckey: "csn_key csn = Some k" if "(k, csn) \<in> set ?new" for k csn
    using orders_in_instances[OF assms(1) that] instance_at_key by blast
  note mid = new_steps_marks[OF ckey orders_lookup(3)[OF assms(1)] assms(2),
      where w = w and at = at and base = ?base and old = old and ord = ord]
  have fin: "gomap_ok (o_marks out')" "map_of (o_marks out') =
      (\<lambda>k. if k \<in> fst ` set ?old \<and> instance_at new k = None then None else map_of (o_marks ?mid) k)"
    unfolding out' using gone_steps_marks mid by blast+
  have "dom (map_of (o_marks ?mid)) = {k. instance_at old k \<noteq> None} \<union> {k. instance_at new k \<noteq> None}"
    unfolding dom_map_of_conv_image_fst using mid keys[of new] assms(3) by auto
  then have mid_dom: "map_of (o_marks ?mid) k \<noteq> None \<longleftrightarrow> instance_at old k \<noteq> None \<or> instance_at new k \<noteq> None" for k
    by (metis (mono_tags, lifting) UnE UnI1 UnI2 domIff mem_Collect_eq)
  have "dom (map_of (o_marks out')) = {k. instance_at new k \<noteq> None}"
  proof (rule set_eqI)
    show "k \<in> dom (map_of (o_marks out')) \<longleftrightarrow> k \<in> {k. instance_at new k \<noteq> None}" for k
      unfolding fin(2) keys domIff mem_Collect_eq using mid_dom[of k] by (simp split: if_split)
  qed
  moreover have "fresh at (node_of csn) (service_of csn) (o_marks out')" if "instance_at new k = Some csn" for k csn
  proof -
    have "(k, csn) \<in> set ?new"
      using that orders_lookup(3,4)[OF assms(1)] by (metis map_of_eq_Some_iff)
    then have "fresh at (node_of csn) (service_of csn) (o_marks ?mid)"
      using mid by blast
    moreover have "k = (n_Node (node_of csn), s_ID (service_of csn))"
      using instance_at_key[OF that] csn_key_parts by blast
    ultimately show ?thesis
      using that fin(2) by (simp add: fresh_def)
  qed
  ultimately show ?thesis
    using fin(1) by (simp add: marks_ok_def flip: dom_map_of_conv_image_fst)
qed


subsection \<open>Aggregation and fingerprints\<close>

definition in_maintenance :: "ConsulApi \<Rightarrow> HealthCheck \<Rightarrow> bool" where
  "in_maintenance api c \<longleftrightarrow> hc_CheckID c = NodeMaint api \<or> HasPrefix (hc_CheckID c) (ServiceMaintPrefix api)"

definition has_status :: "ConsulApi \<Rightarrow> string \<Rightarrow> HealthCheck list \<Rightarrow> bool" where
  "has_status api st cs \<longleftrightarrow> (\<exists>c \<in> set cs. \<not> in_maintenance api c \<and> hc_Status c = st)"

lemma aggregate_flags:
  assumes "api_ok api"
  shows "fl_maintenance (fold (aggregate_one api) cs f) \<longleftrightarrow> fl_maintenance f \<or> (\<exists>c \<in> set cs. in_maintenance api c)"
    and "fl_critical (fold (aggregate_one api) cs f) \<longleftrightarrow> fl_critical f \<or> has_status api (HealthCritical api) cs"
    and "fl_warning (fold (aggregate_one api) cs f) \<longleftrightarrow> fl_warning f \<or> has_status api (HealthWarning api) cs"
    and "fl_passing (fold (aggregate_one api) cs f) \<longleftrightarrow> fl_passing f \<or> has_status api (HealthPassing api) cs"
  using assms
  by (induction cs arbitrary: f) (auto simp: aggregate_one_def has_status_def in_maintenance_def api_ok_def)

lemma writeMap_perm: "gomap_ok m \<Longrightarrow> mset m' = mset m \<Longrightarrow> writeMap m' = writeMap m"
proof -
  assume *: "gomap_ok m" "mset m' = mset m"
  have "sort_Strings (map fst m') = sort_Strings (map fst m)"
    by (rule sort_Strings_perm) (simp add: *(2))
  then show ?thesis
    by (simp only: writeMap_def map_get_perm[OF *])
qed


subsection \<open>What is sent\<close>

text \<open>Every mark stands for a registration that was sent to storage.\<close>

definition marks_sent :: "WatchEnv \<Rightarrow> Out \<Rightarrow> bool" where
  "marks_sent w out \<longleftrightarrow> (\<forall>k m. map_of (o_marks out) k = Some m \<longrightarrow>
     (\<exists>n v. k = (n_Node n, s_ID v) \<and> im_fingerprint m = fnv64a (fingerprint_bytes n v) \<and>
       registration w (im_announced m) n v \<in> set (o_instances out)))"

lemma marks_sent_announced: "marks_sent w out \<Longrightarrow> marks_sent w (announced w at n v force out)"
proof -
  assume sent: "marks_sent w out"
  let ?key = "(n_Node n, s_ID v)"
  let ?mark = "\<lparr> im_fingerprint = fnv64a (fingerprint_bytes n v), im_announced = at \<rparr>"
  let ?out = "out\<lparr> o_marks := map_put (o_marks out) ?key ?mark, o_instances := o_instances out @ [registration w at n v] \<rparr>"
  have "\<exists>n v. k = (n_Node n, s_ID v) \<and> im_fingerprint m = fnv64a (fingerprint_bytes n v) \<and>
      registration w (im_announced m) n v \<in> set (o_instances ?out)" if "map_of (o_marks ?out) k = Some m" for k m
  proof (cases "k = ?key")
    case True
    with that have "m = ?mark" by simp
    with True show ?thesis by (intro exI[of _ n] exI[of _ v]) simp
  next
    case False
    with that have "map_of (o_marks out) k = Some m" by simp
    then show ?thesis
      using sent unfolding marks_sent_def by fastforce
  qed
  then have "marks_sent w ?out"
    unfolding marks_sent_def by blast
  moreover have "announced w at n v force out = out \<or> announced w at n v force out = ?out"
    by (simp add: announced_def Let_def)
  ultimately show ?thesis
    using sent by metis
qed

lemma marks_sent_frame:
  "o_marks out' = o_marks out \<Longrightarrow> o_instances out' = o_instances out \<Longrightarrow> marks_sent w out' = marks_sent w out"
  by (simp add: marks_sent_def)

lemma marks_sent_new:
  assumes "marks_sent w out"
  shows "marks_sent w (new_step w ord at base old x out)"
proof -
  obtain k ns where x: "x = (k, ns)" by (cases x)
  let ?force = "instance_at old k = None"
  have "marks_sent w (announced w at (node_of ns) (service_of ns) ?force (out\<lparr>o_events := []\<rparr>))"
    using assms by (intro marks_sent_announced) (simp add: marks_sent_def)
  moreover have "o_instances (new_step w ord at base old x out) =
      o_instances (announced w at (node_of ns) (service_of ns) ?force (out\<lparr>o_events := []\<rparr>))"
    by (simp add: x new_step_def Let_def announced_def split: option.split)
  ultimately show ?thesis
    using marks_sent_frame x new_step_marks by metis
qed

lemma marks_sent_gone: "marks_sent w out \<Longrightarrow> marks_sent w (gone_step w base new x out)"
  by (cases x) (auto simp: gone_step_def marks_sent_def)

lemma compareService_sent:
  assumes "orders_ok ord" "marks_sent w out" "compareService w ord at index old new out = Inr out'"
  shows "marks_sent w out'"
proof -
  have new: "marks_sent w (fold (new_step w ord at base old) m out)" for base m
    by (rule fold_invariant_list) (simp_all only: assms(2) marks_sent_new)
  have "marks_sent w (fold (gone_step w base new) m' (fold (new_step w ord at base old) m out))" for base m m'
    by (rule fold_invariant_list) (simp_all only: new marks_sent_gone)
  moreover have "Inr out' = compareService w ord at index old new out"
    by (simp only: assms(3))
  ultimately show ?thesis
    unfolding compareService_total[OF assms(1)] sum.inject by (simp only:)
qed


subsection \<open>Replaying check events\<close>

definition check_statuses :: "ConsulApi \<Rightarrow> HealthCheck list \<Rightarrow> string \<Rightarrow> Status" where
  "check_statuses api cs cid = (case check_at cs cid of None \<Rightarrow> StatusMissing | Some c \<Rightarrow> StatusFromConsul api (hc_Status c))"

definition replay :: "Event list \<Rightarrow> (string \<Rightarrow> Status) \<Rightarrow> string \<Rightarrow> Status" where
  "replay es st = fold (\<lambda>e st. st(ev_CheckID e := ev_NewCheckStatus e)) es st"

lemma replay_cong: "st cid = st' cid \<Longrightarrow> replay es st cid = replay es st' cid"
  unfolding replay_def
proof (induction es arbitrary: st st')
  case Nil
  then show ?case by simp
next
  case (Cons e es)
  show ?case
    unfolding fold_Cons comp_apply by (rule Cons.IH) (simp add: Cons.prems)
qed

lemma replay_Cons: "replay (e # es) st = replay es (st(ev_CheckID e := ev_NewCheckStatus e))"
  by (simp add: replay_def)

lemma replay_at: "replay es st cid = replay (filter (\<lambda>e. ev_CheckID e = cid) es) st cid"
proof (induction es arbitrary: st)
  case Nil
  then show ?case by simp
next
  case (Cons e es)
  show ?case
  proof (cases "ev_CheckID e = cid")
    case True
    then show ?thesis
      by (simp only: filter.simps if_True simp_thms replay_Cons) (rule Cons.IH)
  next
    case False
    then have "replay es (st(ev_CheckID e := ev_NewCheckStatus e)) cid = replay es st cid"
      by (intro replay_cong) simp
    with False show ?thesis
      using Cons by (simp add: replay_Cons)
  qed
qed

lemma change_statuses:
  "fold (\<lambda>e st. st(ev_CheckID e := ev_NewCheckStatus e))
     (map (\<lambda>(c, a, b). check_event base kind decorate c a b) (check_change api (check_at old cid) (check_at new cid)))
     (check_statuses api old) cid = check_statuses api new cid"
  if "\<And>e. ev_CheckID (decorate e) = ev_CheckID e" "\<And>e. ev_NewCheckStatus (decorate e) = ev_NewCheckStatus e"
  using check_at_ID[of old cid] check_at_ID[of new cid]
  by (auto simp: check_change_def check_statuses_def check_event_def that split: option.split)

lemma one_of_each:
  assumes "mset es' = mset es" "length (filter P es) \<le> 1"
  shows "filter P es' = filter P es"
proof -
  have "mset (filter P es') = mset (filter P es)"
    using assms(1) by (simp add: mset_filter)
  with assms(2) show ?thesis
  proof (cases "filter P es")
    case Nil
    then show ?thesis
      using \<open>mset (filter P es') = mset (filter P es)\<close> by (metis mset_zero_iff)
  next
    case (Cons e r)
    with assms(2) have single: "filter P es = [e]" by simp
    then have "mset (filter P es') = {#e#}"
      using \<open>mset (filter P es') = mset (filter P es)\<close> by simp
    then have "filter P es' = [e]"
      unfolding mset_single_iff .
    with single show ?thesis by simp
  qed
qed

lemma length_check_change: "length (check_change api a b) \<le> 1"
  by (simp add: check_change_def split: option.split)


section \<open>Properties\<close>

text \<open>
  C1: the events of a service are exactly its changes. Whatever the two replies, the
  comparison does not panic, and whatever order Go's maps have: an instance that only the new
  reply holds gives one registration event, one that only the old reply holds one
  deregistration event; for one in both, each service check gives one event when it appeared,
  disappeared or changed its status and none otherwise; nothing else is sent. Every event
  carries the numbers of healthy instances before and after.
\<close>

theorem service_events_exact:
  fixes old new :: "CheckServiceNode list" and w :: WatchEnv and at :: Time and index :: "64 word"
  assumes "orders_ok ord"
  defines "base \<equiv> \<lambda>csn. base_event w at index (healthy (we_api w) old) (healthy (we_api w) new) (int (length new))
    (node_of csn) (service_of csn)"
  shows "\<exists>out' es. compareService w ord at index old new out = Inr out' \<and> o_events out' = o_events out @ es \<and>
    (\<forall>k. case (instance_at old k, instance_at new k) of
        (None, None) \<Rightarrow> filter (\<lambda>e. event_key e = k) es = []
      | (None, Some ns) \<Rightarrow> filter (\<lambda>e. event_key e = k) es =
          [lifecycle_event (base ns) StatusMissing (instanceStatus (we_api w) (csn_Checks ns))]
      | (Some os, None) \<Rightarrow> filter (\<lambda>e. event_key e = k) es =
          [lifecycle_event (base os) (instanceStatus (we_api w) (csn_Checks os)) StatusMissing]
      | (Some os, Some ns) \<Rightarrow> (\<forall>cid. filter (\<lambda>e. event_key e = k \<and> ev_CheckID e = cid) es =
          map (\<lambda>(c, a, b). check_event (base ns) KindCheck
              (with_service (instanceStatus (we_api w) (csn_Checks os)) (instanceStatus (we_api w) (csn_Checks ns))) c a b)
            (check_change (we_api w) (check_at (serviceChecks (csn_Checks os)) cid)
              (check_at (serviceChecks (csn_Checks ns)) cid))))"
proof -
  let ?b = "base_of w at index old new"
  have base: "base csn = ?b (node_of csn) (service_of csn)" for csn
    by (simp add: base_def base_of_def)
  obtain out' es where es: "compareService w ord at index old new out = Inr out'" "o_events out' = o_events out @ es"
    and by_key: "\<And>k. filter (\<lambda>e. event_key e = k) es =
      (case instance_at new k of None \<Rightarrow> [] | Some ns \<Rightarrow> new_events w ord ?b old (k, ns)) @
      (case instance_at old k of None \<Rightarrow> [] | Some os \<Rightarrow> gone_events w ?b new (k, os))"
    using compareService_by_key[OF assms(1)] by blast
  have both: "filter (\<lambda>e. event_key e = k \<and> ev_CheckID e = cid) es =
      map (\<lambda>(c, a, b). check_event (base ns) KindCheck
        (with_service (instanceStatus (we_api w) (csn_Checks os)) (instanceStatus (we_api w) (csn_Checks ns))) c a b)
      (check_change (we_api w) (check_at (serviceChecks (csn_Checks os)) cid) (check_at (serviceChecks (csn_Checks ns)) cid))"
    if "instance_at old k = Some os" "instance_at new k = Some ns" for k os ns cid
  proof -
    let ?mk = "\<lambda>(c, a, b). check_event (base ns) KindCheck
        (with_service (instanceStatus (we_api w) (csn_Checks os)) (instanceStatus (we_api w) (csn_Checks ns))) c a b"
    have "filter (\<lambda>e. event_key e = k \<and> ev_CheckID e = cid) es = filter (\<lambda>e. ev_CheckID e = cid) (filter (\<lambda>e. event_key e = k) es)"
      by (simp add: conj_commute)
    also have "\<dots> = filter (\<lambda>e. ev_CheckID e = cid)
        (map ?mk (changes (we_api w) ord (serviceChecks (csn_Checks os)) (serviceChecks (csn_Checks ns))))"
      using that by (simp add: by_key new_events_def gone_events_def base Let_def)
    also have "\<dots> = map ?mk (filter (\<lambda>(c, a, b). hc_CheckID c = cid)
        (changes (we_api w) ord (serviceChecks (csn_Checks os)) (serviceChecks (csn_Checks ns))))"
      by (simp add: filter_map comp_def case_prod_unfold check_event_def with_service_def)
    finally show ?thesis
      unfolding changes_of_check[OF assms(1)] .
  qed
  show ?thesis
    using es both by (intro exI[of _ out'] exI[of _ es])
      (auto simp: by_key new_events_def gone_events_def base Let_def split: option.split)
qed

text \<open>
  C34: replaying the check events of a comparison on the old statuses gives the new ones: in
  the order sent or in any other, every check of either state ends up with its new status,
  missing when it is gone.
\<close>

theorem check_events_replay:
  assumes "orders_ok ord" "\<And>e. ev_CheckID (decorate e) = ev_CheckID e"
    and "\<And>e. ev_NewCheckStatus (decorate e) = ev_NewCheckStatus e"
  shows "\<exists>es. o_events (compareChecks w ord base kind old new decorate out) = o_events out @ es \<and>
    (\<forall>es'. mset es' = mset es \<longrightarrow>
      replay es' (check_statuses (we_api w) old) = check_statuses (we_api w) new)"
proof -
  obtain es where es: "o_events (compareChecks w ord base kind old new decorate out) = o_events out @ es"
    and by_check: "\<And>cid. filter (\<lambda>e. ev_CheckID e = cid) es = map (\<lambda>(c, a, b). check_event base kind decorate c a b)
        (check_change (we_api w) (check_at old cid) (check_at new cid))"
    using compareChecks_of_check[OF assms(1,2)] by blast
  have "replay es' (check_statuses (we_api w) old) cid = check_statuses (we_api w) new cid"
    if "mset es' = mset es" for es' cid
  proof -
    have "filter (\<lambda>e. ev_CheckID e = cid) es' = filter (\<lambda>e. ev_CheckID e = cid) es"
      using that by (rule one_of_each) (simp only: by_check length_map length_check_change)
    then show ?thesis
      using change_statuses[OF assms(2,3)] unfolding replay_at[of es'] by (simp add: by_check replay_def)
  qed
  with es show ?thesis by blast
qed

text \<open>
  The events of a node are exactly the changes of its node-level checks, each with the
  node's status before and after; a node that left the catalog gives a single event, with the
  status missing after it.
\<close>

theorem node_events_exact:
  assumes "orders_ok ord"
  shows "(\<exists>e. o_events (compareNode w ord at index node old None out) = o_events out @ [e] \<and> ev_Kind e = KindNode \<and>
      ev_NodeName e = n_Node node \<and> ev_OldNodeStatus e = nodeStatus (we_api w) old \<and> ev_NewNodeStatus e = StatusMissing) \<and>
    (\<exists>es. o_events (compareNode w ord at index node old (Some new) out) = o_events out @ es \<and>
      (\<forall>e \<in> set es. ev_Kind e = KindNode \<and> ev_NodeName e = n_Node node \<and>
        ev_OldNodeStatus e = nodeStatus (we_api w) old \<and> ev_NewNodeStatus e = nodeStatus (we_api w) new) \<and>
      (\<forall>cid. map (\<lambda>e. (ev_OldCheckStatus e, ev_NewCheckStatus e)) (filter (\<lambda>e. ev_CheckID e = cid) es) =
        map snd (check_change (we_api w) (check_at old cid) (check_at new cid))))"
proof (intro conjI)
  show "\<exists>e. o_events (compareNode w ord at index node old None out) = o_events out @ [e] \<and> ev_Kind e = KindNode \<and>
      ev_NodeName e = n_Node node \<and> ev_OldNodeStatus e = nodeStatus (we_api w) old \<and> ev_NewNodeStatus e = StatusMissing"
    by (simp add: compareNode_def nodeStatus_def)
next
  let ?base = "zero_event\<lparr> ev_Time := at, ev_Datacenter := we_Datacenter w, ev_ConsulIndex := index,
    ev_Kind := KindNode, ev_NodeName := n_Node node, ev_NodeIP := n_Address node,
    ev_OldNodeStatus := nodeStatus (we_api w) old, ev_NewNodeStatus := nodeStatus (we_api w) new \<rparr>"
  let ?mk = "\<lambda>(c, a, b). check_event ?base KindNode (\<lambda>e. e) c a b"
  let ?es = "map ?mk (changes (we_api w) ord old new)"
  have "o_events (compareNode w ord at index node old (Some new) out) = o_events out @ ?es"
    by (simp add: compareNode_def compareChecks_events)
  moreover have "\<forall>e \<in> set ?es. ev_Kind e = KindNode \<and> ev_NodeName e = n_Node node \<and>
      ev_OldNodeStatus e = nodeStatus (we_api w) old \<and> ev_NewNodeStatus e = nodeStatus (we_api w) new"
    by (auto simp: check_event_def)
  moreover have "map (\<lambda>e. (ev_OldCheckStatus e, ev_NewCheckStatus e)) (filter (\<lambda>e. ev_CheckID e = cid) ?es) =
      map snd (filter (\<lambda>(c, a, b). hc_CheckID c = cid) (changes (we_api w) ord old new))" for cid
    by (simp add: filter_map comp_def case_prod_unfold check_event_def)
  ultimately show "\<exists>es. o_events (compareNode w ord at index node old (Some new) out) = o_events out @ es \<and>
      (\<forall>e \<in> set es. ev_Kind e = KindNode \<and> ev_NodeName e = n_Node node \<and>
        ev_OldNodeStatus e = nodeStatus (we_api w) old \<and> ev_NewNodeStatus e = nodeStatus (we_api w) new) \<and>
      (\<forall>cid. map (\<lambda>e. (ev_OldCheckStatus e, ev_NewCheckStatus e)) (filter (\<lambda>e. ev_CheckID e = cid) es) =
        map snd (check_change (we_api w) (check_at old cid) (check_at new cid)))"
    unfolding changes_of_check[OF assms] by blast
qed

text \<open>
  The status of an instance is the worst of its checks: maintenance (a maintenance check
  is present, whatever its own status), else critical, else warning, else passing; unknown
  when no check has a known status; an instance without checks passes.
\<close>

theorem instance_status_priority:
  assumes "api_ok api"
  shows "instanceStatus api cs =
    (if cs = [] then StatusPassing
     else if \<exists>c \<in> set cs. in_maintenance api c then StatusMaintenance
     else if has_status api (HealthCritical api) cs then StatusCritical
     else if has_status api (HealthWarning api) cs then StatusWarning
     else if has_status api (HealthPassing api) cs then StatusPassing
     else StatusUnknown)"
  by (simp add: instanceStatus_def aggregate_def Let_def aggregate_flags[OF assms])

text \<open>
  C36: registrations are announced when they must be. After a comparison every instance of the
  new reply, and no other, has a mark; the mark carries the fingerprint of its registration and
  is younger than a day; and for every mark the registration it stands for was sent to storage
  at the time it carries.
\<close>

theorem announcements_cover_instances:
  assumes "orders_ok ord" "gomap_ok (o_marks out)" "fst ` set (o_marks out) = {k. instance_at old k \<noteq> None}"
    and "marks_sent w out"
  shows "\<exists>out'. compareService w ord at index old new out = Inr out' \<and>
    marks_ok at new (o_marks out') \<and> marks_sent w out'"
proof -
  obtain out' where "compareService w ord at index old new out = Inr out'"
    using compareService_by_key[OF assms(1)] by blast
  with compareService_marks[OF assms(1-3) this] compareService_sent[OF assms(1,4) this] show ?thesis
    by blast
qed

text \<open>
  The fingerprint does not depend on the order of the tags or of the entries of the two
  meta maps, which Consul and Go leave open.
\<close>

theorem fingerprint_order_free:
  assumes "gomap_ok (s_Meta v)" "gomap_ok (n_Meta n)"
    and "mset tags = mset (s_Tags v)" "mset m = mset (s_Meta v)" "mset nm = mset (n_Meta n)"
  shows "fingerprint \<lparr> csn_Node = Some (n\<lparr>n_Meta := nm\<rparr>),
      csn_Service = Some (v\<lparr>s_Tags := tags, s_Meta := m\<rparr>), csn_Checks = checks \<rparr> =
    fingerprint \<lparr> csn_Node = Some n, csn_Service = Some v, csn_Checks = checks' \<rparr>"
  by (simp add: fingerprint_def fingerprint_bytes_def sort_Strings_perm[OF assms(3)]
      writeMap_perm[OF assms(1,4)] writeMap_perm[OF assms(2,5)])

text \<open>
  Some changed registrations are not announced. The fingerprint does not cover the node's
  address, and writes a tag \<open>k=x\<close> and a meta entry \<open>k\<close> with value \<open>x\<close> as
  the same bytes; so within a day after an announcement neither a new address of the node nor
  a tag turned into a meta entry reaches the registry, although the record sent would differ.
\<close>

theorem announce_misses_changes:
  assumes "announce w at \<lparr> csn_Node = Some n, csn_Service = Some (v\<lparr>s_Tags := [k @ ''='' @ x], s_Meta := []\<rparr>),
      csn_Checks = cs \<rparr> True out = Inr out1"
    and "time_sub later at < instanceRefresh"
  shows "announce w later \<lparr> csn_Node = Some (n\<lparr>n_Address := a\<rparr>),
      csn_Service = Some (v\<lparr>s_Tags := [], s_Meta := [(k, x)]\<rparr>), csn_Checks = cs' \<rparr> False out1 = Inr out1"
proof -
  have "fingerprint_bytes (n\<lparr>n_Address := a\<rparr>) (v\<lparr>s_Tags := [], s_Meta := [(k, x)]\<rparr>) =
      fingerprint_bytes n (v\<lparr>s_Tags := [k @ ''='' @ x], s_Meta := []\<rparr>)"
    by (simp add: fingerprint_bytes_def writeMap_def sort_Strings_def map_get_def)
  then show ?thesis
    using assms by (auto simp: announce_Some announced_def Let_def)
qed


section \<open>Witnesses\<close>

definition sample_api :: ConsulApi where
  "sample_api = \<lparr> HealthPassing = ''passing'', HealthWarning = ''warning'', HealthCritical = ''critical'',
     HealthMaint = ''maintenance'', NodeMaint = ''_node_maintenance'', ServiceMaintPrefix = ''_service_maintenance:'' \<rparr>"

definition sample_env :: WatchEnv where
  "sample_env = \<lparr> we_api = sample_api, we_derive = DefaultDerive, we_Datacenter = ''dc1'' \<rparr>"

definition sample_orders :: Orders where
  "sample_orders = \<lparr> or_instances = \<lambda>m. m, or_checks = \<lambda>m. rev m \<rparr>"

definition sample_node :: Node where
  "sample_node = \<lparr> n_ID = [], n_Node = ''n1'', n_Address = ''10.0.0.1'', n_Datacenter = ''dc1'', n_Meta = [] \<rparr>"

definition sample_service :: NodeService where
  "sample_service = \<lparr> s_Kind = [], s_ID = ''web-1'', s_Service = ''web'', s_Tags = [''a'', ''b''],
     s_Address = [], s_Meta = [(''team'', ''x''), (''version'', ''2'')], s_Port = 80 \<rparr>"

definition sample_check :: "string \<Rightarrow> HealthCheck" where
  "sample_check st = \<lparr> hc_Node = ''n1'', hc_CheckID = ''c'', hc_Name = ''http'', hc_Status = st, hc_Notes = [],
     hc_Output = [], hc_ServiceID = ''web-1'', hc_ServiceName = ''web'', hc_Type = ''http'' \<rparr>"

definition sample_csn :: "string \<Rightarrow> CheckServiceNode" where
  "sample_csn st = \<lparr> csn_Node = Some sample_node, csn_Service = Some sample_service, csn_Checks = [sample_check st] \<rparr>"

definition empty_out :: Out where
  "empty_out = \<lparr> o_events = [], o_instances = [], o_marks = [] \<rparr>"

lemma sample_orders_ok: "orders_ok sample_orders"
  by (simp add: orders_ok_def sample_orders_def)

lemma sample_instance_at [simp]:
  "instance_at [] k = None"
  "instance_at [sample_csn st] (''n1'', ''web-1'') = Some (sample_csn st)"
  by (simp_all add: instance_at_def csn_key_def sample_csn_def sample_node_def sample_service_def)

lemma sample_parts [simp]:
  "we_api sample_env = sample_api" "csn_Checks (sample_csn st) = [sample_check st]"
  "node_of (sample_csn st) = sample_node" "service_of (sample_csn st) = sample_service"
  by (simp_all add: sample_env_def sample_csn_def node_of_def service_of_def)

text \<open>An instance that appears.\<close>

theorem service_events_exact_witness:
  "\<exists>out' e. compareService sample_env sample_orders 5 7 [] [sample_csn ''passing''] empty_out = Inr out' \<and>
      filter (\<lambda>e. event_key e = (''n1'', ''web-1'')) (o_events out') = [e] \<and> ev_OldServiceStatus e = StatusMissing"
  using service_events_exact[OF sample_orders_ok, of sample_env 5 7 "[]" "[sample_csn ''passing'']" empty_out]
  by (auto simp: empty_out_def lifecycle_event_def dest!: spec[of _ "(''n1'', ''web-1'')"] split: option.splits)

text \<open>A check that turns critical.\<close>

lemma sample_statuses:
  "check_statuses sample_api [sample_check st] ''c'' = StatusFromConsul sample_api st"
  by (simp add: check_statuses_def check_at_def sample_check_def)

theorem check_events_replay_witness:
  "\<exists>es. o_events (compareChecks sample_env sample_orders zero_event KindCheck [sample_check ''passing'']
      [sample_check ''critical''] (\<lambda>e. e) empty_out) = es \<and>
    replay es (check_statuses sample_api [sample_check ''passing'']) ''c'' = StatusCritical"
proof -
  have critical: "check_statuses sample_api [sample_check ''critical''] ''c'' = StatusCritical"
    unfolding sample_statuses by (simp add: StatusFromConsul_def sample_api_def)
  obtain es where "o_events (compareChecks sample_env sample_orders zero_event KindCheck [sample_check ''passing'']
      [sample_check ''critical''] (\<lambda>e. e) empty_out) = es"
    "\<forall>es'. mset es' = mset es \<longrightarrow> replay es' (check_statuses sample_api [sample_check ''passing'']) =
      check_statuses sample_api [sample_check ''critical'']"
    using check_events_replay[OF sample_orders_ok, of "\<lambda>e. e" sample_env zero_event KindCheck
        "[sample_check ''passing'']" "[sample_check ''critical'']" empty_out]
    by (auto simp: empty_out_def)
  then show ?thesis
    using critical by auto
qed

theorem node_events_exact_witness:
  "\<exists>e. o_events (compareNode sample_env sample_orders 5 7 sample_node [sample_check ''warning''] None empty_out) = [e] \<and>
    ev_OldNodeStatus e = StatusWarning \<and> ev_NewNodeStatus e = StatusMissing"
  using node_events_exact[OF sample_orders_ok, of sample_env 5 7 sample_node "[sample_check ''warning'']" empty_out "[]"]
  by (auto simp: empty_out_def nodeStatus_def aggregate_def aggregate_one_def sample_check_def sample_api_def
      HasPrefix_def)

theorem instance_status_priority_witness:
  "instanceStatus sample_api [sample_check ''warning'', sample_check ''critical'', sample_check ''passing''] = StatusCritical"
  using instance_status_priority[of sample_api "[sample_check ''warning'', sample_check ''critical'', sample_check ''passing'']"]
  by (simp add: api_ok_def sample_api_def has_status_def in_maintenance_def sample_check_def HasPrefix_def)

theorem announcements_cover_instances_witness:
  "\<exists>out'. compareService sample_env sample_orders 5 7 [] [sample_csn ''passing''] empty_out = Inr out' \<and>
    marks_ok 5 [sample_csn ''passing''] (o_marks out') \<and> marks_sent sample_env out'"
  by (rule announcements_cover_instances[OF sample_orders_ok]) (simp_all add: empty_out_def marks_sent_def)

theorem fingerprint_order_free_witness:
  "fingerprint \<lparr> csn_Node = Some (sample_node\<lparr>n_Meta := []\<rparr>),
      csn_Service = Some (sample_service\<lparr>s_Tags := [''b'', ''a''], s_Meta := [(''version'', ''2''), (''team'', ''x'')]\<rparr>),
      csn_Checks = [] \<rparr> =
    fingerprint \<lparr> csn_Node = Some sample_node, csn_Service = Some sample_service, csn_Checks = [] \<rparr>"
  by (rule fingerprint_order_free) (simp_all add: sample_service_def sample_node_def gomap_ok_def)

theorem announce_misses_changes_witness:
  "\<exists>out1. announce sample_env 5 \<lparr> csn_Node = Some sample_node,
        csn_Service = Some (sample_service\<lparr>s_Tags := [''k=x''], s_Meta := []\<rparr>), csn_Checks = [] \<rparr> True empty_out = Inr out1 \<and>
      announce sample_env 10 \<lparr> csn_Node = Some (sample_node\<lparr>n_Address := ''10.9.9.9''\<rparr>),
        csn_Service = Some (sample_service\<lparr>s_Tags := [], s_Meta := [(''k'', ''x'')]\<rparr>), csn_Checks = [] \<rparr> False out1 = Inr out1"
proof -
  obtain out1 where out1: "announce sample_env 5 \<lparr> csn_Node = Some sample_node,
        csn_Service = Some (sample_service\<lparr>s_Tags := [''k'' @ ''='' @ ''x''], s_Meta := []\<rparr>), csn_Checks = [] \<rparr> True empty_out = Inr out1"
    by (simp add: announce_Some)
  have "time_sub 10 5 < instanceRefresh"
    by (simp add: time_sub_def instanceRefresh_def)
  from announce_misses_changes[OF out1 this] out1 show ?thesis
    by simp
qed

end
