(* ===== verification/Watch.thy ===== *)
theory Watch
  imports Compare
begin

text \<open>
  Package \<open>watch\<close>, the watches (\<open>watch.go\<close>): the loop of one service and of one
  node as a function from what happens in a round to the next state, the lists of services and
  nodes that start and stop them, and the readiness that counts the first replies. Each
  goroutine is a run of rounds; what it shares with others (readiness, channels) is output.
\<close>


section \<open>Replies\<close>

record IndexedServices =
  is_Services :: "(string, string list) gomap"
  is_Index :: "64 word"

record IndexedNodes =
  in_Nodes :: "Node list"
  in_Index :: "64 word"

record IndexedCheckServiceNodes =
  ic_Nodes :: "CheckServiceNode list"
  ic_Index :: "64 word"

record IndexedHealthChecks =
  ih_HealthChecks :: "HealthCheck list"
  ih_Index :: "64 word"

definition nextIndex :: "64 word \<Rightarrow> 64 word \<Rightarrow> 64 word" where
  "nextIndex prev got = (if got < prev then 0 else got)"


section \<open>Readiness\<close>

record readiness =
  rd_lists :: int
  rd_pending :: int
  rd_closed :: bool
  rd_closes :: nat

definition readiness_new :: readiness where
  "readiness_new = \<lparr> rd_lists = 0, rd_pending = 0, rd_closed = False, rd_closes = 0 \<rparr>"

definition ready_check :: "readiness \<Rightarrow> readiness" where
  "ready_check r = (if \<not> rd_closed r \<and> rd_lists r = 2 \<and> rd_pending r \<le> 0
     then r\<lparr> rd_closed := True, rd_closes := rd_closes r + 1 \<rparr> else r)"

definition listArrived :: "nat \<Rightarrow> readiness \<Rightarrow> readiness" where
  "listArrived children r = ready_check (r\<lparr> rd_lists := rd_lists r + 1, rd_pending := rd_pending r + int children \<rparr>)"

definition childReady :: "readiness \<Rightarrow> readiness" where
  "childReady r = ready_check (r\<lparr> rd_pending := rd_pending r - 1 \<rparr>)"


section \<open>The watch of one service\<close>

text \<open>
  What a round of the loop meets: the stop channel, a cancelled context, an error (and
  whether the sleep after it ran to its end), or a reply.
\<close>

datatype service_turn =
    SvStop Time
  | SvDone
  | SvError bool
  | SvReply Time IndexedCheckServiceNodes

record ServiceWatch =
  sw_idx :: "64 word"
  sw_last :: "CheckServiceNode list"
  sw_first :: bool
  sw_running :: bool
  sw_ready :: nat
  sw_out :: Out

definition ServiceWatch_new :: ServiceWatch where
  "ServiceWatch_new = \<lparr> sw_idx = 0, sw_last = [], sw_first = True, sw_running = True, sw_ready = 0,
     sw_out = \<lparr> o_events = [], o_instances = [], o_marks = [] \<rparr> \<rparr>"

definition service_reply ::
    "WatchEnv \<Rightarrow> Orders \<Rightarrow> bool \<Rightarrow> Time \<Rightarrow> IndexedCheckServiceNodes \<Rightarrow> ServiceWatch \<Rightarrow> panic + ServiceWatch" where
  "service_reply w ord countReady at res s =
     (let ready = (if sw_first s \<and> countReady then sw_ready s + 1 else sw_ready s)
      in res_bind
        (if sw_first s then fold_res (\<lambda>csn. announce w at csn True) (ic_Nodes res) (sw_out s)
         else if ic_Index res \<noteq> sw_idx s then compareService w ord at (ic_Index res) (sw_last s) (ic_Nodes res) (sw_out s)
         else fold_res (\<lambda>csn. announce w at csn False) (ic_Nodes res) (sw_out s))
        (\<lambda>out. Inr (s\<lparr> sw_first := False, sw_ready := ready, sw_out := out, sw_last := ic_Nodes res,
           sw_idx := nextIndex (sw_idx s) (ic_Index res) \<rparr>)))"

definition watchService_turn ::
    "WatchEnv \<Rightarrow> Orders \<Rightarrow> bool \<Rightarrow> service_turn \<Rightarrow> ServiceWatch \<Rightarrow> panic + ServiceWatch" where
  "watchService_turn w ord countReady turn s =
     (if \<not> sw_running s then Inr s
      else case turn of
        SvStop at \<Rightarrow> res_bind
          (if 0 < length (sw_last s) then compareService w ord at (sw_idx s) (sw_last s) [] (sw_out s)
           else Inr (sw_out s))
          (\<lambda>out. Inr (s\<lparr> sw_out := out, sw_running := False \<rparr>))
      | SvDone \<Rightarrow> Inr (s\<lparr>sw_running := False\<rparr>)
      | SvError go \<Rightarrow> Inr (s\<lparr>sw_running := go\<rparr>)
      | SvReply at res \<Rightarrow> service_reply w ord countReady at res s)"

definition watchService ::
    "WatchEnv \<Rightarrow> Orders \<Rightarrow> bool \<Rightarrow> service_turn list \<Rightarrow> panic + ServiceWatch" where
  "watchService w ord countReady turns = fold_res (watchService_turn w ord countReady) turns ServiceWatch_new"


section \<open>The watch of one node\<close>

datatype node_turn =
    NdStop Time
  | NdDone
  | NdError bool
  | NdReply Time IndexedHealthChecks

record NodeWatch =
  nw_idx :: "64 word"
  nw_last :: "HealthCheck list"
  nw_first :: bool
  nw_running :: bool
  nw_ready :: nat
  nw_out :: Out

definition NodeWatch_new :: NodeWatch where
  "NodeWatch_new = \<lparr> nw_idx = 0, nw_last = [], nw_first = True, nw_running = True, nw_ready = 0,
     nw_out = \<lparr> o_events = [], o_instances = [], o_marks = [] \<rparr> \<rparr>"

definition nodeChecks :: "HealthCheck list \<Rightarrow> HealthCheck list" where
  "nodeChecks checks = filter (\<lambda>c. hc_ServiceID c = []) checks"

definition watchNode_turn ::
    "WatchEnv \<Rightarrow> Orders \<Rightarrow> Node \<Rightarrow> bool \<Rightarrow> node_turn \<Rightarrow> NodeWatch \<Rightarrow> NodeWatch" where
  "watchNode_turn w ord node countReady turn s =
     (if \<not> nw_running s then s
      else case turn of
        NdStop at \<Rightarrow> s\<lparr> nw_out := compareNode w ord at (nw_idx s) node (nw_last s) None (nw_out s), nw_running := False \<rparr>
      | NdDone \<Rightarrow> s\<lparr>nw_running := False\<rparr>
      | NdError go \<Rightarrow> s\<lparr>nw_running := go\<rparr>
      | NdReply at res \<Rightarrow>
          (let checks = nodeChecks (ih_HealthChecks res) in
           s\<lparr> nw_first := False,
              nw_ready := (if nw_first s \<and> countReady then nw_ready s + 1 else nw_ready s),
              nw_out := (if nw_first s then nw_out s
                else if ih_Index res \<noteq> nw_idx s then compareNode w ord at (ih_Index res) node (nw_last s) (Some checks) (nw_out s)
                else nw_out s),
              nw_last := checks,
              nw_idx := nextIndex (nw_idx s) (ih_Index res) \<rparr>))"

definition watchNode :: "WatchEnv \<Rightarrow> Orders \<Rightarrow> Node \<Rightarrow> bool \<Rightarrow> node_turn list \<Rightarrow> NodeWatch" where
  "watchNode w ord node countReady turns = fold (watchNode_turn w ord node countReady) turns NodeWatch_new"


section \<open>The lists of services and nodes\<close>

text \<open>
  The watcher: the stop channel of each watch by name, node addresses, readiness, and what the
  two list watches did: the watches started (name, stop channel, whether it counts for
  readiness), the channels closed, the events emitted. Channels are numbered.
\<close>

record Watcher =
  w_services :: "(string, nat) gomap"
  w_nodes :: "(string, nat) gomap"
  w_nodeIPs :: "(string, string) gomap"
  w_ready :: readiness
  w_chans :: nat
  w_started_services :: "(string \<times> nat \<times> bool) list"
  w_started_nodes :: "(Node \<times> nat \<times> bool) list"
  w_closed :: "nat list"
  w_events :: "Event list"

definition Watcher_New :: Watcher where
  "Watcher_New = \<lparr> w_services = [], w_nodes = [], w_nodeIPs = [], w_ready = readiness_new, w_chans = 0,
     w_started_services = [], w_started_nodes = [], w_closed = [], w_events = [] \<rparr>"

text \<open>One round of the loop that starts watches; the second component counts them.\<close>

definition add_service :: "bool \<Rightarrow> string \<times> string list \<Rightarrow> Watcher \<times> nat \<Rightarrow> Watcher \<times> nat" where
  "add_service initial x = (\<lambda>(s, added).
     if map_of (w_services s) (fst x) \<noteq> None then (s, added)
     else (s\<lparr> w_services := map_put (w_services s) (fst x) (w_chans s), w_chans := w_chans s + 1,
              w_started_services := w_started_services s @ [(fst x, w_chans s, initial)] \<rparr>, added + 1))"

definition drop_service :: "(string, string list) gomap \<Rightarrow> string \<times> nat \<Rightarrow> Watcher \<Rightarrow> Watcher" where
  "drop_service services x s =
     (if map_of services (fst x) = None
      then s\<lparr> w_closed := w_closed s @ [snd x], w_services := map_del (w_services s) (fst x) \<rparr> else s)"

definition syncServices ::
    "((string, string list) gomap \<Rightarrow> (string, string list) gomap) \<Rightarrow> ((string, nat) gomap \<Rightarrow> (string, nat) gomap) \<Rightarrow>
     (string, string list) gomap \<Rightarrow> bool \<Rightarrow> Watcher \<Rightarrow> Watcher" where
  "syncServices ord1 ord2 services initial s =
     (let (s, added) = fold (add_service initial) (ord1 services) (s, 0);
          s = fold (drop_service services) (ord2 (w_services s)) s
      in if initial then s\<lparr>w_ready := listArrived added (w_ready s)\<rparr> else s)"

definition add_node :: "string \<Rightarrow> Time \<Rightarrow> 64 word \<Rightarrow> bool \<Rightarrow> Node \<Rightarrow>
    Watcher \<times> (string, bool) gomap \<times> nat \<Rightarrow> Watcher \<times> (string, bool) gomap \<times> nat" where
  "add_node dc at index initial n = (\<lambda>(s, present, added).
     let present = map_put present (n_Node n) True;
         s = s\<lparr> w_nodeIPs := map_put (w_nodeIPs s) (n_Node n) (n_Address n) \<rparr> in
     if map_of (w_nodes s) (n_Node n) \<noteq> None then (s, present, added)
     else (s\<lparr> w_nodes := map_put (w_nodes s) (n_Node n) (w_chans s), w_chans := w_chans s + 1,
              w_events := w_events s @ (if initial then [] else
                [zero_event\<lparr> ev_Time := at, ev_Datacenter := dc, ev_Kind := KindNode, ev_ConsulIndex := index,
                   ev_NodeName := n_Node n, ev_NodeIP := n_Address n,
                   ev_OldNodeStatus := StatusMissing, ev_NewNodeStatus := StatusUnknown \<rparr>]),
              w_started_nodes := w_started_nodes s @ [(n, w_chans s, initial)] \<rparr>, present, added + 1))"

definition drop_node :: "(string, bool) gomap \<Rightarrow> string \<times> nat \<Rightarrow> Watcher \<Rightarrow> Watcher" where
  "drop_node present x s =
     (if \<not> map_get False present (fst x)
      then s\<lparr> w_closed := w_closed s @ [snd x], w_nodes := map_del (w_nodes s) (fst x),
              w_nodeIPs := map_del (w_nodeIPs s) (fst x) \<rparr> else s)"

definition syncNodes ::
    "((string, nat) gomap \<Rightarrow> (string, nat) gomap) \<Rightarrow> string \<Rightarrow> Time \<Rightarrow>
     Node list \<Rightarrow> 64 word \<Rightarrow> bool \<Rightarrow> Watcher \<Rightarrow> Watcher" where
  "syncNodes ord2 dc at nodes index initial s =
     (let (s, present, added) = fold (add_node dc at index initial) nodes (s, [], 0);
          s = fold (drop_node present) (ord2 (w_nodes s)) s
      in if initial then s\<lparr>w_ready := listArrived added (w_ready s)\<rparr> else s)"

definition ServiceNames :: "Watcher \<Rightarrow> string list" where
  "ServiceNames s = sort_Strings (map fst (w_services s))"

definition NodeNames :: "Watcher \<Rightarrow> string list" where
  "NodeNames s = sort_Strings (map fst (w_nodes s))"

text \<open>
  A round of \<open>watchServices\<close> and \<open>watchNodes\<close>: index, whether it is the first
  reply, and the watcher; an error (\<open>None\<close>) leaves everything as it is.
\<close>

record ListWatch =
  lw_idx :: "64 word"
  lw_first :: bool

definition ListWatch_new :: ListWatch where
  "ListWatch_new = \<lparr> lw_idx = 0, lw_first = True \<rparr>"

definition watchServices_round ::
    "((string, string list) gomap \<Rightarrow> (string, string list) gomap) \<Rightarrow> ((string, nat) gomap \<Rightarrow> (string, nat) gomap) \<Rightarrow>
     IndexedServices option \<Rightarrow> ListWatch \<times> Watcher \<Rightarrow> ListWatch \<times> Watcher" where
  "watchServices_round ord1 ord2 reply = (\<lambda>(l, s). case reply of
       None \<Rightarrow> (l, s)
     | Some res \<Rightarrow>
         (\<lparr> lw_idx = nextIndex (lw_idx l) (is_Index res), lw_first = False \<rparr>,
          if lw_first l \<or> is_Index res \<noteq> lw_idx l
          then syncServices ord1 ord2 (is_Services res) (lw_first l) s else s))"

definition watchNodes_round ::
    "((string, nat) gomap \<Rightarrow> (string, nat) gomap) \<Rightarrow> string \<Rightarrow> Time \<Rightarrow>
     IndexedNodes option \<Rightarrow> ListWatch \<times> Watcher \<Rightarrow> ListWatch \<times> Watcher" where
  "watchNodes_round ord2 dc at reply = (\<lambda>(l, s). case reply of
       None \<Rightarrow> (l, s)
     | Some res \<Rightarrow>
         (\<lparr> lw_idx = nextIndex (lw_idx l) (in_Index res), lw_first = False \<rparr>,
          if lw_first l \<or> in_Index res \<noteq> lw_idx l
          then syncNodes ord2 dc at (in_Nodes res) (in_Index res) (lw_first l) s else s))"


section \<open>Lemmas\<close>

subsection \<open>Readiness\<close>

datatype ready_op = ListArrived nat | ChildReady

definition ready_step :: "ready_op \<Rightarrow> readiness \<Rightarrow> readiness" where
  "ready_step op r = (case op of ListArrived n \<Rightarrow> listArrived n r | ChildReady \<Rightarrow> childReady r)"

definition list_count :: "ready_op list \<Rightarrow> int" where
  "list_count ops = int (length (filter (\<lambda>op. op \<noteq> ChildReady) ops))"

definition report_count :: "ready_op list \<Rightarrow> int" where
  "report_count ops = int (length (filter (\<lambda>op. op = ChildReady) ops))"

definition child_count :: "ready_op list \<Rightarrow> int" where
  "child_count ops = (\<Sum>op \<leftarrow> ops. case op of ListArrived n \<Rightarrow> int n | ChildReady \<Rightarrow> 0)"

lemma counts_snoc [simp]:
  "list_count (ops @ [op]) = list_count ops + (if op = ChildReady then 0 else 1)"
  "report_count (ops @ [op]) = report_count ops + (if op = ChildReady then 1 else 0)"
  "child_count (ops @ [op]) = child_count ops + (case op of ListArrived n \<Rightarrow> int n | ChildReady \<Rightarrow> 0)"
  by (simp_all add: list_count_def report_count_def child_count_def)

text \<open>
  The counters after any operations; once two lists have arrived the channel is closed
  exactly when as many children reported as there are.
\<close>

lemma ready_run:
  fixes ops :: "ready_op list"
  defines "r \<equiv> fold ready_step ops readiness_new"
  shows "rd_lists r = list_count ops \<and> rd_pending r = child_count ops - report_count ops \<and>
    rd_closes r = (if rd_closed r then 1 else 0) \<and>
    (list_count ops < 2 \<longrightarrow> \<not> rd_closed r) \<and>
    (list_count ops = 2 \<longrightarrow> (rd_closed r \<longleftrightarrow> child_count ops \<le> report_count ops))"
  unfolding r_def
proof (induction ops rule: rev_induct)
  case Nil
  then show ?case
    by (simp add: readiness_new_def list_count_def report_count_def child_count_def)
next
  case (snoc op ops)
  have "0 \<le> list_count ops" by (simp add: list_count_def)
  with snoc show ?case
    by (cases op) (auto simp: ready_step_def listArrived_def childReady_def ready_check_def)
qed


subsection \<open>The events of a service as presence\<close>

definition keys_of :: "CheckServiceNode list \<Rightarrow> instanceKey set" where
  "keys_of ins = {k. instance_at ins k \<noteq> None}"

text \<open>What a reader of the events knows: the instances present.\<close>

definition presence_step :: "Event \<Rightarrow> instanceKey set \<Rightarrow> instanceKey set" where
  "presence_step e P = (if ev_Kind e \<noteq> KindInstance then P
     else if ev_NewServiceStatus e = StatusMissing then P - {event_key e} else insert (event_key e) P)"

definition presence :: "Event list \<Rightarrow> instanceKey set \<Rightarrow> instanceKey set" where
  "presence es P = fold presence_step es P"

lemma presence_append: "presence (es @ es') P = presence es' (presence es P)"
  by (simp add: presence_def)

lemma presence_Nil [simp]: "presence [] P = P"
  by (simp add: presence_def)

lemma presence_no_instance: "(\<And>e. e \<in> set es \<Longrightarrow> ev_Kind e \<noteq> KindInstance) \<Longrightarrow> presence es P = P"
  unfolding presence_def by (induction es arbitrary: P) (simp_all add: presence_step_def)

lemma presence_step_mem:
  "k \<in> presence_step e P \<longleftrightarrow> (if ev_Kind e = KindInstance \<and> event_key e = k then ev_NewServiceStatus e \<noteq> StatusMissing else k \<in> P)"
  by (auto simp: presence_step_def)

lemma presence_cong: "(k \<in> P \<longleftrightarrow> k \<in> Q) \<Longrightarrow> k \<in> presence es P \<longleftrightarrow> k \<in> presence es Q"
proof (induction es arbitrary: P Q)
  case Nil
  then show ?case by simp
next
  case (Cons e es)
  have "k \<in> presence es (presence_step e P) \<longleftrightarrow> k \<in> presence es (presence_step e Q)"
    by (rule Cons.IH) (simp add: presence_step_mem Cons.prems)
  then show ?case by (simp add: presence_def)
qed

lemma presence_at: "k \<in> presence es P \<longleftrightarrow> k \<in> presence (filter (\<lambda>e. event_key e = k) es) P"
proof (induction es arbitrary: P)
  case Nil
  then show ?case by simp
next
  case (Cons e es)
  show ?case
  proof (cases "event_key e = k")
    case True
    then show ?thesis
      using Cons.IH[of "presence_step e P"] by (simp add: presence_def)
  next
    case False
    then have "k \<in> presence es (presence_step e P) \<longleftrightarrow> k \<in> presence es P"
      by (intro presence_cong) (simp add: presence_step_mem)
    with False show ?thesis
      using Cons.IH[of P] by (simp add: presence_def)
  qed
qed

lemma aggregate_not_missing [simp]: "aggregate api cs \<noteq> StatusMissing"
  by (simp add: aggregate_def Let_def status_consts)

lemma instanceStatus_not_missing [simp]: "instanceStatus api cs \<noteq> StatusMissing"
  by (simp add: instanceStatus_def) (simp add: status_consts)

lemma base_of_event_key [simp]: "event_key (base_of w at index old new n v) = (n_Node n, s_ID v)"
  by (rule base_of_key)

lemma compareService_presence:
  assumes "orders_ok ord" "compareService w ord at index old new out = Inr out'"
    and "presence (o_events out) P = keys_of old"
  shows "presence (o_events out') P = keys_of new"
proof -
  let ?base = "base_of w at index old new"
  obtain es where es: "o_events out' = o_events out @ es"
    and by_key: "\<And>k. filter (\<lambda>e. event_key e = k) es =
      (case instance_at new k of None \<Rightarrow> [] | Some ns \<Rightarrow> new_events w ord ?base old (k, ns)) @
      (case instance_at old k of None \<Rightarrow> [] | Some os \<Rightarrow> gone_events w ?base new (k, os))"
    using compareService_by_key[OF assms(1), of w at index old new out] assms(2) by auto
  have "k \<in> presence es (keys_of old) \<longleftrightarrow> k \<in> keys_of new" for k
  proof (cases "instance_at new k")
    case new: None
    show ?thesis
    proof (cases "instance_at old k")
      case None
      then show ?thesis
        using new by (subst presence_at) (simp add: by_key keys_of_def)
    next
      case (Some os)
      have "k = (n_Node (node_of os), s_ID (service_of os))"
        using instance_at_key[OF Some] csn_key_parts by blast
      then show ?thesis
        using new Some by (subst presence_at)
          (simp add: by_key gone_events_def presence_def presence_step_def lifecycle_event_def[of "?base _ _"]
            event_key_frame(1)[unfolded lifecycle_event_def] keys_of_def)
    qed
  next
    case new: (Some ns)
    have k: "k = (n_Node (node_of ns), s_ID (service_of ns))"
      using instance_at_key[OF new] csn_key_parts by blast
    show ?thesis
    proof (cases "instance_at old k")
      case None
      then show ?thesis
        using new k by (subst presence_at)
          (simp add: by_key new_events_def Let_def presence_def presence_step_def lifecycle_event_def[of "?base _ _"]
            event_key_frame(1)[unfolded lifecycle_event_def] keys_of_def)
    next
      case (Some os)
      have "presence (filter (\<lambda>e. event_key e = k) es) P = P" for P
        by (rule presence_no_instance)
          (use new Some in \<open>auto simp: by_key new_events_def gone_events_def Let_def check_event_def with_service_def kind_consts\<close>)
      then show ?thesis
        using new Some by (subst presence_at) (simp add: keys_of_def)
    qed
  qed
  then show ?thesis
    unfolding es presence_append assms(3) by blast
qed


subsection \<open>Announcing a whole reply\<close>

lemma announce_not_nil:
  "announce w at csn force out = Inr out' \<Longrightarrow>
   csn_key csn \<noteq> None \<and> out' = announced w at (node_of csn) (service_of csn) force out"
  by (auto simp: announce_def csn_key_def node_of_def service_of_def fingerprint_def announced_def Let_def
      split: option.splits if_splits)

lemma announce_reply:
  assumes "fold_res (\<lambda>csn. announce w at csn force) ins out = Inr out'"
  shows "o_events out' = o_events out" "gomap_ok (o_marks out) \<Longrightarrow> gomap_ok (o_marks out')"
    and "fst ` set (o_marks out') = fst ` set (o_marks out) \<union> keys_of ins"
    and "marks_sent w out \<Longrightarrow> marks_sent w out'"
  using assms
proof (induction ins arbitrary: out' rule: rev_induct)
  case Nil
  {
    case 1
    then show ?case by simp
  next
    case 2
    then show ?case by simp
  next
    case 3
    then show ?case by (simp add: keys_of_def)
  next
    case 4
    then show ?case by simp
  }
next
  case (snoc csn ins)
  have step: "\<exists>mid. fold_res (\<lambda>csn. announce w at csn force) ins out = Inr mid \<and> csn_key csn \<noteq> None \<and>
      out' = announced w at (node_of csn) (service_of csn) force mid"
    if "fold_res (\<lambda>csn. announce w at csn force) (ins @ [csn]) out = Inr out'" for out'
    using that announce_not_nil by (fastforce simp: fold_res_append res_bind_Inr_iff)
  {
    case 1
    with step snoc.IH(1) show ?case by force
  next
    case 2
    with step snoc.IH(2) show ?case by force
  next
    case 3
    obtain mid where mid: "fold_res (\<lambda>csn. announce w at csn force) ins out = Inr mid" "csn_key csn \<noteq> None"
        "out' = announced w at (node_of csn) (service_of csn) force mid"
      using step[OF 3] by blast
    let ?k = "(n_Node (node_of csn), s_ID (service_of csn))"
    have key: "csn_key csn = Some ?k"
      using mid(2) csn_key_parts by blast
    have "fst ` set (o_marks out') = insert ?k (fst ` set (o_marks mid))"
    proof -
      have "?k \<in> dom (map_of (o_marks mid))"
        if "\<not> force \<and> (case map_of (o_marks mid) ?k of None \<Rightarrow> False | Some m \<Rightarrow>
          im_fingerprint m = fnv64a (fingerprint_bytes (node_of csn) (service_of csn)) \<and>
          time_sub at (im_announced m) < instanceRefresh)"
        using that by (auto split: option.splits)
      then show ?thesis
        unfolding mid(3) announced_def Let_def by (auto simp: dom_map_of_conv_image_fst)
    qed
    moreover have "keys_of (ins @ [csn]) = insert ?k (keys_of ins)"
      using key by (auto simp: keys_of_def instance_at_def)
    ultimately show ?case
      using snoc.IH(3)[OF mid(1)] by auto
  next
    case 4
    obtain mid where mid: "fold_res (\<lambda>csn. announce w at csn force) ins out = Inr mid"
        "out' = announced w at (node_of csn) (service_of csn) force mid"
      using step[OF 4(2)] by blast
    with snoc.IH(4)[OF 4(1) mid(1)] show ?case
      by (simp add: marks_sent_announced)
  }
qed


subsection \<open>Runs of a service watch\<close>

text \<open>
  What Consul documents of a blocking query: a reply with the index the query waited on holds
  what the one before held. The first reply holds the instances \<open>F\<close>.
\<close>

definition service_turn_ok :: "instanceKey set \<Rightarrow> ServiceWatch \<Rightarrow> service_turn \<Rightarrow> bool" where
  "service_turn_ok F s turn = (case turn of
       SvReply at res \<Rightarrow>
         (if sw_first s then keys_of (ic_Nodes res) = F
          else ic_Index res \<noteq> sw_idx s \<or> ic_Nodes res = sw_last s)
     | _ \<Rightarrow> True)"

inductive service_run :: "WatchEnv \<Rightarrow> Orders \<Rightarrow> bool \<Rightarrow> instanceKey set \<Rightarrow> ServiceWatch \<Rightarrow> bool"
  for w ord countReady F where
  run_new: "service_run w ord countReady F ServiceWatch_new"
| run_turn: "service_run w ord countReady F s \<Longrightarrow> service_turn_ok F s turn \<Longrightarrow>
    watchService_turn w ord countReady turn s = Inr s' \<Longrightarrow> service_run w ord countReady F s'"

definition service_inv :: "WatchEnv \<Rightarrow> instanceKey set \<Rightarrow> ServiceWatch \<Rightarrow> bool" where
  "service_inv w F s \<longleftrightarrow> gomap_ok (o_marks (sw_out s)) \<and> marks_sent w (sw_out s) \<and>
     (sw_first s \<longrightarrow> sw_out s = sw_out ServiceWatch_new \<and> sw_last s = []) \<and>
     (sw_running s \<longrightarrow> fst ` set (o_marks (sw_out s)) = keys_of (sw_last s)) \<and>
     (sw_running s \<and> \<not> sw_first s \<longrightarrow> presence (o_events (sw_out s)) F = keys_of (sw_last s))"

lemma keys_of_Nil [simp]: "keys_of [] = {}"
  by (simp add: keys_of_def instance_at_def)

lemma service_inv_new: "service_inv w F ServiceWatch_new"
  by (simp add: service_inv_def ServiceWatch_new_def marks_sent_def)

lemma compareService_marks_keys:
  assumes "orders_ok ord" "gomap_ok (o_marks out)" "fst ` set (o_marks out) = keys_of old"
    and "compareService w ord at index old new out = Inr out'"
  shows "gomap_ok (o_marks out') \<and> fst ` set (o_marks out') = keys_of new"
  using compareService_marks[OF assms(1,2) _ assms(4)] assms(3) by (simp add: marks_ok_def keys_of_def)

lemma service_inv_reply:
  assumes "orders_ok ord" "service_inv w F s" "sw_running s" "service_turn_ok F s (SvReply at res)"
    and "service_reply w ord countReady at res s = Inr s'"
  shows "service_inv w F s' \<and> sw_running s'"
proof -
  let ?out = "sw_out s"
  have inv: "gomap_ok (o_marks ?out)" "marks_sent w ?out" "fst ` set (o_marks ?out) = keys_of (sw_last s)"
    and new: "sw_first s \<Longrightarrow> ?out = sw_out ServiceWatch_new \<and> sw_last s = []"
    and pres: "\<not> sw_first s \<Longrightarrow> presence (o_events ?out) F = keys_of (sw_last s)"
    using assms(2,3) by (auto simp: service_inv_def)
  obtain out where s': "s' = s\<lparr> sw_first := False, sw_ready := sw_ready s', sw_out := out, sw_last := ic_Nodes res,
        sw_idx := nextIndex (sw_idx s) (ic_Index res) \<rparr>"
    and out: "(if sw_first s then fold_res (\<lambda>csn. announce w at csn True) (ic_Nodes res) ?out
         else if ic_Index res \<noteq> sw_idx s then compareService w ord at (ic_Index res) (sw_last s) (ic_Nodes res) ?out
         else fold_res (\<lambda>csn. announce w at csn False) (ic_Nodes res) ?out) = Inr out"
    using assms(5) unfolding service_reply_def Let_def res_bind_Inr_iff by force
  consider (first) "sw_first s" | (changed) "\<not> sw_first s" "ic_Index res \<noteq> sw_idx s"
    | (same) "\<not> sw_first s" "ic_Index res = sw_idx s" by blast
  then have "gomap_ok (o_marks out) \<and> marks_sent w out \<and> fst ` set (o_marks out) = keys_of (ic_Nodes res) \<and>
      presence (o_events out) F = keys_of (ic_Nodes res)"
  proof cases
    case first
    then have "fold_res (\<lambda>csn. announce w at csn True) (ic_Nodes res) ?out = Inr out"
      using out by simp
    note ann = announce_reply[OF this]
    show ?thesis
      using ann inv new[OF first] assms(4) first
      by (simp add: ServiceWatch_new_def service_turn_ok_def)
  next
    case changed
    then have cmp: "compareService w ord at (ic_Index res) (sw_last s) (ic_Nodes res) ?out = Inr out"
      using out by simp
    show ?thesis
      using compareService_marks_keys[OF assms(1) inv(1,3) cmp] compareService_sent[OF assms(1) inv(2) cmp]
        compareService_presence[OF assms(1) cmp pres[OF changed(1)]] by blast
  next
    case same
    then have "fold_res (\<lambda>csn. announce w at csn False) (ic_Nodes res) ?out = Inr out"
      using out by simp
    note ann = announce_reply[OF this]
    have "ic_Nodes res = sw_last s"
      using assms(4) same by (simp add: service_turn_ok_def)
    then show ?thesis
      using ann inv pres[OF same(1)] by simp
  qed
  moreover have "sw_out s' = out" "sw_last s' = ic_Nodes res" "\<not> sw_first s'" "sw_running s'"
    using assms(3) by (subst s'; simp)+
  ultimately show ?thesis
    by (simp add: service_inv_def)
qed

lemma service_inv_turn:
  assumes "orders_ok ord" "service_inv w F s" "service_turn_ok F s turn"
    and "watchService_turn w ord countReady turn s = Inr s'"
  shows "service_inv w F s'"
proof (cases "sw_running s")
  case False
  then show ?thesis
    using assms(2,4) by (simp add: watchService_turn_def)
next
  case run: True
  show ?thesis
  proof (cases turn)
    case (SvStop at)
    show ?thesis
    proof (cases "sw_last s = []")
      case True
      then show ?thesis
        using assms(2,4) run SvStop by (auto simp: watchService_turn_def service_inv_def)
    next
      case False
      then obtain out where cmp: "compareService w ord at (sw_idx s) (sw_last s) [] (sw_out s) = Inr out"
        and s': "s' = s\<lparr> sw_out := out, sw_running := False \<rparr>"
        using assms(4) run SvStop by (auto simp: watchService_turn_def res_bind_Inr_iff)
      have inv: "gomap_ok (o_marks (sw_out s))" "marks_sent w (sw_out s)"
        "fst ` set (o_marks (sw_out s)) = keys_of (sw_last s)" "\<not> sw_first s"
        using assms(2) run False by (auto simp: service_inv_def)
      show ?thesis
        using compareService_marks_keys[OF assms(1) inv(1,3) cmp] compareService_sent[OF assms(1) inv(2) cmp] inv(4)
        by (simp add: service_inv_def s')
    qed
  next
    case SvDone
    then show ?thesis
      using assms(2,4) run by (auto simp: watchService_turn_def service_inv_def)
  next
    case (SvError go)
    then have "s' = s\<lparr>sw_running := go\<rparr>"
      using assms(4) run by (simp add: watchService_turn_def)
    then show ?thesis
      using assms(2) run by (simp add: service_inv_def)
  next
    case (SvReply at res)
    then show ?thesis
      using service_inv_reply[OF assms(1,2) run, of at res] assms(3,4) run by (simp add: watchService_turn_def)
  qed
qed

lemma service_run_inv:
  assumes "orders_ok ord" "service_run w ord countReady F s"
  shows "service_inv w F s"
  using assms(2)
  by (induction rule: service_run.induct) (auto intro: service_inv_new service_inv_turn[OF assms(1)])

text \<open>A watch reports to readiness once, with its first reply, if it counts.\<close>

lemma service_run_ready:
  assumes "service_run w ord countReady F s"
  shows "sw_ready s = (if countReady \<and> \<not> sw_first s then 1 else 0)"
  using assms
proof (induction rule: service_run.induct)
  case run_new
  then show ?case by (simp add: ServiceWatch_new_def)
next
  case (run_turn s turn s')
  show ?case
  proof (cases turn)
    case (SvReply at res)
    then show ?thesis
      using run_turn by (auto simp: watchService_turn_def service_reply_def Let_def res_bind_Inr_iff split: if_splits)
  qed (use run_turn in \<open>auto simp: watchService_turn_def res_bind_Inr_iff split: if_splits\<close>)
qed


subsection \<open>Runs of a node watch\<close>

definition node_turn_ok :: "HealthCheck list \<Rightarrow> NodeWatch \<Rightarrow> node_turn \<Rightarrow> bool" where
  "node_turn_ok F s turn = (case turn of
       NdReply at res \<Rightarrow>
         (if nw_first s then nodeChecks (ih_HealthChecks res) = F
          else ih_Index res \<noteq> nw_idx s \<or> nodeChecks (ih_HealthChecks res) = nw_last s)
     | _ \<Rightarrow> True)"

inductive node_run :: "WatchEnv \<Rightarrow> Orders \<Rightarrow> Node \<Rightarrow> bool \<Rightarrow> HealthCheck list \<Rightarrow> NodeWatch \<Rightarrow> bool"
  for w ord node countReady F where
  node_new: "node_run w ord node countReady F NodeWatch_new"
| node_turn: "node_run w ord node countReady F s \<Longrightarrow> node_turn_ok F s turn \<Longrightarrow>
    node_run w ord node countReady F (watchNode_turn w ord node countReady turn s)"

lemma replay_append: "replay (es @ es') st = replay es' (replay es st)"
  by (simp add: replay_def)

lemma compareNode_replay:
  assumes "orders_ok ord" "replay (o_events out) st = check_statuses (we_api w) old"
  shows "replay (o_events (compareNode w ord at index node old (Some new) out)) st = check_statuses (we_api w) new"
proof -
  let ?base = "zero_event\<lparr> ev_Time := at, ev_Datacenter := we_Datacenter w, ev_ConsulIndex := index,
    ev_Kind := KindNode, ev_NodeName := n_Node node, ev_NodeIP := n_Address node,
    ev_OldNodeStatus := nodeStatus (we_api w) old, ev_NewNodeStatus := nodeStatus (we_api w) new \<rparr>"
  let ?es = "map (\<lambda>(c, a, b). check_event ?base KindNode (\<lambda>e. e) c a b) (changes (we_api w) ord old new)"
  have es: "o_events (compareNode w ord at index node old (Some new) out) = o_events out @ ?es"
    by (simp add: compareNode_def compareChecks_events)
  have "replay ?es (check_statuses (we_api w) old) cid = check_statuses (we_api w) new cid" for cid
  proof -
    have "filter (\<lambda>e. ev_CheckID e = cid) ?es = map (\<lambda>(c, a, b). check_event ?base KindNode (\<lambda>e. e) c a b)
        (check_change (we_api w) (check_at old cid) (check_at new cid))"
      unfolding changes_of_check[OF assms(1), symmetric] by (simp add: filter_map comp_def case_prod_unfold check_event_def)
    then show ?thesis
      unfolding replay_at[of ?es] using change_statuses[of "\<lambda>e. e" ?base KindNode "we_api w" old cid new]
      by (simp only: replay_def)
  qed
  then have "replay ?es (check_statuses (we_api w) old) = check_statuses (we_api w) new"
    by (rule ext)
  then show ?thesis
    unfolding es replay_append assms(2) .
qed

lemma node_run_inv:
  assumes "orders_ok ord" "node_run w ord node countReady F s"
  shows "nw_ready s = (if countReady \<and> \<not> nw_first s then 1 else 0)"
    and "nw_first s \<and> nw_running s \<longrightarrow> o_events (nw_out s) = [] \<and> nw_last s = []"
    and "nw_running s \<and> \<not> nw_first s \<longrightarrow> replay (o_events (nw_out s)) (check_statuses (we_api w) F) =
      check_statuses (we_api w) (nw_last s)"
proof -
  have "nw_ready s = (if countReady \<and> \<not> nw_first s then 1 else 0) \<and>
    (nw_first s \<and> nw_running s \<longrightarrow> o_events (nw_out s) = [] \<and> nw_last s = []) \<and>
    (nw_running s \<and> \<not> nw_first s \<longrightarrow> replay (o_events (nw_out s)) (check_statuses (we_api w) F) =
      check_statuses (we_api w) (nw_last s))"
    using assms(2)
  proof (induction rule: node_run.induct)
    case node_new
    then show ?case by (simp add: NodeWatch_new_def)
  next
    case (node_turn s turn)
    show ?case
    proof (cases turn)
      case (NdReply at res)
      then show ?thesis
        using node_turn compareNode_replay[OF assms(1)]
        by (auto simp: watchNode_turn_def Let_def node_turn_ok_def replay_def split: if_splits)
    qed (use node_turn in \<open>auto simp: watchNode_turn_def split: if_splits\<close>)
  qed
  then show "nw_ready s = (if countReady \<and> \<not> nw_first s then 1 else 0)"
    "nw_first s \<and> nw_running s \<longrightarrow> o_events (nw_out s) = [] \<and> nw_last s = []"
    "nw_running s \<and> \<not> nw_first s \<longrightarrow> replay (o_events (nw_out s)) (check_statuses (we_api w) F) =
      check_statuses (we_api w) (nw_last s)"
    by blast+
qed


subsection \<open>Starting and stopping watches\<close>

text \<open>The two loops over names, without the rest of the state.\<close>

definition gen_add :: "('x \<Rightarrow> string) \<Rightarrow> 'x \<Rightarrow> (string, nat) gomap \<times> nat \<times> ('x \<times> nat) list \<Rightarrow>
    (string, nat) gomap \<times> nat \<times> ('x \<times> nat) list" where
  "gen_add f x = (\<lambda>(m, c, st). if map_of m (f x) \<noteq> None then (m, c, st) else (map_put m (f x) c, c + 1, st @ [(x, c)]))"

definition gen_drop :: "(string \<Rightarrow> bool) \<Rightarrow> string \<times> nat \<Rightarrow> (string, nat) gomap \<times> nat list \<Rightarrow> (string, nat) gomap \<times> nat list" where
  "gen_drop P x = (\<lambda>(m, cl). if P (fst x) then (map_del m (fst x), cl @ [snd x]) else (m, cl))"

lemma gen_add_apply [simp]:
  "gen_add f x (m, c, st) = (if map_of m (f x) \<noteq> None then (m, c, st) else (map_put m (f x) c, c + 1, st @ [(x, c)]))"
  by (simp add: gen_add_def)

lemma gen_drop_apply [simp]:
  "gen_drop P x (m, cl) = (if P (fst x) then (map_del m (fst x), cl @ [snd x]) else (m, cl))"
  by (simp add: gen_drop_def)

lemma put_new: "map_of m k = None \<Longrightarrow> map_put m k v = m @ [(k, v)]"
  by (induction m) (auto split: if_splits)

lemma gen_add_spec:
  assumes "fold (gen_add f) xs (m, c, []) = (m', c', st)"
  shows "m' = m @ map (\<lambda>(x, c). (f x, c)) st \<and> map snd st = [c..<c'] \<and> c \<le> c' \<and>
    distinct (map (f \<circ> fst) st) \<and> (f \<circ> fst) ` set st = f ` set xs - fst ` set m \<and> fst ` set st \<subseteq> set xs"
  using assms
proof (induction xs arbitrary: m' c' st rule: rev_induct)
  case Nil
  then show ?case by simp
next
  case (snoc x xs)
  obtain m1 c1 st1 where prev: "fold (gen_add f) xs (m, c, []) = (m1, c1, st1)"
    by (metis prod_cases3)
  note IH = snoc.IH[OF prev]
  have "fst ` set m1 = fst ` set m \<union> (f \<circ> fst) ` set st1"
    using IH by (auto simp: image_Un image_image case_prod_unfold)
  then have m1: "fst ` set m1 = fst ` set m \<union> f ` set xs"
    using IH by auto
  show ?case
  proof (cases "map_of m1 (f x)")
    case None
    then have new: "f x \<notin> fst ` set m" "f x \<notin> f ` set xs" "f x \<notin> (f \<circ> fst) ` set st1"
      using m1 IH by (auto simp: map_of_eq_None_iff)
    have res: "m' = m1 @ [(f x, c1)]" "c' = c1 + 1" "st = st1 @ [(x, c1)]"
      using snoc.prems prev None put_new[OF None, of c1] by simp_all
    have "(f \<circ> fst) ` set st = f ` set (xs @ [x]) - fst ` set m"
      using IH new unfolding res by auto
    then show ?thesis
      using IH new(3) unfolding res by auto
  next
    case (Some y)
    then have "f x \<in> fst ` set m1"
      by (metis domI dom_map_of_conv_image_fst)
    moreover have "m' = m1" "c' = c1" "st = st1"
      using snoc.prems prev Some by simp_all
    ultimately show ?thesis
      using IH m1 by auto
  qed
qed

lemma gen_drop_spec:
  "fold (gen_drop P) xs (m, cl) =
     (filter (\<lambda>x. \<not> (P (fst x) \<and> fst x \<in> fst ` set xs)) m, cl @ map snd (filter (P \<circ> fst) xs))"
proof (induction xs arbitrary: m cl)
  case Nil
  then show ?case by simp
next
  case (Cons x xs)
  have "AList.delete (fst x) m = filter (\<lambda>y. fst y \<noteq> fst x) m"
    unfolding AList.delete_eq by (rule filter_cong) auto
  then show ?case
    by (auto simp: Cons.IH intro!: filter_cong)
qed

lemma fold_add_service:
  "fold (gen_add fst) xs (w_services s, w_chans s, []) = (m, c, st) \<Longrightarrow>
   fold (add_service initial) xs (s, a) =
     (s\<lparr> w_services := m, w_chans := c,
         w_started_services := w_started_services s @ map (\<lambda>(x, c). (fst x, c, initial)) st \<rparr>, a + length st)"
proof (induction xs arbitrary: m c st rule: rev_induct)
  case Nil
  then show ?case by simp
next
  case (snoc x xs)
  obtain m1 c1 st1 where prev: "fold (gen_add fst) xs (w_services s, w_chans s, []) = (m1, c1, st1)"
    by (metis prod_cases3)
  show ?case
    using snoc.prems prev snoc.IH[OF prev] by (cases "map_of m1 (fst x)") (auto simp: add_service_def)
qed

lemma fold_drop_service:
  "fold (gen_drop (\<lambda>n. map_of services n = None)) xs (w_services s, w_closed s) = (m, cl) \<Longrightarrow>
   fold (drop_service services) xs s = s\<lparr> w_services := m, w_closed := cl \<rparr>"
proof (induction xs arbitrary: m cl rule: rev_induct)
  case Nil
  then show ?case by simp
next
  case (snoc x xs)
  obtain m1 cl1 where prev: "fold (gen_drop (\<lambda>n. map_of services n = None)) xs (w_services s, w_closed s) = (m1, cl1)"
    by (metis surj_pair)
  show ?case
    using snoc.prems prev snoc.IH[OF prev] by (auto simp: drop_service_def)
qed

lemma fold_add_node:
  "fold (gen_add n_Node) ns (w_nodes s, w_chans s, []) = (m, c, st) \<Longrightarrow>
   fold (add_node dc at index initial) ns (s, present, a) =
     (s\<lparr> w_nodes := m, w_chans := c,
         w_nodeIPs := fold (\<lambda>n ips. map_put ips (n_Node n) (n_Address n)) ns (w_nodeIPs s),
         w_events := w_events s @ (if initial then [] else map (\<lambda>(n, c).
           zero_event\<lparr> ev_Time := at, ev_Datacenter := dc, ev_Kind := KindNode, ev_ConsulIndex := index,
             ev_NodeName := n_Node n, ev_NodeIP := n_Address n,
             ev_OldNodeStatus := StatusMissing, ev_NewNodeStatus := StatusUnknown \<rparr>) st),
         w_started_nodes := w_started_nodes s @ map (\<lambda>(n, c). (n, c, initial)) st \<rparr>,
      fold (\<lambda>n p. map_put p (n_Node n) True) ns present, a + length st)"
proof (induction ns arbitrary: m c st rule: rev_induct)
  case Nil
  then show ?case by simp
next
  case (snoc n ns)
  obtain m1 c1 st1 where prev: "fold (gen_add n_Node) ns (w_nodes s, w_chans s, []) = (m1, c1, st1)"
    by (metis prod_cases3)
  show ?case
    using snoc.prems prev snoc.IH[OF prev]
    by (cases "map_of m1 (n_Node n)") (auto simp: add_node_def Let_def)
qed

lemma fold_drop_node:
  "fold (gen_drop (\<lambda>n. \<not> map_get False present n)) xs (w_nodes s, w_closed s) = (m, cl) \<Longrightarrow>
   fold (drop_node present) xs s = s\<lparr> w_nodes := m, w_closed := cl,
     w_nodeIPs := fold (\<lambda>x ips. if \<not> map_get False present (fst x) then map_del ips (fst x) else ips) xs (w_nodeIPs s) \<rparr>"
proof (induction xs arbitrary: m cl rule: rev_induct)
  case Nil
  then show ?case by simp
next
  case (snoc x xs)
  obtain m1 cl1 where prev: "fold (gen_drop (\<lambda>n. \<not> map_get False present n)) xs (w_nodes s, w_closed s) = (m1, cl1)"
    by (metis surj_pair)
  show ?case
    using snoc.prems prev snoc.IH[OF prev] by (auto simp: drop_node_def)
qed

lemma present_mem: "map_get False (fold (\<lambda>n p. map_put p (n_Node n) True) ns p) k \<longleftrightarrow> map_get False p k \<or> k \<in> n_Node ` set ns"
  by (induction ns arbitrary: p) auto

text \<open>
  What both loops do to one map of watches: \<open>listed\<close> names stay or are added, each new
  one with a fresh channel; of the others the channels are closed.
\<close>

lemma sync_gen:
  assumes "fold (gen_add f) xs (m, c, []) = (m1, c1, st)" "mset (ord m1) = mset m1" "gomap_ok m"
    and "fold (gen_drop P) (ord m1) (m1, cl) = (m2, cl2)" "\<And>n. P n \<longleftrightarrow> n \<notin> f ` set xs"
    and "distinct (map snd m @ oth @ cl)" "\<forall>d \<in> set (map snd m @ oth @ cl). d < c"
  shows "gomap_ok m2" "fst ` set m2 = f ` set xs"
    and "distinct (map snd m2 @ oth @ cl2)" "\<forall>d \<in> set (map snd m2 @ oth @ cl2). d < c1"
    and "set cl2 = set cl \<union> snd ` {x \<in> set m. fst x \<notin> f ` set xs}"
    and "\<And>n. n \<in> f ` set xs \<Longrightarrow> n \<in> fst ` set m \<Longrightarrow> map_of m2 n = map_of m n"
    and "\<And>x d. (x, d) \<in> set st \<Longrightarrow> map_of m2 (f x) = Some d"
    and "distinct (map (f \<circ> fst) st)" "(f \<circ> fst) ` set st = f ` set xs - fst ` set m" "fst ` set st \<subseteq> set xs"
proof -
  let ?new = "map (\<lambda>(x, c). (f x, c)) st"
  note add = gen_add_spec[OF assms(1)]
  have m1: "m1 = m @ ?new" and chans: "map snd st = [c..<c1]" "c \<le> c1"
    using add by blast+
  show started: "distinct (map (f \<circ> fst) st)" "(f \<circ> fst) ` set st = f ` set xs - fst ` set m" "fst ` set st \<subseteq> set xs"
    using add by blast+
  have keys_new: "fst ` set ?new = f ` set xs - fst ` set m"
    unfolding started(2)[symmetric] by (simp add: image_image case_prod_unfold comp_def)
  have ok1: "gomap_ok m1"
  proof -
    have "map fst ?new = map (f \<circ> fst) st"
      by (simp add: comp_def case_prod_unfold)
    then have "distinct (map fst ?new)"
      using started(1) by metis
    moreover have "fst ` set m \<inter> fst ` set ?new = {}"
      unfolding keys_new by blast
    ultimately show ?thesis
      using assms(3) unfolding m1 gomap_ok_def map_append distinct_append set_map by blast
  qed
  have keys1: "fst ` set (ord m1) = fst ` set m1" "set (ord m1) = set m1"
    using mset_eq_setD[OF assms(2)] by auto
  have m2: "m2 = filter (\<lambda>x. fst x \<in> f ` set xs) m1"
    and cl2: "cl2 = cl @ map snd (filter (\<lambda>x. fst x \<notin> f ` set xs) (ord m1))"
  proof -
    have P: "P \<circ> fst = (\<lambda>x. fst x \<notin> f ` set xs)"
      by (simp add: fun_eq_iff assms(5))
    show "cl2 = cl @ map snd (filter (\<lambda>x. fst x \<notin> f ` set xs) (ord m1))"
      using assms(4) unfolding gen_drop_spec P prod.inject by blast
    show "m2 = filter (\<lambda>x. fst x \<in> f ` set xs) m1"
      using assms(4) unfolding gen_drop_spec by (auto simp: assms(5) keys1 intro!: filter_cong)
  qed
  show ok2: "gomap_ok m2"
    using ok1 unfolding m2 gomap_ok_def by (rule distinct_map_filter)
  have "fst ` set m1 = fst ` set m \<union> f ` set xs"
    unfolding m1 set_append image_Un keys_new by blast
  then show "fst ` set m2 = f ` set xs"
    unfolding m2 by force
  have snd_new: "map snd ?new = [c..<c1]"
    unfolding chans(1)[symmetric] by (simp add: comp_def case_prod_unfold)
  have "mset (map snd m2 @ oth @ cl2) = mset (map snd m1 @ oth @ cl)"
  proof -
    have "mset (filter (\<lambda>x. fst x \<notin> f ` set xs) (ord m1)) = mset (filter (\<lambda>x. fst x \<notin> f ` set xs) m1)"
      by (simp only: mset_filter assms(2))
    then have "mset m2 + mset (filter (\<lambda>x. fst x \<notin> f ` set xs) (ord m1)) = mset m1"
      unfolding m2 by (simp add: multiset_partition[symmetric])
    then have "image_mset snd (mset m2) + image_mset snd (mset (filter (\<lambda>x. fst x \<notin> f ` set xs) (ord m1))) = image_mset snd (mset m1)"
      by (metis image_mset_union)
    then show ?thesis
      unfolding cl2 by (simp add: ac_simps)
  qed
  moreover have "distinct (map snd m1 @ oth @ cl)"
  proof -
    have "set [c..<c1] \<inter> set (map snd m @ oth @ cl) = {}"
      using assms(7) by (metis (no_types, lifting) IntE all_not_in_conv atLeastLessThan_iff atLeastLessThan_upt leD)
    then show ?thesis
      using assms(6) unfolding m1 map_append snd_new distinct_append set_append by auto
  qed
  ultimately show "distinct (map snd m2 @ oth @ cl2)"
    using mset_eq_imp_distinct_iff by blast
  have "\<forall>d \<in> set (map snd m1 @ oth @ cl). d < c1"
  proof
    fix d
    assume "d \<in> set (map snd m1 @ oth @ cl)"
    then have "d \<in> set (map snd m @ oth @ cl) \<or> d \<in> set [c..<c1]"
      unfolding m1 map_append snd_new by auto
    then show "d < c1"
      using assms(7) chans(2) by (metis atLeastLessThan_iff atLeastLessThan_upt less_le_trans)
  qed
  then show "\<forall>d \<in> set (map snd m2 @ oth @ cl2). d < c1"
    using mset_eq_setD[OF \<open>mset (map snd m2 @ oth @ cl2) = mset (map snd m1 @ oth @ cl)\<close>] by blast
  have "f x \<in> f ` set xs" if "(x, d) \<in> set st" for x d
    using that started(3) by force
  then have "{x \<in> set m1. fst x \<notin> f ` set xs} = {x \<in> set m. fst x \<notin> f ` set xs}"
    unfolding m1 by auto
  then show "set cl2 = set cl \<union> snd ` {x \<in> set m. fst x \<notin> f ` set xs}"
    unfolding cl2 using keys1(2) by auto
  have look: "map_of m2 n = Some d \<longleftrightarrow> (n, d) \<in> set m1 \<and> n \<in> f ` set xs" for n d
    using gomap_lookup_iff[OF ok2, of n d] unfolding m2 by auto
  show "map_of m2 n = map_of m n" if listed: "n \<in> f ` set xs" and known: "n \<in> fst ` set m" for n
  proof -
    obtain d where d: "map_of m n = Some d"
      using known by (metis domD dom_map_of_conv_image_fst)
    then have "(n, d) \<in> set m1"
      unfolding m1 by (auto dest: map_of_SomeD)
    with d look listed show ?thesis by simp
  qed
  show "map_of m2 (f x) = Some d" if "(x, d) \<in> set st" for x d
    using look that started(3) unfolding m1 by force
qed

definition chans_ok :: "Watcher \<Rightarrow> bool" where
  "chans_ok s \<longleftrightarrow> gomap_ok (w_services s) \<and> gomap_ok (w_nodes s) \<and>
     distinct (map snd (w_services s) @ map snd (w_nodes s) @ w_closed s) \<and>
     (\<forall>c \<in> set (map snd (w_services s) @ map snd (w_nodes s) @ w_closed s). c < w_chans s)"

definition keeps_entries :: "('a list \<Rightarrow> 'a list) \<Rightarrow> bool" where
  "keeps_entries ord \<longleftrightarrow> (\<forall>m. mset (ord m) = mset m)"

lemma syncServices_spec:
  fixes services :: "(string, string list) gomap" and initial :: bool
  assumes "chans_ok s" "keeps_entries ord1" "keeps_entries ord2"
  defines "s' \<equiv> syncServices ord1 ord2 services initial s" and "listed \<equiv> fst ` set services"
  shows "chans_ok s'" "fst ` set (w_services s') = listed" "w_nodes s' = w_nodes s" "w_events s' = w_events s"
    and "set (w_closed s') = set (w_closed s) \<union> snd ` {x \<in> set (w_services s). fst x \<notin> listed}"
    and "\<And>n. n \<in> listed \<Longrightarrow> n \<in> fst ` set (w_services s) \<Longrightarrow> map_of (w_services s') n = map_of (w_services s) n"
    and "\<exists>new. w_started_services s' = w_started_services s @ map (\<lambda>(n, c). (n, c, initial)) new \<and>
      distinct (map fst new) \<and> fst ` set new = listed - fst ` set (w_services s) \<and>
      (\<forall>(n, c) \<in> set new. map_of (w_services s') n = Some c) \<and>
      w_ready s' = (if initial then listArrived (length new) (w_ready s) else w_ready s)"
proof -
  obtain m1 c1 st where add: "fold (gen_add fst) (ord1 services) (w_services s, w_chans s, []) = (m1, c1, st)"
    by (metis prod_cases3)
  obtain m2 cl2 where drop: "fold (gen_drop (\<lambda>n. map_of services n = None)) (ord2 m1) (m1, w_closed s) = (m2, cl2)"
    by (metis surj_pair)
  obtain mid where added: "fold (add_service initial) (ord1 services) (s, 0) = (mid, length st)"
    and mid: "w_services mid = m1" "w_chans mid = c1" "w_closed mid = w_closed s" "w_nodes mid = w_nodes s"
      "w_ready mid = w_ready s" "w_events mid = w_events s"
      "w_started_services mid = w_started_services s @ map (\<lambda>(x, c). (fst x, c, initial)) st"
    using fold_add_service[OF add, of initial 0] by simp
  have dropped: "fold (drop_service services) (ord2 m1) mid = mid\<lparr> w_services := m2, w_closed := cl2 \<rparr>"
    by (rule fold_drop_service) (simp add: drop mid)
  have s': "s' = (let s = mid\<lparr> w_services := m2, w_closed := cl2 \<rparr> in
      if initial then s\<lparr>w_ready := listArrived (length st) (w_ready s)\<rparr> else s)"
    unfolding s'_def syncServices_def added using dropped mid(1) by (simp add: Let_def)
  have set1: "set (ord1 services) = set services"
    using assms(2) mset_eq_setD unfolding keeps_entries_def by metis
  have pre: "mset (ord2 m1) = mset m1" "gomap_ok (w_services s)"
    "\<And>n. (map_of services n = None) \<longleftrightarrow> n \<notin> fst ` set services"
    "distinct (map snd (w_services s) @ map snd (w_nodes s) @ w_closed s)"
    "\<forall>d \<in> set (map snd (w_services s) @ map snd (w_nodes s) @ w_closed s). d < w_chans s"
    using assms(1,3) by (auto simp: chans_ok_def keeps_entries_def map_of_eq_None_iff)
  note res = sync_gen[where ord = ord2 and oth = "map snd (w_nodes s)",
      OF add pre(1,2) drop pre(3)[folded set1] pre(4,5), unfolded set1]
  have fields: "w_services s' = m2" "w_closed s' = cl2" "w_chans s' = c1"
    "w_started_services s' = w_started_services s @ map (\<lambda>(x, c). (fst x, c, initial)) st"
    "w_ready s' = (if initial then listArrived (length st) (w_ready s) else w_ready s)"
    unfolding s' by (simp_all add: Let_def mid)
  show nodes: "w_nodes s' = w_nodes s" "w_events s' = w_events s"
    unfolding s' by (simp_all add: Let_def mid)
  show "chans_ok s'"
    using res(1,3,4) assms(1) unfolding chans_ok_def fields nodes by blast
  show "fst ` set (w_services s') = listed"
    unfolding fields listed_def by (rule res(2))
  show "set (w_closed s') = set (w_closed s) \<union> snd ` {x \<in> set (w_services s). fst x \<notin> listed}"
    unfolding fields listed_def by (rule res(5))
  show "map_of (w_services s') n = map_of (w_services s) n" if "n \<in> listed" "n \<in> fst ` set (w_services s)" for n
    using res(6) that unfolding fields listed_def by blast
  let ?new = "map (\<lambda>(x, c). (fst x, c)) st"
  have "map (\<lambda>(n, c). (n, c, initial)) ?new = map (\<lambda>(x, c). (fst x, c, initial)) st"
    "map fst ?new = map (fst \<circ> fst) st" "length ?new = length st"
    by (simp_all add: comp_def case_prod_unfold)
  moreover have "fst ` set ?new = listed - fst ` set (w_services s)"
    using res(9) unfolding listed_def by (simp add: image_image case_prod_unfold comp_def)
  moreover have "\<forall>(n, c) \<in> set ?new. map_of (w_services s') n = Some c"
    using res(7) unfolding fields by auto
  ultimately show "\<exists>new. w_started_services s' = w_started_services s @ map (\<lambda>(n, c). (n, c, initial)) new \<and>
      distinct (map fst new) \<and> fst ` set new = listed - fst ` set (w_services s) \<and>
      (\<forall>(n, c) \<in> set new. map_of (w_services s') n = Some c) \<and>
      w_ready s' = (if initial then listArrived (length new) (w_ready s) else w_ready s)"
    using res(8) unfolding fields by (intro exI[of _ ?new]) metis
qed

lemma syncNodes_spec:
  fixes dc :: string and at :: Time and nodes :: "Node list" and index :: "64 word" and initial :: bool
  assumes "chans_ok s" "keeps_entries ord2"
  defines "s' \<equiv> syncNodes ord2 dc at nodes index initial s" and "listed \<equiv> n_Node ` set nodes"
  shows "chans_ok s'" "fst ` set (w_nodes s') = listed" "w_services s' = w_services s"
    and "set (w_closed s') = set (w_closed s) \<union> snd ` {x \<in> set (w_nodes s). fst x \<notin> listed}"
    and "\<And>n. n \<in> listed \<Longrightarrow> n \<in> fst ` set (w_nodes s) \<Longrightarrow> map_of (w_nodes s') n = map_of (w_nodes s) n"
    and "\<exists>new. w_started_nodes s' = w_started_nodes s @ map (\<lambda>(n, c). (n, c, initial)) new \<and>
      distinct (map (n_Node \<circ> fst) new) \<and> (n_Node \<circ> fst) ` set new = listed - fst ` set (w_nodes s) \<and>
      fst ` set new \<subseteq> set nodes \<and> (\<forall>(n, c) \<in> set new. map_of (w_nodes s') (n_Node n) = Some c) \<and>
      w_events s' = w_events s @ (if initial then [] else map (\<lambda>(n, c).
        zero_event\<lparr> ev_Time := at, ev_Datacenter := dc, ev_Kind := KindNode, ev_ConsulIndex := index,
          ev_NodeName := n_Node n, ev_NodeIP := n_Address n,
          ev_OldNodeStatus := StatusMissing, ev_NewNodeStatus := StatusUnknown \<rparr>) new) \<and>
      w_ready s' = (if initial then listArrived (length new) (w_ready s) else w_ready s)"
proof -
  let ?present = "fold (\<lambda>n p. map_put p (n_Node n) True) nodes []"
  let ?ips = "fold (\<lambda>n ips. map_put ips (n_Node n) (n_Address n)) nodes (w_nodeIPs s)"
  obtain m1 c1 st where add: "fold (gen_add n_Node) nodes (w_nodes s, w_chans s, []) = (m1, c1, st)"
    by (metis prod_cases3)
  obtain m2 cl2 where drop: "fold (gen_drop (\<lambda>n. \<not> map_get False ?present n)) (ord2 m1) (m1, w_closed s) = (m2, cl2)"
    by (metis surj_pair)
  obtain mid where added: "fold (add_node dc at index initial) nodes (s, [], 0) = (mid, ?present, length st)"
    and mid: "w_nodes mid = m1" "w_chans mid = c1" "w_closed mid = w_closed s" "w_services mid = w_services s"
      "w_ready mid = w_ready s" "w_started_nodes mid = w_started_nodes s @ map (\<lambda>(n, c). (n, c, initial)) st"
      "w_events mid = w_events s @ (if initial then [] else map (\<lambda>(n, c).
        zero_event\<lparr> ev_Time := at, ev_Datacenter := dc, ev_Kind := KindNode, ev_ConsulIndex := index,
          ev_NodeName := n_Node n, ev_NodeIP := n_Address n,
          ev_OldNodeStatus := StatusMissing, ev_NewNodeStatus := StatusUnknown \<rparr>) st)"
    using fold_add_node[OF add, of dc at index initial "[]" 0] by simp
  obtain ips where dropped: "fold (drop_node ?present) (ord2 m1) mid = mid\<lparr> w_nodes := m2, w_closed := cl2, w_nodeIPs := ips \<rparr>"
    using fold_drop_node[of ?present "ord2 m1" mid m2 cl2] drop unfolding mid by simp
  have s': "s' = (let s = mid\<lparr> w_nodes := m2, w_closed := cl2, w_nodeIPs := ips \<rparr> in
      if initial then s\<lparr>w_ready := listArrived (length st) (w_ready s)\<rparr> else s)"
    unfolding s'_def syncNodes_def added using dropped mid(1) by (simp add: Let_def)
  have pre: "mset (ord2 m1) = mset m1" "gomap_ok (w_nodes s)"
    "\<And>n. (\<not> map_get False ?present n) \<longleftrightarrow> n \<notin> n_Node ` set nodes"
    "distinct (map snd (w_nodes s) @ map snd (w_services s) @ w_closed s)"
    "\<forall>d \<in> set (map snd (w_nodes s) @ map snd (w_services s) @ w_closed s). d < w_chans s"
    using assms(1,2) by (auto simp: chans_ok_def keeps_entries_def present_mem)
  note res = sync_gen[where ord = ord2 and oth = "map snd (w_services s)", OF add pre(1,2) drop pre(3) pre(4,5)]
  have fields: "w_nodes s' = m2" "w_closed s' = cl2" "w_chans s' = c1" "w_events s' = w_events mid"
    "w_started_nodes s' = w_started_nodes mid"
    "w_ready s' = (if initial then listArrived (length st) (w_ready s) else w_ready s)"
    unfolding s' by (simp_all add: Let_def mid)
  show services: "w_services s' = w_services s"
    unfolding s' by (simp add: Let_def mid)
  have "gomap_ok (w_services s)"
    using assms(1) by (simp add: chans_ok_def)
  moreover have "distinct (map snd (w_services s) @ map snd m2 @ cl2)"
    using res(3) by auto
  moreover have "\<forall>d \<in> set (map snd (w_services s) @ map snd m2 @ cl2). d < c1"
    using res(4) by auto
  ultimately show "chans_ok s'"
    using res(1) unfolding chans_ok_def fields services by blast
  show "fst ` set (w_nodes s') = listed"
    unfolding fields listed_def by (rule res(2))
  show "set (w_closed s') = set (w_closed s) \<union> snd ` {x \<in> set (w_nodes s). fst x \<notin> listed}"
    unfolding fields listed_def by (rule res(5))
  show "map_of (w_nodes s') n = map_of (w_nodes s) n" if "n \<in> listed" "n \<in> fst ` set (w_nodes s)" for n
    using res(6) that unfolding fields listed_def by blast
  show "\<exists>new. w_started_nodes s' = w_started_nodes s @ map (\<lambda>(n, c). (n, c, initial)) new \<and>
      distinct (map (n_Node \<circ> fst) new) \<and> (n_Node \<circ> fst) ` set new = listed - fst ` set (w_nodes s) \<and>
      fst ` set new \<subseteq> set nodes \<and> (\<forall>(n, c) \<in> set new. map_of (w_nodes s') (n_Node n) = Some c) \<and>
      w_events s' = w_events s @ (if initial then [] else map (\<lambda>(n, c).
        zero_event\<lparr> ev_Time := at, ev_Datacenter := dc, ev_Kind := KindNode, ev_ConsulIndex := index,
          ev_NodeName := n_Node n, ev_NodeIP := n_Address n,
          ev_OldNodeStatus := StatusMissing, ev_NewNodeStatus := StatusUnknown \<rparr>) new) \<and>
      w_ready s' = (if initial then listArrived (length new) (w_ready s) else w_ready s)"
    using res(7-10) unfolding fields mid listed_def by (intro exI[of _ st]) auto
qed

text \<open>The states the two list watches can reach, in any interleaving of their rounds.\<close>

inductive lists_reach :: "ListWatch \<Rightarrow> ListWatch \<Rightarrow> Watcher \<Rightarrow> bool" where
  lists_new: "lists_reach ListWatch_new ListWatch_new Watcher_New"
| lists_services: "lists_reach l1 l2 s \<Longrightarrow> keeps_entries ord1 \<Longrightarrow> keeps_entries ord2 \<Longrightarrow>
    watchServices_round ord1 ord2 reply (l1, s) = (l1', s') \<Longrightarrow> lists_reach l1' l2 s'"
| lists_nodes: "lists_reach l1 l2 s \<Longrightarrow> keeps_entries ord2 \<Longrightarrow>
    watchNodes_round ord2 dc at reply' (l2, s) = (l2', s') \<Longrightarrow> lists_reach l1 l2' s'"

lemma lists_reach_ok: "lists_reach l1 l2 s \<Longrightarrow> chans_ok s"
proof (induction rule: lists_reach.induct)
  case lists_new
  then show ?case by (simp add: chans_ok_def Watcher_New_def)
next
  case (lists_services l1 l2 s ord1 ord2 reply l1' s')
  then show ?case
    using syncServices_spec(1)[OF lists_services.IH lists_services.hyps(2,3)]
    by (auto simp: watchServices_round_def split: option.splits if_splits)
next
  case (lists_nodes l1 l2 s ord2 dc at reply' l2' s')
  then show ?case
    using syncNodes_spec(1)[OF lists_nodes.IH lists_nodes.hyps(2)]
    by (auto simp: watchNodes_round_def split: option.splits if_splits)
qed

lemma names_sorted: "gomap_ok m \<Longrightarrow> sort_Strings (map fst m) = sorted_list_of_set (fst ` set m)"
  unfolding sort_Strings_def gomap_ok_def
  by (metis list.set_map sorted_list_of_set_sort_remdups distinct_remdups_id)

lemma sum_reports:
  assumes "\<And>s. s \<in> set xs \<Longrightarrow> f s = (if P s then 0 else 1::nat)"
  shows "sum_list (map f xs) \<le> length xs \<and> (sum_list (map f xs) = length xs \<longleftrightarrow> list_all (\<lambda>s. \<not> P s) xs)"
  using assms by (induction xs) auto


section \<open>Properties\<close>

text \<open>
  C2: a service watch follows its service. At every moment of every run between the first reply
  and the end, a reader who applies the events sent so far to the instances of the first reply
  knows exactly the instances of the last one; exactly those have been announced to the
  registry and have a mark; and every mark stands for a record that was sent.
\<close>

theorem service_watch_tracks:
  assumes "orders_ok ord" "service_run w ord countReady F s" "sw_running s" "\<not> sw_first s"
  shows "presence (o_events (sw_out s)) F = keys_of (sw_last s) \<and>
    fst ` set (o_marks (sw_out s)) = keys_of (sw_last s) \<and> marks_sent w (sw_out s)"
  using service_run_inv[OF assms(1,2)] assms(3,4) by (simp add: service_inv_def)

text \<open>
  C35: a service that leaves the catalog takes its instances with it, unless the watch is
  asleep. Stopped between two replies, the watch reports every remaining instance gone; but
  stopped during the sleep after an error it returns without a word, and for a reader of the
  events the instances stay.
\<close>

theorem service_stop_reports_gone:
  assumes "orders_ok ord" "service_run w ord countReady F s" "sw_running s" "\<not> sw_first s"
  shows "(\<exists>s'. watchService_turn w ord countReady (SvStop at) s = Inr s' \<and> \<not> sw_running s' \<and>
      presence (o_events (sw_out s')) F = {}) \<and>
    (\<exists>s'. watchService_turn w ord countReady (SvError False) s = Inr s' \<and> \<not> sw_running s' \<and>
      presence (o_events (sw_out s')) F = keys_of (sw_last s))"
proof (intro conjI)
  have pres: "presence (o_events (sw_out s)) F = keys_of (sw_last s)"
    using service_run_inv[OF assms(1,2)] assms(3,4) by (simp add: service_inv_def)
  show "\<exists>s'. watchService_turn w ord countReady (SvError False) s = Inr s' \<and> \<not> sw_running s' \<and>
      presence (o_events (sw_out s')) F = keys_of (sw_last s)"
    using pres assms(3) by (simp add: watchService_turn_def)
  obtain out where cmp: "compareService w ord at (sw_idx s) (sw_last s) [] (sw_out s) = Inr out"
    using compareService_by_key[OF assms(1)] by blast
  have "presence (o_events out) F = {}"
    using compareService_presence[OF assms(1) cmp pres] by simp
  then show "\<exists>s'. watchService_turn w ord countReady (SvStop at) s = Inr s' \<and> \<not> sw_running s' \<and>
      presence (o_events (sw_out s')) F = {}"
    using assms(3) cmp pres by (cases "sw_last s = []") (simp_all add: watchService_turn_def)
qed

text \<open>
  A node watch follows the checks of its node: applied to the statuses of the first reply,
  the check events sent so far give the statuses of the last reply, and nothing was sent
  before the first.
\<close>

theorem node_watch_replays:
  assumes "orders_ok ord" "node_run w ord node countReady F s" "nw_running s"
  shows "(if nw_first s then o_events (nw_out s) = []
     else replay (o_events (nw_out s)) (check_statuses (we_api w) F) = check_statuses (we_api w) (nw_last s))"
  using node_run_inv(2,3)[OF assms(1,2)] assms(3) by simp

text \<open>
  C5: Ready is closed exactly when every watch counted at startup has had a reply. In whatever
  order the two lists arrive and the watches report, the channel is closed at most once, not
  before both lists are there, and then if and only if each watch started from them got its
  first reply. So one watch stopped before its first reply keeps it open for good.
\<close>

theorem ready_iff_all_replied:
  assumes "\<And>s. s \<in> set svs \<Longrightarrow> \<exists>F. service_run w ord True F s"
    and "orders_ok ord" "\<And>s. s \<in> set nds \<Longrightarrow> \<exists>node F. node_run w ord node True F s"
    and "child_count ops = int (length svs + length nds)"
    and "report_count ops = int (sum_list (map sw_ready svs) + sum_list (map nw_ready nds))"
  shows "rd_closes (fold ready_step ops readiness_new) \<le> 1 \<and>
    (list_count ops < 2 \<longrightarrow> \<not> rd_closed (fold ready_step ops readiness_new)) \<and>
    (list_count ops = 2 \<longrightarrow> (rd_closed (fold ready_step ops readiness_new) \<longleftrightarrow>
      list_all (\<lambda>s. \<not> sw_first s) svs \<and> list_all (\<lambda>s. \<not> nw_first s) nds))"
proof -
  have "sw_ready s = (if sw_first s then 0 else 1)" if "s \<in> set svs" for s
    using assms(1)[OF that] service_run_ready by fastforce
  note svs = sum_reports[of svs sw_ready sw_first, OF this]
  have "nw_ready s = (if nw_first s then 0 else 1)" if "s \<in> set nds" for s
    using assms(3)[OF that] node_run_inv(1)[OF assms(2)] by fastforce
  note nds = sum_reports[of nds nw_ready nw_first, OF this]
  have "child_count ops \<le> report_count ops \<longleftrightarrow>
      list_all (\<lambda>s. \<not> sw_first s) svs \<and> list_all (\<lambda>s. \<not> nw_first s) nds"
    unfolding assms(4,5) using svs nds by linarith
  then show ?thesis
    using ready_run[of ops] by auto
qed

text \<open>
  C23: the watched services and nodes are those of the catalog. In every reachable state, a
  reply with a new index leaves exactly the listed names watched: a new name gets one watch
  with a stop channel of its own, a known one keeps its channel, and of a name no longer listed
  the channel is closed; and no stop channel is ever closed twice or closed and still in use.
\<close>

theorem list_watches_follow_catalog:
  fixes r1 :: IndexedServices and r2 :: IndexedNodes and dc :: string and at :: Time
  assumes "lists_reach l1 l2 s" "keeps_entries ord1" "keeps_entries ord2"
  defines "s1 \<equiv> snd (watchServices_round ord1 ord2 (Some r1) (l1, s))"
    and "s2 \<equiv> snd (watchNodes_round ord2 dc at (Some r2) (l2, s))"
  shows "distinct (map snd (w_services s) @ map snd (w_nodes s) @ w_closed s) \<and>
    (is_Index r1 \<noteq> lw_idx l1 \<longrightarrow>
      ServiceNames s1 = sorted_list_of_set (fst ` set (is_Services r1)) \<and>
      set (w_closed s1) = set (w_closed s) \<union>
        snd ` {x \<in> set (w_services s). fst x \<notin> fst ` set (is_Services r1)} \<and>
      (\<exists>new. w_started_services s1 = w_started_services s @ map (\<lambda>(n, c). (n, c, lw_first l1)) new \<and>
        distinct (map fst new) \<and> fst ` set new = fst ` set (is_Services r1) - fst ` set (w_services s) \<and>
        (\<forall>(n, c) \<in> set new. map_of (w_services s1) n = Some c))) \<and>
    (in_Index r2 \<noteq> lw_idx l2 \<longrightarrow>
      NodeNames s2 = sorted_list_of_set (n_Node ` set (in_Nodes r2)) \<and>
      set (w_closed s2) = set (w_closed s) \<union> snd ` {x \<in> set (w_nodes s). fst x \<notin> n_Node ` set (in_Nodes r2)} \<and>
      (\<exists>new. w_started_nodes s2 = w_started_nodes s @ map (\<lambda>(n, c). (n, c, lw_first l2)) new \<and>
        distinct (map (n_Node \<circ> fst) new) \<and>
        (n_Node \<circ> fst) ` set new = n_Node ` set (in_Nodes r2) - fst ` set (w_nodes s) \<and>
        (\<forall>(n, c) \<in> set new. map_of (w_nodes s2) (n_Node n) = Some c)))"
proof (intro conjI impI)
  have ok: "chans_ok s"
    using assms(1) by (rule lists_reach_ok)
  then show "distinct (map snd (w_services s) @ map snd (w_nodes s) @ w_closed s)"
    by (simp add: chans_ok_def)
  {
    assume "is_Index r1 \<noteq> lw_idx l1"
    then have s1: "s1 = syncServices ord1 ord2 (is_Services r1) (lw_first l1) s"
      by (simp add: s1_def watchServices_round_def)
    note spec = syncServices_spec[OF ok assms(2,3), where services = "is_Services r1" and initial = "lw_first l1", folded s1]
    show "ServiceNames s1 = sorted_list_of_set (fst ` set (is_Services r1))"
      using spec(1,2) by (simp add: ServiceNames_def names_sorted chans_ok_def)
    show "set (w_closed s1) = set (w_closed s) \<union>
        snd ` {x \<in> set (w_services s). fst x \<notin> fst ` set (is_Services r1)}"
      by (rule spec(5))
    show "\<exists>new. w_started_services s1 = w_started_services s @ map (\<lambda>(n, c). (n, c, lw_first l1)) new \<and>
        distinct (map fst new) \<and> fst ` set new = fst ` set (is_Services r1) - fst ` set (w_services s) \<and>
        (\<forall>(n, c) \<in> set new. map_of (w_services s1) n = Some c)"
      using spec(7) by blast
  }
  {
    assume "in_Index r2 \<noteq> lw_idx l2"
    then have s2: "s2 = syncNodes ord2 dc at (in_Nodes r2) (in_Index r2) (lw_first l2) s"
      by (simp add: s2_def watchNodes_round_def)
    note spec = syncNodes_spec[OF ok assms(3), where dc = dc and at = at and nodes = "in_Nodes r2"
        and index = "in_Index r2" and initial = "lw_first l2", folded s2]
    show "NodeNames s2 = sorted_list_of_set (n_Node ` set (in_Nodes r2))"
      using spec(1,2) by (simp add: NodeNames_def names_sorted chans_ok_def)
    show "set (w_closed s2) = set (w_closed s) \<union> snd ` {x \<in> set (w_nodes s). fst x \<notin> n_Node ` set (in_Nodes r2)}"
      by (rule spec(4))
    show "\<exists>new. w_started_nodes s2 = w_started_nodes s @ map (\<lambda>(n, c). (n, c, lw_first l2)) new \<and>
        distinct (map (n_Node \<circ> fst) new) \<and>
        (n_Node \<circ> fst) ` set new = n_Node ` set (in_Nodes r2) - fst ` set (w_nodes s) \<and>
        (\<forall>(n, c) \<in> set new. map_of (w_nodes s2) (n_Node n) = Some c)"
      using spec(6) by blast
  }
qed


section \<open>Witnesses\<close>

text \<open>A service watch after its first reply, and one stopped before it.\<close>

lemma sample_keys: "keys_of [sample_csn st] = {(''n1'', ''web-1'')}"
  by (auto simp: keys_of_def instance_at_def csn_key_def sample_csn_def sample_node_def sample_service_def split: if_splits)

lemma sample_service_run:
  "\<exists>s. service_run sample_env sample_orders True {(''n1'', ''web-1'')} s \<and> sw_running s \<and> \<not> sw_first s \<and>
     sw_last s = [sample_csn ''passing'']"
proof -
  let ?turn = "SvReply 5 \<lparr> ic_Nodes = [sample_csn ''passing''], ic_Index = 3 \<rparr>"
  obtain s where s: "watchService_turn sample_env sample_orders True ?turn ServiceWatch_new = Inr s"
      "sw_running s" "\<not> sw_first s" "sw_last s = [sample_csn ''passing'']"
    by (simp add: watchService_turn_def service_reply_def ServiceWatch_new_def sample_csn_def announce_Some)
  moreover have "service_turn_ok {(''n1'', ''web-1'')} ServiceWatch_new ?turn"
    by (simp add: service_turn_ok_def ServiceWatch_new_def sample_keys)
  ultimately show ?thesis
    using service_run.run_turn[OF service_run.run_new _ s(1)] by blast
qed

theorem service_watch_tracks_witness:
  "\<exists>s::ServiceWatch. sw_last s = [sample_csn ''passing''] \<and>
    presence (o_events (sw_out s)) {(''n1'', ''web-1'')} = {(''n1'', ''web-1'')} \<and> marks_sent sample_env (sw_out s)"
proof -
  obtain s where s: "service_run sample_env sample_orders True {(''n1'', ''web-1'')} s" "sw_running s" "\<not> sw_first s"
      "sw_last s = [sample_csn ''passing'']"
    using sample_service_run by blast
  from service_watch_tracks[OF sample_orders_ok s(1-3)] s(4) show ?thesis
    by (intro exI[of _ s]) (simp add: sample_keys)
qed

theorem service_stop_reports_gone_witness:
  "\<exists>s s'. watchService_turn sample_env sample_orders True (SvStop 9) s = Inr s' \<and>
      sw_last s = [sample_csn ''passing''] \<and> presence (o_events (sw_out s')) {(''n1'', ''web-1'')} = {}"
proof -
  obtain s where s: "service_run sample_env sample_orders True {(''n1'', ''web-1'')} s" "sw_running s" "\<not> sw_first s"
      "sw_last s = [sample_csn ''passing'']"
    using sample_service_run by blast
  from service_stop_reports_gone[OF sample_orders_ok s(1-3), of 9] s(4) show ?thesis
    by blast
qed

theorem node_watch_replays_witness:
  "o_events (nw_out (watchNode_turn sample_env sample_orders sample_node True (NdError True) NodeWatch_new)) = []"
proof -
  have "node_run sample_env sample_orders sample_node True [] (watchNode_turn sample_env sample_orders sample_node True (NdError True) NodeWatch_new)"
    by (intro node_run.intros) (simp add: node_turn_ok_def)
  from node_watch_replays[OF sample_orders_ok this] show ?thesis
    by (simp add: watchNode_turn_def NodeWatch_new_def)
qed

text \<open>One service, stopped in its first round, and no node: both lists arrive, Ready stays open.\<close>

theorem ready_iff_all_replied_witness:
  "\<not> rd_closed (fold ready_step [ListArrived 1, ListArrived 0] readiness_new)"
proof -
  let ?s = "ServiceWatch_new\<lparr>sw_running := False\<rparr>"
  have run: "service_run sample_env sample_orders True {} ?s"
    by (rule service_run.run_turn[OF service_run.run_new, where turn = SvDone])
      (simp_all add: service_turn_ok_def watchService_turn_def ServiceWatch_new_def)
  let ?ops = "[ListArrived 1, ListArrived 0]"
  have "rd_closes (fold ready_step ?ops readiness_new) \<le> 1 \<and>
    (list_count ?ops < 2 \<longrightarrow> \<not> rd_closed (fold ready_step ?ops readiness_new)) \<and>
    (list_count ?ops = 2 \<longrightarrow> (rd_closed (fold ready_step ?ops readiness_new) \<longleftrightarrow>
      list_all (\<lambda>s. \<not> sw_first s) [?s] \<and> list_all (\<lambda>s. \<not> nw_first s) ([] :: NodeWatch list)))"
    by (rule ready_iff_all_replied[where w = sample_env and ord = sample_orders])
      (use run sample_orders_ok in \<open>auto simp: child_count_def report_count_def ServiceWatch_new_def\<close>)
  then show ?thesis
    by (simp add: list_count_def ServiceWatch_new_def)
qed

theorem list_watches_follow_catalog_witness:
  "ServiceNames (snd (watchServices_round rev rev (Some \<lparr> is_Services = [(''web'', []), (''db'', [])], is_Index = 4 \<rparr>)
      (ListWatch_new, Watcher_New))) = sorted_list_of_set {''web'', ''db''}"
  using list_watches_follow_catalog[OF lists_reach.lists_new, of rev rev
      "\<lparr> is_Services = [(''web'', []), (''db'', [])], is_Index = 4 \<rparr>" "\<lparr> in_Nodes = [], in_Index = 4 \<rparr>"]
  by (simp add: keeps_entries_def ListWatch_new_def)

end
