(* ===== verification/Hub.thy ===== *)
theory Hub
  imports Query "HOL-Library.Sublist"
begin

text \<open>
  The live stream (\<open>server/stream.go\<close>): the hub that fans events out to clients over
  buffered channels, and the loop of \<open>handleStream\<close> that writes them. Channel operations
  that panic in Go are error values; the steps of hub and clients interleave freely.
\<close>


section \<open>Hub and clients\<close>

text \<open>Channels and flags of clients live on a heap: a client is an index.\<close>

record client =
  cl_q :: Query
  cl_ch :: "Event list"
  cl_closed :: bool
  cl_overflow :: bool

record Hub =
  h_heap :: "client list"
  h_clients :: "nat list"
  h_closed :: bool

datatype chan_panic = SendOnClosed | CloseOfClosed

definition clientBuffer :: nat where
  "clientBuffer = 256"

definition NewHub :: Hub where
  "NewHub = \<lparr> h_heap = [], h_clients = [], h_closed = False \<rparr>"

text \<open>One round of the loop of \<open>Publish\<close>: the channel takes the event or the flag is set.\<close>

definition publish_one :: "Event \<Rightarrow> nat \<Rightarrow> Hub \<Rightarrow> chan_panic + Hub" where
  "publish_one e i h =
     (let c = h_heap h ! i in
      if \<not> Match e (cl_q c) then Inr h
      else if cl_closed c then Inl SendOnClosed
      else if length (cl_ch c) < clientBuffer
        then Inr (h\<lparr>h_heap := (h_heap h)[i := c\<lparr>cl_ch := cl_ch c @ [e]\<rparr>]\<rparr>)
        else Inr (h\<lparr>h_heap := (h_heap h)[i := c\<lparr>cl_overflow := True\<rparr>]\<rparr>))"

definition Publish :: "(nat list \<Rightarrow> nat list) \<Rightarrow> Event \<Rightarrow> Hub \<Rightarrow> chan_panic + Hub" where
  "Publish ord e h = (if h_closed h then Inr h else fold_res (publish_one e) (ord (h_clients h)) h)"

definition subscribe :: "Query \<Rightarrow> Hub \<Rightarrow> nat \<times> Hub" where
  "subscribe q h =
     (let i = length (h_heap h);
          c = \<lparr> cl_q = q, cl_ch = [], cl_closed = h_closed h, cl_overflow = False \<rparr>
      in (i, h\<lparr> h_heap := h_heap h @ [c], h_clients := (if h_closed h then h_clients h else h_clients h @ [i]) \<rparr>))"

definition unsubscribe :: "nat \<Rightarrow> Hub \<Rightarrow> Hub" where
  "unsubscribe i h = h\<lparr>h_clients := removeAll i (h_clients h)\<rparr>"

definition close_one :: "nat \<Rightarrow> Hub \<Rightarrow> chan_panic + Hub" where
  "close_one i h =
     (let c = h_heap h ! i in
      if cl_closed c then Inl CloseOfClosed
      else Inr (h\<lparr> h_heap := (h_heap h)[i := c\<lparr>cl_closed := True\<rparr>], h_clients := removeAll i (h_clients h) \<rparr>))"

definition Hub_Close :: "(nat list \<Rightarrow> nat list) \<Rightarrow> Hub \<Rightarrow> chan_panic + Hub" where
  "Hub_Close ord h = fold_res close_one (ord (h_clients h)) (h\<lparr>h_closed := True\<rparr>)"

definition Clients :: "Hub \<Rightarrow> nat" where
  "Clients h = length (h_clients h)"


section \<open>The loop of a stream\<close>

text \<open>
  What has been written, whether an event was written and the overflow flag is still to be
  looked at, and whether the handler has returned, with or without a \<open>reset\<close> frame.
\<close>

record Stream =
  st_written :: "Event list"
  st_checking :: bool
  st_reset :: bool
  st_done :: bool

definition Stream_new :: Stream where
  "Stream_new = \<lparr> st_written = [], st_checking = False, st_reset = False, st_done = False \<rparr>"

text \<open>The receive: the next event, or the end when the channel is closed and empty; else it blocks.\<close>

definition stream_receive :: "nat \<Rightarrow> Hub \<Rightarrow> Stream \<Rightarrow> Hub \<times> Stream" where
  "stream_receive i h s =
     (if st_done s \<or> st_checking s then (h, s)
      else let c = h_heap h ! i in
        case cl_ch c of
          e # es \<Rightarrow> (h\<lparr>h_heap := (h_heap h)[i := c\<lparr>cl_ch := es\<rparr>]\<rparr>,
                     s\<lparr> st_written := st_written s @ [e], st_checking := True \<rparr>)
        | [] \<Rightarrow> if cl_closed c then (h, s\<lparr>st_done := True\<rparr>) else (h, s))"

definition stream_check :: "nat \<Rightarrow> Hub \<Rightarrow> Stream \<Rightarrow> Stream" where
  "stream_check i h s =
     (if st_done s \<or> \<not> st_checking s then s
      else if cl_overflow (h_heap h ! i) then s\<lparr> st_reset := True, st_done := True \<rparr>
      else s\<lparr>st_checking := False\<rparr>)"

text \<open>The request's context ends while the loop waits.\<close>

definition stream_cancel :: "Stream \<Rightarrow> Stream" where
  "stream_cancel s = (if st_checking s then s else s\<lparr>st_done := True\<rparr>)"


section \<open>The system of hub and streams\<close>

text \<open>
  With the streams by client, and for each client the events published while it was
  subscribed that match its query.
\<close>

record System =
  sy_hub :: Hub
  sy_streams :: "nat \<Rightarrow> Stream"
  sy_due :: "nat \<Rightarrow> Event list"

definition System_new :: System where
  "System_new = \<lparr> sy_hub = NewHub, sy_streams = \<lambda>_. Stream_new, sy_due = \<lambda>_. [] \<rparr>"

definition due_after :: "Event \<Rightarrow> Hub \<Rightarrow> (nat \<Rightarrow> Event list) \<Rightarrow> nat \<Rightarrow> Event list" where
  "due_after e h due i =
     (if \<not> h_closed h \<and> i \<in> set (h_clients h) \<and> Match e (cl_q (h_heap h ! i)) then due i @ [e] else due i)"

datatype action =
    DoPublish Event
  | DoSubscribe Query
  | DoUnsubscribe nat
  | DoClose
  | DoReceive nat
  | DoCheck nat
  | DoCancel nat

definition act :: "(nat list \<Rightarrow> nat list) \<Rightarrow> action \<Rightarrow> System \<Rightarrow> chan_panic + System" where
  "act ord a y = (case a of
       DoPublish e \<Rightarrow> res_bind (Publish ord e (sy_hub y)) (\<lambda>h.
         Inr (y\<lparr> sy_hub := h, sy_due := due_after e (sy_hub y) (sy_due y) \<rparr>))
     | DoSubscribe q \<Rightarrow> Inr (y\<lparr>sy_hub := snd (subscribe q (sy_hub y))\<rparr>)
     | DoUnsubscribe i \<Rightarrow>
         Inr (if st_done (sy_streams y i) then y\<lparr>sy_hub := unsubscribe i (sy_hub y)\<rparr> else y)
     | DoClose \<Rightarrow> res_bind (Hub_Close ord (sy_hub y)) (\<lambda>h. Inr (y\<lparr>sy_hub := h\<rparr>))
     | DoReceive i \<Rightarrow> Inr (if i < length (h_heap (sy_hub y)) then
         (case stream_receive i (sy_hub y) (sy_streams y i) of (h, s) \<Rightarrow>
           y\<lparr> sy_hub := h, sy_streams := (sy_streams y)(i := s) \<rparr>) else y)
     | DoCheck i \<Rightarrow> Inr (if i < length (h_heap (sy_hub y)) then
         y\<lparr>sy_streams := (sy_streams y)(i := stream_check i (sy_hub y) (sy_streams y i))\<rparr> else y)
     | DoCancel i \<Rightarrow> Inr (if i < length (h_heap (sy_hub y)) then
         y\<lparr>sy_streams := (sy_streams y)(i := stream_cancel (sy_streams y i))\<rparr> else y))"

definition run :: "(nat list \<Rightarrow> nat list) \<Rightarrow> action list \<Rightarrow> chan_panic + System" where
  "run ord acts = fold_res (act ord) acts System_new"


section \<open>The invariant\<close>

definition hub_ok :: "Hub \<Rightarrow> bool" where
  "hub_ok h \<longleftrightarrow> distinct (h_clients h) \<and>
     (\<forall>i \<in> set (h_clients h). i < length (h_heap h) \<and> \<not> cl_closed (h_heap h ! i)) \<and>
     (h_closed h \<longrightarrow> h_clients h = [])"

text \<open>
  What a client has and will get: the first \<open>m\<close> of its written and queued events are a
  prefix of those due; without overflow it is all of them; with overflow at least one more
  than was written, until the loop looks at the flag.
\<close>

definition client_ok :: "client \<Rightarrow> Stream \<Rightarrow> Event list \<Rightarrow> bool" where
  "client_ok c s due \<longleftrightarrow> prefix (st_written s) due \<and>
     (\<not> cl_overflow c \<longrightarrow> st_written s @ cl_ch c = due) \<and>
     (cl_overflow c \<and> \<not> st_done s \<longrightarrow>
       (\<exists>m. m \<le> length (st_written s @ cl_ch c) \<and> prefix (take m (st_written s @ cl_ch c)) due \<and>
         length (st_written s) + (if st_checking s then 0 else 1) \<le> m)) \<and>
     length (cl_ch c) \<le> clientBuffer \<and> (st_reset s \<longrightarrow> cl_overflow c \<and> st_done s)"

definition system_ok :: "System \<Rightarrow> bool" where
  "system_ok y \<longleftrightarrow> hub_ok (sy_hub y) \<and>
     (\<forall>i < length (h_heap (sy_hub y)). client_ok (h_heap (sy_hub y) ! i) (sy_streams y i) (sy_due y i)) \<and>
     (\<forall>i \<ge> length (h_heap (sy_hub y)). sy_streams y i = Stream_new \<and> sy_due y i = [])"


section \<open>Every action keeps it\<close>

definition offer :: "Event \<Rightarrow> client \<Rightarrow> client" where
  "offer e c = (if length (cl_ch c) < clientBuffer then c\<lparr>cl_ch := cl_ch c @ [e]\<rparr> else c\<lparr>cl_overflow := True\<rparr>)"

lemma publish_all:
  assumes "distinct is" "\<forall>i \<in> set is. i < length (h_heap h) \<and> \<not> cl_closed (h_heap h ! i)"
  shows "\<exists>heap. fold_res (publish_one e) is h = Inr (h\<lparr>h_heap := heap\<rparr>) \<and> length heap = length (h_heap h) \<and>
    (\<forall>i < length heap. heap ! i = (if i \<in> set is \<and> Match e (cl_q (h_heap h ! i)) then offer e (h_heap h ! i) else h_heap h ! i))"
  using assms
proof (induction "is" arbitrary: h)
  case Nil
  then show ?case by (intro exI[of _ "h_heap h"]) simp
next
  case (Cons i "is")
  let ?c = "h_heap h ! i"
  let ?heap = "if Match e (cl_q ?c) then (h_heap h)[i := offer e ?c] else h_heap h"
  have step: "publish_one e i h = Inr (h\<lparr>h_heap := ?heap\<rparr>)"
    using Cons.prems(2) by (simp add: publish_one_def offer_def Let_def)
  have same: "?heap ! j = h_heap h ! j" if "j \<in> set is" for j
  proof -
    have "j \<noteq> i"
      using that Cons.prems(1) by auto
    then show ?thesis by simp
  qed
  have "\<forall>j \<in> set is. j < length (h_heap (h\<lparr>h_heap := ?heap\<rparr>)) \<and> \<not> cl_closed (h_heap (h\<lparr>h_heap := ?heap\<rparr>) ! j)"
    using Cons.prems(2) same by auto
  then obtain heap where heap: "fold_res (publish_one e) is (h\<lparr>h_heap := ?heap\<rparr>) = Inr (h\<lparr>h_heap := heap\<rparr>)"
      "length heap = length ?heap"
      "\<forall>j < length heap. heap ! j = (if j \<in> set is \<and> Match e (cl_q (?heap ! j)) then offer e (?heap ! j) else ?heap ! j)"
    using Cons.IH[of "h\<lparr>h_heap := ?heap\<rparr>"] Cons.prems(1) by auto
  have "heap ! j = (if j \<in> set (i # is) \<and> Match e (cl_q (h_heap h ! j)) then offer e (h_heap h ! j) else h_heap h ! j)"
    if "j < length heap" for j
  proof (cases "j = i")
    case True
    then have "j \<notin> set is"
      using Cons.prems(1) by simp
    then show ?thesis
      using heap(2,3) that True by (auto split: if_splits)
  next
    case False
    then have "?heap ! j = h_heap h ! j"
      by simp
    then show ?thesis
      using heap(3) that False by (auto split: if_splits)
  qed
  then show ?case
    using step heap(1,2) by (intro exI[of _ heap]) auto
qed

lemma close_all:
  assumes "distinct is" "\<forall>i \<in> set is. i < length (h_heap h) \<and> \<not> cl_closed (h_heap h ! i)"
  shows "\<exists>heap. fold_res close_one is h = Inr (h\<lparr> h_heap := heap, h_clients := filter (\<lambda>i. i \<notin> set is) (h_clients h) \<rparr>) \<and>
    length heap = length (h_heap h) \<and>
    (\<forall>i < length heap. heap ! i = (if i \<in> set is then (h_heap h ! i)\<lparr>cl_closed := True\<rparr> else h_heap h ! i))"
  using assms
proof (induction "is" arbitrary: h)
  case Nil
  then show ?case by (intro exI[of _ "h_heap h"]) simp
next
  case (Cons i "is")
  let ?h = "h\<lparr> h_heap := (h_heap h)[i := (h_heap h ! i)\<lparr>cl_closed := True\<rparr>], h_clients := removeAll i (h_clients h) \<rparr>"
  have step: "close_one i h = Inr ?h"
    using Cons.prems(2) by (simp add: close_one_def Let_def)
  have "\<forall>j \<in> set is. j < length (h_heap ?h) \<and> \<not> cl_closed (h_heap ?h ! j)"
  proof
    fix j
    assume "j \<in> set is"
    then have "j \<noteq> i" "j < length (h_heap h) \<and> \<not> cl_closed (h_heap h ! j)"
      using Cons.prems by auto
    then show "j < length (h_heap ?h) \<and> \<not> cl_closed (h_heap ?h ! j)"
      by simp
  qed
  then obtain heap where heap: "fold_res close_one is ?h = Inr (?h\<lparr> h_heap := heap, h_clients := filter (\<lambda>i. i \<notin> set is) (h_clients ?h) \<rparr>)"
      "length heap = length (h_heap ?h)"
      "\<forall>j < length heap. heap ! j = (if j \<in> set is then (h_heap ?h ! j)\<lparr>cl_closed := True\<rparr> else h_heap ?h ! j)"
    using Cons.IH[of ?h] Cons.prems(1) by auto
  have "filter (\<lambda>j. j \<notin> set is) (removeAll i (h_clients h)) = filter (\<lambda>j. j \<notin> set (i # is)) (h_clients h)"
    unfolding removeAll_filter_not_eq filter_filter by (rule filter_cong) auto
  moreover have "heap ! j = (if j \<in> set (i # is) then (h_heap h ! j)\<lparr>cl_closed := True\<rparr> else h_heap h ! j)"
    if "j < length heap" for j
    using heap(2,3) that Cons.prems(1) by (cases "j = i") auto
  ultimately show ?case
    using step heap(1,2) by (intro exI[of _ heap]) simp
qed

lemma client_ok_new: "client_ok \<lparr> cl_q = q, cl_ch = [], cl_closed = b, cl_overflow = False \<rparr> Stream_new []"
  by (simp add: client_ok_def Stream_new_def)

lemma client_ok_offer:
  assumes "client_ok c s due"
  shows "client_ok (offer e c) s (due @ [e])"
proof (cases "length (cl_ch c) < clientBuffer")
  case True
  let ?xs = "st_written s @ cl_ch c"
  have more: "\<exists>m'. m' \<le> length (?xs @ [e]) \<and> prefix (take m' (?xs @ [e])) (due @ [e]) \<and> k \<le> m'"
    if "m \<le> length ?xs \<and> prefix (take m ?xs) due \<and> k \<le> m" for m k
  proof -
    have "take m (?xs @ [e]) = take m ?xs"
      using that by simp
    then show ?thesis
      using that by (intro exI[of _ m]) (auto intro: prefix_prefix)
  qed
  have "prefix (st_written s) (due @ [e])"
    using assms by (auto simp: client_ok_def intro: prefix_prefix)
  moreover have "\<not> cl_overflow c \<longrightarrow> st_written s @ (cl_ch c @ [e]) = due @ [e]"
    using assms by (simp add: client_ok_def)
  moreover have "cl_overflow c \<and> \<not> st_done s \<longrightarrow> (\<exists>m. m \<le> length (st_written s @ (cl_ch c @ [e])) \<and>
      prefix (take m (st_written s @ (cl_ch c @ [e]))) (due @ [e]) \<and>
      length (st_written s) + (if st_checking s then 0 else 1) \<le> m)"
  proof
    assume "cl_overflow c \<and> \<not> st_done s"
    then obtain m where "m \<le> length ?xs \<and> prefix (take m ?xs) due \<and> length (st_written s) + (if st_checking s then 0 else 1) \<le> m"
      using assms by (auto simp only: client_ok_def)
    from more[OF this] show "\<exists>m. m \<le> length (st_written s @ (cl_ch c @ [e])) \<and>
      prefix (take m (st_written s @ (cl_ch c @ [e]))) (due @ [e]) \<and>
      length (st_written s) + (if st_checking s then 0 else 1) \<le> m"
      by (simp only: append_assoc)
  qed
  ultimately show ?thesis
    using True assms unfolding client_ok_def offer_def by simp
next
  case False
  then have full: "length (cl_ch c) = clientBuffer"
    using assms by (simp add: client_ok_def)
  show ?thesis
  proof (cases "cl_overflow c")
    case True
    then show ?thesis
      using assms False unfolding client_ok_def offer_def by (auto intro: prefix_order.trans)
  next
    case no: False
    then have "st_written s @ cl_ch c = due" "\<not> st_reset s"
      using assms by (auto simp: client_ok_def)
    then show ?thesis
      using assms False full unfolding client_ok_def offer_def
      by (auto simp: clientBuffer_def intro: prefix_order.trans intro!: exI[of _ "length due"])
  qed
qed

lemma client_ok_closed: "client_ok (c\<lparr>cl_closed := True\<rparr>) s due = client_ok c s due"
  by (simp add: client_ok_def)

lemma prefix_nth_append: "prefix (take m (xs @ y # ys)) zs \<Longrightarrow> length xs < m \<Longrightarrow> prefix (xs @ [y]) zs"
  by (rule prefix_order.trans[of _ "take m (xs @ y # ys)"])
    (auto simp: take_append take_Cons' intro!: prefixI)

lemma client_ok_receive:
  assumes "client_ok c s due" "cl_ch c = e # es" "\<not> st_done s" "\<not> st_checking s"
  shows "client_ok (c\<lparr>cl_ch := es\<rparr>) (s\<lparr> st_written := st_written s @ [e], st_checking := True \<rparr>) due"
proof (cases "cl_overflow c")
  case False
  then have "due = st_written s @ e # es"
    using assms by (auto simp: client_ok_def)
  then show ?thesis
    using False assms by (auto simp: client_ok_def)
next
  case True
  then obtain m where m: "m \<le> length (st_written s @ e # es)" "prefix (take m (st_written s @ e # es)) due"
      "length (st_written s) < m"
    using assms by (auto simp: client_ok_def)
  have "prefix (st_written s @ [e]) due"
    using m(2,3) by (rule prefix_nth_append)
  moreover have "\<exists>m. m \<le> length ((st_written s @ [e]) @ es) \<and> prefix (take m ((st_written s @ [e]) @ es)) due \<and>
      length (st_written s @ [e]) \<le> m"
    using m by (intro exI[of _ m]) simp
  ultimately show ?thesis
    using True assms by (simp add: client_ok_def)
qed

lemma client_ok_check:
  assumes "client_ok c s due" "\<not> st_done s" "st_checking s"
  shows "client_ok c (if cl_overflow c then s\<lparr> st_reset := True, st_done := True \<rparr> else s\<lparr>st_checking := False\<rparr>) due"
  using assms by (auto simp: client_ok_def)

lemma client_ok_done: "client_ok c s due \<Longrightarrow> client_ok c (s\<lparr>st_done := True\<rparr>) due"
  by (auto simp: client_ok_def)

definition perm_order :: "(nat list \<Rightarrow> nat list) \<Rightarrow> bool" where
  "perm_order ord \<longleftrightarrow> (\<forall>xs. mset (ord xs) = mset xs)"

lemma perm_order_facts:
  assumes "perm_order ord"
  shows "set (ord xs) = set xs" "distinct (ord xs) = distinct xs"
  using assms unfolding perm_order_def by (metis mset_eq_setD, metis mset_eq_imp_distinct_iff)

lemma system_ok_new: "system_ok System_new"
  by (simp add: system_ok_def System_new_def hub_ok_def NewHub_def)

lemma system_ok_publish:
  assumes "perm_order ord" "system_ok y"
  shows "\<exists>y'. act ord (DoPublish e) y = Inr y' \<and> system_ok y'"
proof (cases "h_closed (sy_hub y)")
  case True
  then have "act ord (DoPublish e) y = Inr (y\<lparr>sy_due := sy_due y\<rparr>)"
    by (simp add: act_def Publish_def due_after_def[abs_def])
  with assms(2) show ?thesis by (simp add: system_ok_def)
next
  case opened: False
  let ?h = "sy_hub y" and ?is = "ord (h_clients (sy_hub y))"
  have hub: "hub_ok ?h"
    using assms(2) by (simp add: system_ok_def)
  have sets: "set ?is = set (h_clients ?h)" "distinct ?is"
    using perm_order_facts[OF assms(1)] hub by (simp_all add: hub_ok_def)
  obtain heap where heap: "fold_res (publish_one e) ?is ?h = Inr (?h\<lparr>h_heap := heap\<rparr>)" "length heap = length (h_heap ?h)"
      "\<forall>i < length heap. heap ! i = (if i \<in> set ?is \<and> Match e (cl_q (h_heap ?h ! i)) then offer e (h_heap ?h ! i) else h_heap ?h ! i)"
    using publish_all[OF sets(2), of ?h e] hub sets(1) by (auto simp: hub_ok_def)
  let ?y = "y\<lparr> sy_hub := ?h\<lparr>h_heap := heap\<rparr>, sy_due := due_after e ?h (sy_due y) \<rparr>"
  have y: "act ord (DoPublish e) y = Inr ?y"
    using heap(1) opened by (simp add: act_def Publish_def)
  have "client_ok (heap ! i) (sy_streams y i) (due_after e ?h (sy_due y) i)" if "i < length heap" for i
  proof -
    have "client_ok (h_heap ?h ! i) (sy_streams y i) (sy_due y i)"
      using assms(2) that heap(2) by (simp add: system_ok_def)
    then show ?thesis
      using heap(3) that sets(1) opened client_ok_offer by (auto simp: due_after_def)
  qed
  moreover have "sy_streams y i = Stream_new \<and> due_after e ?h (sy_due y) i = []" if "length heap \<le> i" for i
  proof -
    have "i \<notin> set (h_clients ?h)"
      using hub that heap(2) by (auto simp: hub_ok_def)
    then show ?thesis
      using assms(2) that heap(2) by (simp add: system_ok_def due_after_def)
  qed
  moreover have "\<not> cl_closed (heap ! i)" if "i \<in> set (h_clients ?h)" for i
  proof -
    have "i < length heap" "\<not> cl_closed (h_heap ?h ! i)"
      using that hub heap(2) by (auto simp: hub_ok_def)
    then show ?thesis
      using heap(3) by (simp add: offer_def)
  qed
  ultimately have "system_ok ?y"
    using hub heap(2) by (simp add: system_ok_def hub_ok_def)
  with y show ?thesis by blast
qed

lemma system_ok_close:
  assumes "perm_order ord" "system_ok y"
  shows "\<exists>y'. act ord DoClose y = Inr y' \<and> system_ok y'"
proof -
  let ?h = "sy_hub y\<lparr>h_closed := True\<rparr>" and ?is = "ord (h_clients (sy_hub y))"
  have hub: "hub_ok (sy_hub y)"
    using assms(2) by (simp add: system_ok_def)
  have sets: "set ?is = set (h_clients (sy_hub y))" "distinct ?is"
    using perm_order_facts[OF assms(1)] hub by (simp_all add: hub_ok_def)
  obtain heap where heap: "fold_res close_one ?is ?h =
        Inr (?h\<lparr> h_heap := heap, h_clients := filter (\<lambda>i. i \<notin> set ?is) (h_clients ?h) \<rparr>)"
      "length heap = length (h_heap ?h)"
      "\<forall>i < length heap. heap ! i = (if i \<in> set ?is then (h_heap ?h ! i)\<lparr>cl_closed := True\<rparr> else h_heap ?h ! i)"
    using close_all[OF sets(2), of ?h] hub sets(1) by (auto simp: hub_ok_def)
  let ?y = "y\<lparr>sy_hub := ?h\<lparr> h_heap := heap, h_clients := [] \<rparr>\<rparr>"
  have "filter (\<lambda>i. i \<notin> set ?is) (h_clients ?h) = []"
    using sets(1) by (simp add: filter_empty_conv)
  then have "act ord DoClose y = Inr ?y"
    using heap(1) by (simp add: act_def Hub_Close_def)
  moreover have "system_ok ?y"
    using assms(2) heap(2,3) by (auto simp: system_ok_def hub_ok_def client_ok_closed)
  ultimately show ?thesis by blast
qed

lemma system_ok_update:
  assumes "system_ok y" "i < length (h_heap (sy_hub y))" "client_ok c s (sy_due y i)"
    and "cl_closed c = cl_closed (h_heap (sy_hub y) ! i)"
  shows "system_ok (y\<lparr> sy_hub := sy_hub y\<lparr>h_heap := (h_heap (sy_hub y))[i := c]\<rparr>, sy_streams := (sy_streams y)(i := s) \<rparr>)"
  using assms by (auto simp: system_ok_def hub_ok_def nth_list_update)

lemma system_ok_stream:
  assumes "system_ok y" "i < length (h_heap (sy_hub y))" "client_ok (h_heap (sy_hub y) ! i) s (sy_due y i)"
  shows "system_ok (y\<lparr>sy_streams := (sy_streams y)(i := s)\<rparr>)"
  using system_ok_update[OF assms refl] by simp

lemma system_ok_receive:
  assumes "system_ok y"
  shows "\<exists>y'. act ord (DoReceive i) y = Inr y' \<and> system_ok y'"
proof (cases "i < length (h_heap (sy_hub y))")
  case False
  then show ?thesis using assms by (simp add: act_def)
next
  case True
  let ?c = "h_heap (sy_hub y) ! i" and ?s = "sy_streams y i"
  have ok: "client_ok ?c ?s (sy_due y i)"
    using assms True by (simp add: system_ok_def)
  consider (idle) "st_done ?s \<or> st_checking ?s" | (event) e es where "cl_ch ?c = e # es" "\<not> st_done ?s" "\<not> st_checking ?s"
    | (empty) "cl_ch ?c = []" "\<not> st_done ?s" "\<not> st_checking ?s"
    by (cases "cl_ch ?c") auto
  then show ?thesis
  proof cases
    case idle
    then show ?thesis
      using assms True system_ok_stream[OF assms True ok] by (simp add: act_def stream_receive_def)
  next
    case (event e es)
    then show ?thesis
      using True system_ok_update[OF assms True client_ok_receive[OF ok event]]
      by (simp add: act_def stream_receive_def Let_def)
  next
    case empty
    then show ?thesis
      using True system_ok_stream[OF assms True ok] system_ok_stream[OF assms True client_ok_done[OF ok]]
      by (simp add: act_def stream_receive_def Let_def)
  qed
qed

lemma system_ok_act:
  assumes "perm_order ord" "system_ok y"
  shows "\<exists>y'. act ord a y = Inr y' \<and> system_ok y'"
proof (cases a)
  case (DoPublish e)
  then show ?thesis using system_ok_publish[OF assms] by simp
next
  case (DoSubscribe q)
  have "system_ok (y\<lparr>sy_hub := snd (subscribe q (sy_hub y))\<rparr>)"
    using assms(2) client_ok_new by (auto simp: system_ok_def hub_ok_def subscribe_def Let_def nth_append less_Suc_eq
        split: if_splits)
  then show ?thesis by (simp add: DoSubscribe act_def)
next
  case (DoUnsubscribe i)
  have "system_ok (y\<lparr>sy_hub := unsubscribe i (sy_hub y)\<rparr>)"
    using assms(2) by (auto simp: system_ok_def hub_ok_def unsubscribe_def distinct_removeAll)
  then show ?thesis using assms(2) by (simp add: DoUnsubscribe act_def)
next
  case DoClose
  then show ?thesis using system_ok_close[OF assms] by simp
next
  case (DoReceive i)
  then show ?thesis using system_ok_receive[OF assms(2)] by simp
next
  case (DoCheck i)
  show ?thesis
  proof (cases "i < length (h_heap (sy_hub y))")
    case True
    then have ok: "client_ok (h_heap (sy_hub y) ! i) (sy_streams y i) (sy_due y i)"
      using assms(2) by (simp add: system_ok_def)
    then have "client_ok (h_heap (sy_hub y) ! i) (stream_check i (sy_hub y) (sy_streams y i)) (sy_due y i)"
      using client_ok_check[OF ok] by (auto simp: stream_check_def split: if_splits)
    then show ?thesis
      using True system_ok_stream[OF assms(2) True] by (simp add: DoCheck act_def)
  qed (use assms(2) in \<open>simp add: DoCheck act_def\<close>)
next
  case (DoCancel i)
  show ?thesis
  proof (cases "i < length (h_heap (sy_hub y))")
    case True
    then have ok: "client_ok (h_heap (sy_hub y) ! i) (sy_streams y i) (sy_due y i)"
      using assms(2) by (simp add: system_ok_def)
    then have "client_ok (h_heap (sy_hub y) ! i) (stream_cancel (sy_streams y i)) (sy_due y i)"
      using client_ok_done[OF ok] by (simp add: stream_cancel_def)
    then show ?thesis
      using True system_ok_stream[OF assms(2) True] by (simp add: DoCancel act_def)
  qed (use assms(2) in \<open>simp add: DoCancel act_def\<close>)
qed

lemma run_ok:
  assumes "perm_order ord"
  shows "\<exists>y. run ord acts = Inr y \<and> system_ok y"
  unfolding run_def
proof (induction acts rule: rev_induct)
  case Nil
  then show ?case by (simp add: system_ok_new)
next
  case (snoc a acts)
  then obtain y where y: "fold_res (act ord) acts System_new = Inr y" "system_ok y"
    by blast
  obtain y' where "act ord a y = Inr y'" "system_ok y'"
    using system_ok_act[OF assms y(2), of a] by blast
  with y show ?case
    by (simp add: fold_res_append)
qed


lemma closed_frame:
  "fold_res (publish_one e) is h = Inr h' \<Longrightarrow> h_closed h' = h_closed h"
  "fold_res close_one is h = Inr h' \<Longrightarrow> h_closed h' = h_closed h"
proof -
  have p: "publish_one e i h = Inr h' \<Longrightarrow> h_closed h' = h_closed h" for i h h'
    by (auto simp: publish_one_def Let_def split: if_splits)
  show "fold_res (publish_one e) is h = Inr h' \<Longrightarrow> h_closed h' = h_closed h"
    by (induction "is" arbitrary: h) (auto simp: res_bind_Inr_iff dest!: p)
  have c: "close_one i h = Inr h' \<Longrightarrow> h_closed h' = h_closed h" for i h h'
    by (auto simp: close_one_def Let_def split: if_splits)
  show "fold_res close_one is h = Inr h' \<Longrightarrow> h_closed h' = h_closed h"
    by (induction "is" arbitrary: h) (auto simp: res_bind_Inr_iff dest!: c)
qed

lemma act_closed:
  assumes "act ord a y = Inr y'"
  shows "h_closed (sy_hub y') \<longleftrightarrow> h_closed (sy_hub y) \<or> a = DoClose"
  using assms closed_frame
  by (cases a) (auto simp: act_def res_bind_Inr_iff Publish_def Hub_Close_def subscribe_def unsubscribe_def
      stream_receive_def Let_def split: if_splits list.splits)

lemma closed_stays:
  "run ord acts = Inr y \<Longrightarrow> DoClose \<in> set acts \<Longrightarrow> h_closed (sy_hub y)"
  unfolding run_def
proof (induction acts arbitrary: y rule: rev_induct)
  case Nil
  then show ?case by simp
next
  case (snoc a acts)
  then show ?case
    using act_closed by (fastforce simp: fold_res_append res_bind_Inr_iff)
qed


section \<open>Properties\<close>

text \<open>
  C24: the hub never sends on or closes a closed channel, whatever the order in which events
  are published, clients come, read and go and the hub is closed, even twice: no run panics.
  Closing leaves no client; a client's queue never exceeds its buffer.
\<close>

theorem hub_never_panics:
  assumes "perm_order ord"
  shows "\<exists>y. run ord acts = Inr y \<and> hub_ok (sy_hub y) \<and>
    list_all (\<lambda>c. length (cl_ch c) \<le> clientBuffer) (h_heap (sy_hub y)) \<and>
    (DoClose \<in> set acts \<longrightarrow> Clients (sy_hub y) = 0)"
proof -
  obtain y where y: "run ord acts = Inr y" "system_ok y"
    using run_ok[OF assms] by blast
  have closed: "DoClose \<in> set acts \<Longrightarrow> h_closed (sy_hub y)" if "run ord acts = Inr y" for y acts
    using that closed_stays by blast
  with y show ?thesis
    by (auto simp: system_ok_def hub_ok_def Clients_def client_ok_def list_all_length)
qed

text \<open>
  C4: a stream has no silent gap. Whatever the interleaving of publishing and reading, the
  events written to a client are the first of those published since it subscribed that match
  its query, in order and without omission; none is lost from its queue unless the overflow
  flag is set, and a client whose queue overflowed is told so (reset) before anything that
  follows a lost event is written.
\<close>

theorem stream_has_no_gap:
  assumes "perm_order ord" "run ord acts = Inr y" "i < length (h_heap (sy_hub y))"
  shows "prefix (st_written (sy_streams y i)) (sy_due y i) \<and>
    (\<not> cl_overflow (h_heap (sy_hub y) ! i) \<longrightarrow>
      st_written (sy_streams y i) @ cl_ch (h_heap (sy_hub y) ! i) = sy_due y i) \<and>
    (st_reset (sy_streams y i) \<longrightarrow> cl_overflow (h_heap (sy_hub y) ! i) \<and> st_done (sy_streams y i))"
proof -
  have "system_ok y"
    using run_ok[OF assms(1), of acts] assms(2) by auto
  then have "client_ok (h_heap (sy_hub y) ! i) (sy_streams y i) (sy_due y i)"
    using assms(3) by (simp add: system_ok_def)
  then show ?thesis
    by (simp add: client_ok_def)
qed


section \<open>Witnesses\<close>

text \<open>A client that gets one event; the hub is closed twice.\<close>

definition sample_acts :: "action list" where
  "sample_acts = [DoSubscribe zero_query, DoPublish zero_event, DoReceive 0, DoClose, DoClose]"

lemma sample_run: "run rev sample_acts = Inr
    \<lparr> sy_hub = \<lparr> h_heap = [\<lparr> cl_q = zero_query, cl_ch = [], cl_closed = True, cl_overflow = False \<rparr>],
        h_clients = [], h_closed = True \<rparr>,
      sy_streams = (\<lambda>_. Stream_new)(0 := Stream_new\<lparr> st_written := [zero_event], st_checking := True \<rparr>),
      sy_due = due_after zero_event \<lparr> h_heap = [\<lparr> cl_q = zero_query, cl_ch = [], cl_closed = False, cl_overflow = False \<rparr>],
        h_clients = [0], h_closed = False \<rparr> (\<lambda>_. []) \<rparr>"
  by (simp add: run_def sample_acts_def System_new_def NewHub_def act_def subscribe_def Publish_def publish_one_def
      Hub_Close_def close_one_def stream_receive_def Stream_new_def clientBuffer_def Let_def zero_query_def Match_def
      IsZero_def)

lemma rev_perm: "perm_order rev"
  by (simp add: perm_order_def)

theorem hub_never_panics_witness:
  "\<exists>y. run rev sample_acts = Inr y \<and> Clients (sy_hub y) = 0"
  using hub_never_panics[OF rev_perm, of sample_acts] by (auto simp: sample_acts_def)

theorem stream_has_no_gap_witness:
  "\<exists>y. run rev sample_acts = Inr y \<and> st_written (sy_streams y 0) = [zero_event] \<and>
    prefix (st_written (sy_streams y 0)) (sy_due y 0)"
  using stream_has_no_gap[OF rev_perm sample_run, of 0] unfolding sample_run by simp

end
