(* ===== verification/Writer.thy ===== *)
theory Writer
  imports MemoryReads "HOL-Library.Sublist"
begin

text \<open>
  The way of events into storage: \<open>RunWriter\<close> and \<open>persist\<close>
  (\<open>storage/writer.go\<close>) over the interface \<open>Writer\<close>, stated as the locale
  \<open>event_writer\<close>, and the leader gate of \<open>Distributed\<close>
  (\<open>storage/distributed.go\<close>) with the lock it follows.
\<close>


section \<open>persist\<close>

text \<open>
  How a batch can end: stored, dropped and counted, or given up while waiting for the next
  attempt, which nothing counts.
\<close>

datatype outcome = Stored | Dropped | Abandoned

text \<open>
  What the context does: whether it is cancelled when attempt \<open>k\<close> has failed, and whether
  it is cancelled during the wait after it.
\<close>

record Env =
  en_done :: "nat \<Rightarrow> bool"
  en_stop :: "nat \<Rightarrow> bool"

text \<open>The write is a step of the storage that reports success.\<close>

function persist_from :: "('s \<Rightarrow> bool \<times> 's) \<Rightarrow> Env \<Rightarrow> nat \<Rightarrow> 's \<Rightarrow> outcome \<times> 's" where
  "persist_from fn env attempt s =
     (case fn s of (ok, s') \<Rightarrow>
        if ok then (Stored, s')
        else if attempt \<ge> 3 \<or> en_done env attempt then (Dropped, s')
        else if en_stop env attempt then (Abandoned, s')
        else persist_from fn env (attempt + 1) s')"
  by pat_completeness auto
termination
  by (relation "measure (\<lambda>(fn, env, attempt, s). 3 - attempt)") auto

declare persist_from.simps [simp del]

definition persist :: "('s \<Rightarrow> bool \<times> 's) \<Rightarrow> Env \<Rightarrow> 's \<Rightarrow> outcome \<times> 's" where
  "persist fn env s = persist_from fn env 1 s"


section \<open>RunWriter\<close>

record 's WriterOps =
  wo_StoreEvents :: "Event list \<Rightarrow> 's \<Rightarrow> bool \<times> 's"
  wo_UpsertInstances :: "Instance list \<Rightarrow> 's \<Rightarrow> bool \<times> 's"

record 's RunWriter =
  rw_evBatch :: "Event list"
  rw_instBatch :: "Instance list"
  rw_store :: 's
  rw_dropped_events :: nat
  rw_dropped_instances :: nat
  rw_done :: bool

definition batch_size :: "int \<Rightarrow> nat" where
  "batch_size cfg = nat (if cfg \<le> 0 then 500 else cfg)"

definition RunWriter_new :: "'s \<Rightarrow> 's RunWriter" where
  "RunWriter_new s = \<lparr> rw_evBatch = [], rw_instBatch = [], rw_store = s,
     rw_dropped_events = 0, rw_dropped_instances = 0, rw_done = False \<rparr>"

definition flush_events :: "'s WriterOps \<Rightarrow> Env \<Rightarrow> 's RunWriter \<Rightarrow> 's RunWriter" where
  "flush_events ops env w =
     (if 0 < length (rw_evBatch w) then
        case persist (wo_StoreEvents ops (rw_evBatch w)) env (rw_store w) of (r, s) \<Rightarrow>
          w\<lparr> rw_store := s, rw_evBatch := [],
             rw_dropped_events := rw_dropped_events w + (if r = Dropped then length (rw_evBatch w) else 0) \<rparr>
      else w)"

definition flush_instances :: "'s WriterOps \<Rightarrow> Env \<Rightarrow> 's RunWriter \<Rightarrow> 's RunWriter" where
  "flush_instances ops env w =
     (if 0 < length (rw_instBatch w) then
        case persist (wo_UpsertInstances ops (rw_instBatch w)) env (rw_store w) of (r, s) \<Rightarrow>
          w\<lparr> rw_store := s, rw_instBatch := [],
             rw_dropped_instances := rw_dropped_instances w + (if r = Dropped then length (rw_instBatch w) else 0) \<rparr>
      else w)"

definition flush :: "'s WriterOps \<Rightarrow> Env \<times> Env \<Rightarrow> 's RunWriter \<Rightarrow> 's RunWriter" where
  "flush ops envs w = flush_instances ops (snd envs) (flush_events ops (fst envs) w)"

text \<open>
  What a round of the loop meets: an event, an instance, the ticker, or the cancelled context
  with what is still queued in the two channels; and the contexts of the flush it may cause.
\<close>

datatype writer_turn =
    WrEvent Event "Env \<times> Env"
  | WrInstance Instance "Env \<times> Env"
  | WrTick "Env \<times> Env"
  | WrDone "(Event + Instance) list" "Env \<times> Env"

text \<open>The rounds of \<open>drain\<close>: items of the two channels, in the order the select takes them.\<close>

fun drain :: "(Event + Instance) list \<Rightarrow> 's RunWriter \<Rightarrow> 's RunWriter" where
  "drain [] w = w"
| "drain (Inl e # xs) w = drain xs (w\<lparr>rw_evBatch := rw_evBatch w @ [e]\<rparr>)"
| "drain (Inr i # xs) w = drain xs (w\<lparr>rw_instBatch := rw_instBatch w @ [i]\<rparr>)"

definition RunWriter_turn :: "'s WriterOps \<Rightarrow> int \<Rightarrow> writer_turn \<Rightarrow> 's RunWriter \<Rightarrow> 's RunWriter" where
  "RunWriter_turn ops cfg turn w =
     (if rw_done w then w
      else case turn of
        WrDone items envs \<Rightarrow> (flush ops envs (drain items w))\<lparr>rw_done := True\<rparr>
      | WrEvent e envs \<Rightarrow>
          (let w = w\<lparr>rw_evBatch := rw_evBatch w @ [e]\<rparr> in
           if batch_size cfg \<le> length (rw_evBatch w) then flush ops envs w else w)
      | WrInstance i envs \<Rightarrow>
          (let w = w\<lparr>rw_instBatch := rw_instBatch w @ [i]\<rparr> in
           if batch_size cfg \<le> length (rw_instBatch w) then flush ops envs w else w)
      | WrTick envs \<Rightarrow> flush ops envs w)"

definition RunWriter :: "'s WriterOps \<Rightarrow> int \<Rightarrow> writer_turn list \<Rightarrow> 's \<Rightarrow> 's RunWriter" where
  "RunWriter ops cfg turns s = fold (RunWriter_turn ops cfg) turns (RunWriter_new s)"


section \<open>Distributed\<close>

text \<open>
  The gate: only the leader's writes reach the inner storage; a follower's report success.
  Reads go through unchanged, so the model of a read of \<open>Distributed\<close> is the inner read.
\<close>

definition Distributed_StoreEvents :: "'s WriterOps \<Rightarrow> bool \<Rightarrow> Event list \<Rightarrow> 's \<Rightarrow> bool \<times> 's" where
  "Distributed_StoreEvents ops leader events s =
     (if \<not> leader then (True, s) else wo_StoreEvents ops events s)"

definition Distributed_UpsertInstances :: "'s WriterOps \<Rightarrow> bool \<Rightarrow> Instance list \<Rightarrow> 's \<Rightarrow> bool \<times> 's" where
  "Distributed_UpsertInstances ops leader instances s =
     (if \<not> leader then (True, s) else wo_UpsertInstances ops instances s)"

definition Distributed_Maintain :: "('s \<Rightarrow> bool \<times> 's) \<Rightarrow> bool \<Rightarrow> 's \<Rightarrow> bool \<times> 's" where
  "Distributed_Maintain maintain leader s = (if \<not> leader then (True, s) else maintain s)"

text \<open>
  The wrapper \<open>Metrics\<close> (\<open>storage/metrics.go\<close>) that \<open>main\<close> puts around every storage:
  besides latencies, which are not modelled, it counts the events of successful writes.
\<close>

record 's Metrics =
  me_inner :: 's
  me_stored :: nat

definition NewMetrics :: "'s \<Rightarrow> 's Metrics" where
  "NewMetrics inner = \<lparr> me_inner = inner, me_stored = 0 \<rparr>"

definition Metrics_StoreEvents ::
    "(Event list \<Rightarrow> 's \<Rightarrow> bool \<times> 's) \<Rightarrow> Event list \<Rightarrow> 's Metrics \<Rightarrow> bool \<times> 's Metrics" where
  "Metrics_StoreEvents store events m =
     (case store events (me_inner m) of (ok, s) \<Rightarrow>
       (ok, m\<lparr> me_inner := s, me_stored := me_stored m + (if ok then length events else 0) \<rparr>))"

definition Metrics_UpsertInstances ::
    "(Instance list \<Rightarrow> 's \<Rightarrow> bool \<times> 's) \<Rightarrow> Instance list \<Rightarrow> 's Metrics \<Rightarrow> bool \<times> 's Metrics" where
  "Metrics_UpsertInstances upsert instances m =
     (case upsert instances (me_inner m) of (ok, s) \<Rightarrow> (ok, m\<lparr> me_inner := s \<rparr>))"

definition metered :: "'s WriterOps \<Rightarrow> 's Metrics WriterOps" where
  "metered ops = \<lparr> wo_StoreEvents = Metrics_StoreEvents (wo_StoreEvents ops),
     wo_UpsertInstances = Metrics_UpsertInstances (wo_UpsertInstances ops) \<rparr>"

definition distributed :: "'s WriterOps \<Rightarrow> bool \<Rightarrow> 's WriterOps" where
  "distributed ops leader = \<lparr> wo_StoreEvents = Distributed_StoreEvents ops leader,
     wo_UpsertInstances = Distributed_UpsertInstances ops leader \<rparr>"

text \<open>
  As \<open>main\<close> wires them the counter is outside the gate: an instance that is not leader counts
  as stored what its gate throws away.
\<close>

lemma follower_counts_as_stored:
  "wo_StoreEvents (metered (distributed ops False)) events m =
     (True, m\<lparr> me_stored := me_stored m + length events \<rparr>)"
  by (simp add: metered_def distributed_def Metrics_StoreEvents_def Distributed_StoreEvents_def)

text \<open>
  \<open>lockLoop\<close>, one instance: waiting for the lock, holding it, or returned. The channel
  \<open>Lock\<close> gave closes when Consul takes the lock away.
\<close>

datatype lock_state = Acquiring | Holding | Returned

record Distributed =
  di_state :: lock_state
  di_leader :: bool
  di_waits :: nat
  di_lost :: bool

definition NewDistributed :: Distributed where
  "NewDistributed = \<lparr> di_state = Acquiring, di_leader = False, di_waits = 0, di_lost = False \<rparr>"

text \<open>The lock call returns; the lock channel closes and is noticed; stop is noticed.\<close>

definition lock_acquired :: "Distributed \<Rightarrow> Distributed" where
  "lock_acquired d = d\<lparr> di_state := Holding, di_waits := di_waits d + 1, di_leader := True, di_lost := False \<rparr>"

definition lock_noticed :: "Distributed \<Rightarrow> Distributed" where
  "lock_noticed d = d\<lparr> di_leader := False, di_waits := di_waits d - 1, di_state := Acquiring \<rparr>"

definition lock_stopped :: "Distributed \<Rightarrow> Distributed" where
  "lock_stopped d = d\<lparr> di_leader := False, di_waits := di_waits d - 1, di_state := Returned \<rparr>"

text \<open>
  Several instances and the lock. Consul grants it to one session at a time, and only after
  the session that held it released or lost it; from then on that one's channel is closed.
\<close>

record Cluster =
  cu_instances :: "nat \<Rightarrow> Distributed"
  cu_holder :: "nat option"

inductive cluster_step :: "Cluster \<Rightarrow> Cluster \<Rightarrow> bool" where
  acquire: "cu_holder c = None \<Longrightarrow> di_state (cu_instances c i) = Acquiring \<Longrightarrow>
    cluster_step c (c\<lparr> cu_holder := Some i, cu_instances := (cu_instances c)(i := lock_acquired (cu_instances c i)) \<rparr>)"
| lose: "cu_holder c = Some i \<Longrightarrow>
    cluster_step c (c\<lparr> cu_holder := None, cu_instances := (cu_instances c)(i := (cu_instances c i)\<lparr>di_lost := True\<rparr>) \<rparr>)"
| notice: "di_state (cu_instances c i) = Holding \<Longrightarrow> di_lost (cu_instances c i) \<Longrightarrow>
    cluster_step c (c\<lparr> cu_instances := (cu_instances c)(i := lock_noticed (cu_instances c i)) \<rparr>)"
| stop: "di_state (cu_instances c i) = Holding \<Longrightarrow>
    cluster_step c (c\<lparr> cu_holder := (if cu_holder c = Some i then None else cu_holder c),
      cu_instances := (cu_instances c)(i := lock_stopped (cu_instances c i)) \<rparr>)"

inductive cluster_reach :: "Cluster \<Rightarrow> bool" where
  cluster_new: "cluster_reach \<lparr> cu_instances = \<lambda>_. NewDistributed, cu_holder = None \<rparr>"
| cluster_next: "cluster_reach c \<Longrightarrow> cluster_step c c' \<Longrightarrow> cluster_reach c'"


section \<open>What the writer owes its input\<close>

text \<open>The events that reached the writer: everything up to and with the last drain.\<close>

fun received :: "writer_turn list \<Rightarrow> Event list" where
  "received [] = []"
| "received (WrEvent e envs # ts) = e # received ts"
| "received (WrInstance i envs # ts) = received ts"
| "received (WrTick envs # ts) = received ts"
| "received (WrDone items envs # ts) = concat (map (case_sum (\<lambda>e. [e]) (\<lambda>_. [])) items)"

text \<open>No wait between two attempts is cut short.\<close>

fun turn_envs :: "writer_turn \<Rightarrow> Env \<times> Env" where
  "turn_envs (WrEvent e envs) = envs"
| "turn_envs (WrInstance i envs) = envs"
| "turn_envs (WrTick envs) = envs"
| "turn_envs (WrDone items envs) = envs"

definition calm :: "Env \<Rightarrow> bool" where
  "calm env \<longleftrightarrow> (\<forall>k. \<not> en_stop env k)"

text \<open>The events of the batches that ended in a given way.\<close>

definition ended :: "outcome \<Rightarrow> (Event list \<times> outcome) list \<Rightarrow> Event list" where
  "ended r batches = concat (map fst (filter (\<lambda>b. snd b = r) batches))"

text \<open>
  What was received is cut into batches and a rest that still waits; the stored ones are
  what was written, the dropped ones are what was counted, and with calm contexts there are
  no others.
\<close>

definition accounted :: "('s \<Rightarrow> Event list \<Rightarrow> bool) \<Rightarrow> bool \<Rightarrow> Event list \<Rightarrow> 's RunWriter \<Rightarrow> bool" where
  "accounted written quiet evs w \<longleftrightarrow>
     (\<exists>batches. evs = concat (map fst batches) @ rw_evBatch w \<and>
        written (rw_store w) (ended Stored batches) \<and>
        rw_dropped_events w = length (ended Dropped batches) \<and>
        (quiet \<longrightarrow> ended Abandoned batches = []))"

lemma ended_snoc: "ended r (bs @ [(b, q)]) = ended r bs @ (if q = r then b else [])"
  by (simp add: ended_def)

lemma accounted_more:
  "accounted written quiet evs w \<Longrightarrow> accounted written quiet (evs @ es) (w\<lparr>rw_evBatch := rw_evBatch w @ es\<rparr>)"
  unfolding accounted_def by (auto intro!: exI)

lemma accounted_frame [simp]:
  "accounted written quiet evs (w\<lparr>rw_instBatch := is\<rparr>) = accounted written quiet evs w"
  "accounted written quiet evs (w\<lparr>rw_done := d\<rparr>) = accounted written quiet evs w"
  "accounted written quiet evs (w\<lparr>rw_dropped_instances := n\<rparr>) = accounted written quiet evs w"
  by (simp_all add: accounted_def)

lemma drain_events:
  "drain items w = w\<lparr> rw_evBatch := rw_evBatch w @ concat (map (case_sum (\<lambda>e. [e]) (\<lambda>_. [])) items),
     rw_instBatch := rw_instBatch w @ concat (map (case_sum (\<lambda>_. []) (\<lambda>i. [i])) items) \<rparr>"
  by (induction items w rule: drain.induct) simp_all

lemma flush_empties: "rw_evBatch (flush ops envs w) = []" "rw_instBatch (flush ops envs w) = []"
  by (auto simp: flush_def flush_events_def flush_instances_def split: prod.splits)

lemma flush_done [simp]: "rw_done (flush ops envs w) = rw_done w"
  by (auto simp: flush_def flush_events_def flush_instances_def split: prod.splits)

lemma batch_size_pos [simp]: "0 < batch_size cfg"
  by (simp add: batch_size_def)

lemma turn_batch_small:
  assumes "length (rw_evBatch w) < batch_size cfg" "rw_done w \<longrightarrow> rw_evBatch w = []"
  shows "length (rw_evBatch (RunWriter_turn ops cfg t w)) < batch_size cfg"
    "rw_done (RunWriter_turn ops cfg t w) \<longrightarrow> rw_evBatch (RunWriter_turn ops cfg t w) = []"
  using assms by (auto simp: RunWriter_turn_def flush_empties Let_def split: writer_turn.splits)

lemma run_batch_small:
  fixes ops cfg turns s
  defines "w \<equiv> RunWriter ops cfg turns s"
  shows "length (rw_evBatch w) < batch_size cfg \<and> (rw_done w \<longrightarrow> rw_evBatch w = [])"
proof -
  have "length (rw_evBatch (fold (RunWriter_turn ops cfg) turns v)) < batch_size cfg \<and>
      (rw_done (fold (RunWriter_turn ops cfg) turns v) \<longrightarrow>
        rw_evBatch (fold (RunWriter_turn ops cfg) turns v) = [])"
    if "length (rw_evBatch v) < batch_size cfg" "rw_done v \<longrightarrow> rw_evBatch v = []" for v
    using that
  proof (induction turns arbitrary: v)
    case (Cons t turns)
    show ?case
      using Cons.IH[OF turn_batch_small[OF Cons.prems]] by simp
  qed simp
  then show ?thesis
    unfolding w_def RunWriter_def by (simp add: RunWriter_new_def)
qed

lemma run_after_done: "rw_done w \<Longrightarrow> fold (RunWriter_turn ops cfg) turns w = w"
  by (induction turns) (simp_all add: RunWriter_turn_def)

text \<open>An invariant of the loop: kept by what arrives, by every flush of these turns, and by the end.\<close>

lemma run_invariant:
  assumes start: "I [] (RunWriter_new s)"
    and more: "\<And>evs w es ins. I evs w \<Longrightarrow>
      I (evs @ es) (w\<lparr> rw_evBatch := rw_evBatch w @ es, rw_instBatch := rw_instBatch w @ ins \<rparr>)"
    and keep: "\<And>evs w t. I evs w \<Longrightarrow> t \<in> set turns \<Longrightarrow> I evs (flush ops (turn_envs t) w)"
    and finish: "\<And>evs w. I evs w \<Longrightarrow> I evs (w\<lparr>rw_done := True\<rparr>)"
  shows "I (received turns) (RunWriter ops cfg turns s)"
proof -
  let ?turn = "RunWriter_turn ops cfg"
  have step: "I (evs @ received [t]) (?turn t w)" if "I evs w" "t \<in> set turns" "\<not> rw_done w" for t evs w
    using that more[OF that(1), of "[_]" "[]"] more[OF that(1), of "[]" "[_]"] more[OF that(1)]
      keep[OF _ that(2)] finish
    by (cases t) (auto simp: RunWriter_turn_def drain_events Let_def)
  have "I (evs @ received ts) (fold ?turn ts w)"
    if "I evs w" "\<not> rw_done w" "set ts \<subseteq> set turns" for evs w ts
    using that
  proof (induction ts arbitrary: evs w)
    case (Cons t ts)
    have one: "I (evs @ received [t]) (?turn t w)"
      using Cons.prems by (intro step) auto
    show ?case
    proof (cases "\<exists>items envs. t = WrDone items envs")
      case True
      then have "rw_done (?turn t w)" "received (t # ts) = received [t]"
        using Cons.prems(2) by (auto simp: RunWriter_turn_def)
      then show ?thesis
        using one by (simp add: run_after_done)
    next
      case False
      then have "received (t # ts) = received [t] @ received ts" "\<not> rw_done (?turn t w)"
        using Cons.prems(2) by (cases t; auto simp: RunWriter_turn_def Let_def)+
      then show ?thesis
        using Cons.IH[OF one] Cons.prems(3) by simp
    qed
  qed simp
  from this[of "[]" "RunWriter_new s" turns] start show ?thesis
    by (simp add: RunWriter_def RunWriter_new_def)
qed


section \<open>The interface Writer\<close>

text \<open>
  What the writer relies on: a write that reports success appends its batch to what was
  written, one that fails leaves it, and upserts do not touch it.
\<close>

locale event_writer =
  fixes store_events :: "Event list \<Rightarrow> 's \<Rightarrow> bool \<times> 's"
    and upsert :: "Instance list \<Rightarrow> 's \<Rightarrow> bool \<times> 's"
    and written :: "'s \<Rightarrow> Event list \<Rightarrow> bool"
  assumes store_ok: "written s es \<Longrightarrow> store_events b s = (True, s') \<Longrightarrow> written s' (es @ b)"
    and store_fail: "written s es \<Longrightarrow> store_events b s = (False, s') \<Longrightarrow> written s' es"
    and upsert_keeps: "written s es \<Longrightarrow> upsert ins s = (ok, s') \<Longrightarrow> written s' es"
begin

lemma persist_events:
  "written s es \<Longrightarrow> persist_from (store_events b) env k s = (r, s') \<Longrightarrow>
   written s' (if r = Stored then es @ b else es) \<and> (r = Abandoned \<longrightarrow> (\<exists>j. en_stop env j))"
proof (induction "store_events b" env k s rule: persist_from.induct)
  case (1 env k s)
  obtain ok s1 where s1: "store_events b s = (ok, s1)"
    by (metis surj_pair)
  consider (finished) ok | (drop) "\<not> ok" "k \<ge> 3 \<or> en_done env k"
    | (leave) "\<not> ok" "\<not> (k \<ge> 3 \<or> en_done env k)" "en_stop env k"
    | (again) "\<not> ok" "\<not> (k \<ge> 3 \<or> en_done env k)" "\<not> en_stop env k"
    by blast
  then show ?case
  proof cases
    case again
    then have "persist_from (store_events b) env (k + 1) s1 = (r, s')"
      using "1.prems"(2) by (simp add: persist_from.simps[of _ _ k] s1)
    then show ?thesis
      using "1.hyps"[OF s1[symmetric] again] store_fail[OF "1.prems"(1)] s1 again(1) by simp
  qed (use "1.prems" store_ok store_fail s1 in \<open>auto simp: persist_from.simps[of _ _ k]\<close>)
qed

lemma persist_upsert:
  "written s es \<Longrightarrow> persist_from (upsert ins) env k s = (r, s') \<Longrightarrow> written s' es"
proof (induction "upsert ins" env k s rule: persist_from.induct)
  case (1 env k s)
  obtain ok s1 where s1: "upsert ins s = (ok, s1)"
    by (metis surj_pair)
  then have keep: "written s1 es"
    using upsert_keeps "1.prems"(1) by blast
  show ?case
  proof (cases "\<not> ok \<and> \<not> (k \<ge> 3 \<or> en_done env k) \<and> \<not> en_stop env k")
    case True
    then have "persist_from (upsert ins) env (k + 1) s1 = (r, s')"
      using "1.prems"(2) by (simp add: persist_from.simps[of _ _ k] s1)
    then show ?thesis
      using "1.hyps"[OF s1[symmetric]] True keep by simp
  next
    case False
    then show ?thesis
      using "1.prems"(2) keep s1 by (auto simp: persist_from.simps[of _ _ k] split: if_splits)
  qed
qed

lemma flush_accounted:
  assumes "accounted written quiet evs w" "quiet \<longrightarrow> calm (fst envs)"
  shows "accounted written quiet evs (flush \<lparr>wo_StoreEvents = store_events, wo_UpsertInstances = upsert\<rparr> envs w)"
proof -
  let ?ops = "\<lparr>wo_StoreEvents = store_events, wo_UpsertInstances = upsert\<rparr>"
  have events: "accounted written quiet evs (flush_events ?ops (fst envs) w)"
  proof (cases "rw_evBatch w = []")
    case True
    then show ?thesis
      using assms by (simp add: flush_events_def)
  next
    case False
    obtain bs where bs: "evs = concat (map fst bs) @ rw_evBatch w"
      "written (rw_store w) (ended Stored bs)"
      "rw_dropped_events w = length (ended Dropped bs)" "quiet \<longrightarrow> ended Abandoned bs = []"
      using assms(1) by (auto simp: accounted_def)
    obtain r s' where run: "persist_from (store_events (rw_evBatch w)) (fst envs) 1 (rw_store w) = (r, s')"
      by (metis surj_pair)
    then have "written s' (if r = Stored then ended Stored bs @ rw_evBatch w else ended Stored bs)"
      "r = Abandoned \<longrightarrow> \<not> quiet"
      using persist_events[OF bs(2) run] assms(2) by (auto simp: calm_def)
    then show ?thesis
      unfolding accounted_def
      by (intro exI[of _ "bs @ [(rw_evBatch w, r)]"])
        (use bs False run in \<open>auto simp: flush_events_def persist_def ended_snoc\<close>)
  qed
  moreover have "accounted written quiet evs (flush_instances ?ops env v)"
    if ok: "accounted written quiet evs v" for env v
  proof (cases "rw_instBatch v = []")
    case True
    then show ?thesis
      using ok by (simp add: flush_instances_def)
  next
    case False
    obtain r s' where run: "persist_from (upsert (rw_instBatch v)) env 1 (rw_store v) = (r, s')"
      by (metis surj_pair)
    then have "written s' es" if "written (rw_store v) es" for es
      using persist_upsert that by blast
    then have "accounted written quiet evs (v\<lparr>rw_store := s'\<rparr>)"
      using ok by (auto simp: accounted_def)
    then show ?thesis
      using run False by (simp add: flush_instances_def persist_def accounted_def)
  qed
  ultimately show ?thesis
    by (simp add: flush_def)
qed

lemma run_accounted:
  assumes "written s []" "\<forall>t \<in> set turns. quiet \<longrightarrow> calm (fst (turn_envs t))"
  shows "accounted written quiet (received turns)
     (RunWriter \<lparr>wo_StoreEvents = store_events, wo_UpsertInstances = upsert\<rparr> cfg turns s)"
proof (rule run_invariant)
  show "accounted written quiet [] (RunWriter_new s)"
    using assms(1) by (simp add: RunWriter_new_def accounted_def ended_def exI[of _ "[]"])
  show "accounted written quiet (evs @ es)
      (w\<lparr> rw_evBatch := rw_evBatch w @ es, rw_instBatch := rw_instBatch w @ ins \<rparr>)"
    if "accounted written quiet evs w" for evs w es ins
    using accounted_more[OF that, of es] by (simp add: accounted_def)
qed (use assms(2) flush_accounted in simp_all)

end

text \<open>A storage whose event writes always succeed: then there is nothing but the order.\<close>

locale reliable_writer = event_writer +
  assumes store_total: "fst (store_events b s)"
begin

lemma persist_stored: "persist_from (store_events b) env k s = (Stored, snd (store_events b s))"
  using store_total[of b s] by (auto simp: persist_from.simps[of _ _ k] split: prod.splits)

lemma run_writes_all:
  assumes "written s []"
  shows "\<exists>es. received turns = es @ rw_evBatch (RunWriter \<lparr>wo_StoreEvents = store_events, wo_UpsertInstances = upsert\<rparr> cfg turns s) \<and>
     written (rw_store (RunWriter \<lparr>wo_StoreEvents = store_events, wo_UpsertInstances = upsert\<rparr> cfg turns s)) es \<and>
     rw_dropped_events (RunWriter \<lparr>wo_StoreEvents = store_events, wo_UpsertInstances = upsert\<rparr> cfg turns s) = 0"
proof -
  let ?ops = "\<lparr>wo_StoreEvents = store_events, wo_UpsertInstances = upsert\<rparr>"
  let ?I = "\<lambda>evs w. \<exists>es. evs = es @ rw_evBatch w \<and> written (rw_store w) es \<and> rw_dropped_events w = 0"
  have inst: "?I evs (flush_instances ?ops env w)" if "?I evs w" for evs env w
    using that persist_upsert
    by (auto simp: flush_instances_def persist_def split: prod.splits)
  have events: "?I evs (flush_events ?ops env w)" if ok: "?I evs w" for evs env w
  proof (cases "rw_evBatch w = []")
    case False
    obtain es where es: "evs = es @ rw_evBatch w" "written (rw_store w) es" "rw_dropped_events w = 0"
      using ok by blast
    obtain s' where s': "store_events (rw_evBatch w) (rw_store w) = (True, s')"
      using store_total[of "rw_evBatch w" "rw_store w"] by (metis prod.collapse)
    then show ?thesis
      using es False store_ok[OF es(2) s'] by (simp add: flush_events_def persist_def persist_stored)
  qed (use ok in \<open>simp add: flush_events_def\<close>)
  have flushed: "?I evs (flush ?ops envs w)" if "?I evs w" for evs envs w
    unfolding flush_def by (rule inst[OF events[OF that]])
  show ?thesis
  proof (rule run_invariant[where I = ?I])
    show "?I [] (RunWriter_new s)"
      by (rule exI[of _ "[]"]) (use assms in \<open>simp add: RunWriter_new_def\<close>)
    show "?I (evs @ es) (w\<lparr> rw_evBatch := rw_evBatch w @ es, rw_instBatch := rw_instBatch w @ ins \<rparr>)"
      if "?I evs w" for evs w es ins
      using that by auto
    show "?I evs (flush ?ops (turn_envs t) w)" if "?I evs w" for evs w t
      by (rule flushed[OF that])
  qed simp
qed

end


text \<open>
  The wrapper keeps the contract, and its counter is the number of events written; likewise
  it stays reliable.
\<close>

locale metered_writer = reliable_writer
begin

definition metered_holds :: "'a Metrics \<Rightarrow> Event list \<Rightarrow> bool" where
  "metered_holds m es \<longleftrightarrow> written (me_inner m) es \<and> me_stored m = length es"

end

sublocale metered_writer \<subseteq> outer: reliable_writer "Metrics_StoreEvents store_events" "Metrics_UpsertInstances upsert" metered_holds
proof unfold_locales
  show "metered_holds s' (es @ b)" if "metered_holds s es" "Metrics_StoreEvents store_events b s = (True, s')" for s es b s'
    using that store_ok by (auto simp: metered_holds_def Metrics_StoreEvents_def split: prod.splits)
  show "metered_holds s' es" if "metered_holds s es" "Metrics_StoreEvents store_events b s = (False, s')" for s es b s'
    using that store_fail by (auto simp: metered_holds_def Metrics_StoreEvents_def split: prod.splits)
  show "metered_holds s' es" if "metered_holds s es" "Metrics_UpsertInstances upsert ins s = (ok, s')" for s es ins ok s'
    using that upsert_keeps by (auto simp: metered_holds_def Metrics_UpsertInstances_def split: prod.splits)
  show "fst (Metrics_StoreEvents store_events b s)" for b s
    using store_total[of b "me_inner s"] by (cases "store_events b (me_inner s)") (simp add: Metrics_StoreEvents_def)
qed


section \<open>The in-memory storage is one\<close>

definition memory_writer :: "MemoryStorage WriterOps" where
  "memory_writer = \<lparr> wo_StoreEvents = \<lambda>b s. (True, Memory_StoreEvents s b),
     wo_UpsertInstances = \<lambda>b s. (True, Memory_UpsertInstances s b) \<rparr>"

text \<open>It holds the newest of what was written to it, numbered from one.\<close>

definition memory_holds :: "nat \<Rightarrow> MemoryStorage \<Rightarrow> Event list \<Rightarrow> bool" where
  "memory_holds c s es \<longleftrightarrow> mem_ok s \<and> ring_cap s = c \<and> m_nextID s = int (length es) \<and>
     ring_log s = take c (rev (number 0 es))"

lemma ring_cap_store: "mem_ok s \<Longrightarrow> ring_cap (Memory_StoreEvents s b) = ring_cap s"
  by (simp add: Memory_StoreEvents_def ring.cap_pushes mem_ok_ring)

lemma upserts_frame:
  "ring_log (Memory_UpsertInstances s b) = ring_log s"
  "ring_cap (Memory_UpsertInstances s b) = ring_cap s"
  "m_nextID (Memory_UpsertInstances s b) = m_nextID s"
  by (induction b arbitrary: s) (simp_all add: Memory_UpsertInstances_def)

lemma take_append_take: "take c (xs @ take c ys) = take c (xs @ ys)"
  by (simp add: min_def)

lemma memory_holds_store: "memory_holds c s es \<Longrightarrow> memory_holds c (Memory_StoreEvents s b) (es @ b)"
  by (auto simp: memory_holds_def mem_ok_store ring_cap_store nextID_store ring_log_store number_append
      take_append_take)

lemma memory_holds_upsert: "memory_holds c s es \<Longrightarrow> memory_holds c (Memory_UpsertInstances s b) es"
  by (simp add: memory_holds_def mem_ok_upsert upserts_frame)

lemma memory_holds_New: "memory_holds (ring_cap (Memory_New n)) (Memory_New n) []"
  by (simp add: memory_holds_def mem_ok_New, simp add: Memory_New_def Let_def)

interpretation mw: metered_writer "wo_StoreEvents memory_writer" "wo_UpsertInstances memory_writer" "memory_holds c"
  by unfold_locales (auto simp: memory_writer_def memory_holds_store memory_holds_upsert)


section \<open>A storage that fails on demand\<close>

text \<open>
  A provider whose writes fail as its first component says, to exhibit the failure paths:
  what was written is its second component.
\<close>

fun flaky_store :: "Event list \<Rightarrow> bool list \<times> Event list \<Rightarrow> bool \<times> (bool list \<times> Event list)" where
  "flaky_store b ([], es) = (True, ([], es @ b))"
| "flaky_store b (f # fs, es) = (if f then (False, (fs, es)) else (True, (fs, es @ b)))"

definition flaky_writer :: "(bool list \<times> Event list) WriterOps" where
  "flaky_writer = \<lparr> wo_StoreEvents = flaky_store, wo_UpsertInstances = \<lambda>b s. (True, s) \<rparr>"

interpretation fw: event_writer "wo_StoreEvents flaky_writer" "wo_UpsertInstances flaky_writer" "\<lambda>s es. snd s = es"
proof unfold_locales
  show "snd s' = es @ b" if "snd s = es" "wo_StoreEvents flaky_writer b s = (True, s')" for s es b s'
    using that by (cases "(b, s)" rule: flaky_store.cases) (auto simp: flaky_writer_def split: if_splits)
  show "snd s' = es" if "snd s = es" "wo_StoreEvents flaky_writer b s = (False, s')" for s es b s'
    using that by (cases "(b, s)" rule: flaky_store.cases) (auto simp: flaky_writer_def split: if_splits)
qed (simp add: flaky_writer_def)

definition calm_env :: Env where
  "calm_env = \<lparr> en_done = \<lambda>_. False, en_stop = \<lambda>_. False \<rparr>"

lemma calm_calm_env [simp]: "calm calm_env"
  by (simp add: calm_def calm_env_def)


lemma ops_eta [simp]:
  fixes ops :: "'s WriterOps"
  shows "\<lparr>wo_StoreEvents = wo_StoreEvents ops, wo_UpsertInstances = wo_UpsertInstances ops\<rparr> = ops"
  by (cases ops) simp

text \<open>A run that has returned leaves the storage with what was received.\<close>

lemma run_memory_holds:
  fixes cfg ts items envs n
  defines "turns \<equiv> ts @ [WrDone items envs]"
  defines "w \<equiv> RunWriter (metered memory_writer) cfg turns (NewMetrics (Memory_New n))"
  shows "mw.metered_holds (ring_cap (Memory_New n)) (rw_store w) (received turns) \<and> rw_dropped_events w = 0"
proof -
  have "rw_done w"
    by (simp add: w_def turns_def RunWriter_def RunWriter_turn_def)
  then have empty: "rw_evBatch w = []"
    using run_batch_small[where ops = "metered memory_writer" and cfg = cfg and turns = turns
        and s = "NewMetrics (Memory_New n)"] unfolding w_def by blast
  have start: "mw.metered_holds (ring_cap (Memory_New n)) (NewMetrics (Memory_New n)) []"
    by (simp add: mw.metered_holds_def NewMetrics_def memory_holds_New)
  have "\<exists>es. received turns = es @ rw_evBatch w \<and>
      mw.metered_holds (ring_cap (Memory_New n)) (rw_store w) es \<and> rw_dropped_events w = 0"
    using mw.outer.run_writes_all[where turns = turns and cfg = cfg, OF start]
    by (simp add: metered_def w_def)
  then show ?thesis
    unfolding empty by auto
qed


section \<open>What the writer guarantees\<close>

text \<open>
  C6: Whatever a storage that keeps the contract of Writer does, failures included, the events
  RunWriter received are exactly its batches in order followed by the batch still open, which
  is shorter than the batch size and empty once the writer has returned; what the storage holds
  is the batches that succeeded, in order and once each, the dropped counter is the number of
  events of the batches given up after the last attempt, and unless a wait between two attempts
  is cut short there is no third fate.
\<close>

theorem writer_accounts:
  fixes written :: "'s \<Rightarrow> Event list \<Rightarrow> bool"
  assumes "event_writer (wo_StoreEvents ops) (wo_UpsertInstances ops) written"
    and "written s []"
  shows "let w = RunWriter ops cfg turns s in
    \<exists>batches. received turns = concat (map fst batches) @ rw_evBatch w \<and>
      written (rw_store w) (ended Stored batches) \<and>
      rw_dropped_events w = length (ended Dropped batches) \<and>
      ((\<forall>t \<in> set turns. calm (fst (turn_envs t))) \<longrightarrow> ended Abandoned batches = []) \<and>
      length (rw_evBatch w) < batch_size cfg \<and> (rw_done w \<longrightarrow> rw_evBatch w = [])"
proof -
  have "accounted written (\<forall>t \<in> set turns. calm (fst (turn_envs t))) (received turns) (RunWriter ops cfg turns s)"
    using event_writer.run_accounted[OF assms, of turns "\<forall>t \<in> set turns. calm (fst (turn_envs t))" cfg]
    by simp
  then show ?thesis
    using run_batch_small[where ops = ops and cfg = cfg and turns = turns and s = s]
    unfolding accounted_def Let_def by blast
qed

theorem writer_accounts_witness:
  "let e = zero_event; turns = [WrEvent e (calm_env, calm_env), WrEvent e (calm_env, calm_env), WrTick (calm_env, calm_env)];
       w = RunWriter flaky_writer 1 turns ([True, True, True, False], []) in
   rw_dropped_events w = 1 \<and> snd (rw_store w) = [e] \<and>
   (\<exists>batches. received turns = concat (map fst batches) @ rw_evBatch w \<and>
      snd (rw_store w) = ended Stored batches \<and> rw_dropped_events w = length (ended Dropped batches))"
proof -
  let ?turns = "[WrEvent zero_event (calm_env, calm_env), WrEvent zero_event (calm_env, calm_env), WrTick (calm_env, calm_env)]"
  let ?w = "RunWriter flaky_writer 1 ?turns ([True, True, True, False], [])"
  have "rw_dropped_events ?w = 1 \<and> snd (rw_store ?w) = [zero_event]"
    by (simp add: RunWriter_def RunWriter_new_def RunWriter_turn_def batch_size_def flush_def flush_events_def
        flush_instances_def persist_def persist_from.simps flaky_writer_def calm_env_def)
  moreover have "\<exists>batches. received ?turns = concat (map fst batches) @ rw_evBatch ?w \<and>
      snd (rw_store ?w) = ended Stored batches \<and> rw_dropped_events ?w = length (ended Dropped batches)"
    using writer_accounts[OF fw.event_writer_axioms, where s = "([True, True, True, False], [])" and turns = ?turns and cfg = 1]
    unfolding Let_def by auto
  ultimately show ?thesis
    unfolding Let_def by blast
qed

text \<open>
  C7: With the in-memory storage, wired by main into its metrics, no event is lost on the way:
  when RunWriter has returned, the storage holds the newest of everything the two loops
  received, the queue drained at shutdown included, in the order of arrival and numbered from
  one, whatever the batch size, the ticks and the contexts were; nothing is counted as dropped,
  and the counter of stored events is the number of events received.
\<close>

theorem writer_fills_memory:
  "let turns = ts @ [WrDone items envs];
       w = RunWriter (metered memory_writer) cfg turns (NewMetrics (Memory_New n)) in
   ring_log (me_inner (rw_store w)) = take (ring_cap (Memory_New n)) (rev (number 0 (received turns))) \<and>
   rw_dropped_events w = 0 \<and> me_stored (rw_store w) = length (received turns)"
  using run_memory_holds[where cfg = cfg and ts = ts and items = items and envs = envs and n = n] by (simp add: Let_def memory_holds_def mw.metered_holds_def)

text \<open>
  Cancelling the context during the wait after a failed attempt loses the batch in silence:
  persist returns without another attempt, the batch is gone from the writer, the storage is as
  the failed attempt left it, and the dropped counter does not move.
\<close>

theorem interrupted_retry_loses_batch:
  assumes "rw_evBatch w \<noteq> []" "wo_StoreEvents ops (rw_evBatch w) (rw_store w) = (False, s')"
    and "\<not> en_done env 1" "en_stop env 1"
  shows "flush_events ops env w = w\<lparr> rw_store := s', rw_evBatch := [] \<rparr>"
  using assms by (cases w) (simp add: flush_events_def persist_def persist_from.simps)

theorem interrupted_retry_loses_batch_witness:
  "\<exists>(w :: (bool list \<times> Event list) RunWriter) env w'. rw_evBatch w = [zero_event] \<and> w' = flush_events flaky_writer env w \<and>
     rw_evBatch w' = [] \<and> snd (rw_store w') = [] \<and> rw_dropped_events w' = 0"
proof -
  let ?w = "(RunWriter_new ([True], []))\<lparr>rw_evBatch := [zero_event]\<rparr> :: (bool list \<times> Event list) RunWriter"
  let ?env = "\<lparr> en_done = \<lambda>_. False, en_stop = \<lambda>_. True \<rparr>"
  have "flush_events flaky_writer ?env ?w = ?w\<lparr> rw_store := ([], []), rw_evBatch := [] \<rparr>"
    by (rule interrupted_retry_loses_batch) (simp_all add: RunWriter_new_def flaky_writer_def)
  then have "rw_evBatch ?w = [zero_event] \<and> rw_evBatch (flush_events flaky_writer ?env ?w) = [] \<and>
      snd (rw_store (flush_events flaky_writer ?env ?w)) = [] \<and>
      rw_dropped_events (flush_events flaky_writer ?env ?w) = 0"
    by (simp only:) (simp add: RunWriter_new_def)
  then show ?thesis
    by blast
qed

text \<open>
  C38: persist ends after at most three attempts: the storage it leaves is the result of one,
  two or three calls of the write, every call but the last one failed, and it reports Stored
  exactly when the last one succeeded.
\<close>

theorem persist_ends:
  "case persist fn env s of (r, s') \<Rightarrow>
     \<exists>k \<in> {0, 1, 2}. s' = ((\<lambda>s. snd (fn s)) ^^ Suc k) s \<and>
       list_all (\<lambda>j. \<not> fst (fn (((\<lambda>s. snd (fn s)) ^^ j) s))) [0..<k] \<and>
       (r = Stored) = fst (fn (((\<lambda>s. snd (fn s)) ^^ k) s))"
  by (auto simp: persist_def persist_from.simps[of fn env] numeral_2_eq_2 split: prod.splits)


section \<open>Who writes\<close>

inductive_cases cluster_stepE: "cluster_step c c'"

definition instance_ok :: "nat option \<Rightarrow> nat \<Rightarrow> Distributed \<Rightarrow> bool" where
  "instance_ok holder i d \<longleftrightarrow> (di_leader d \<longleftrightarrow> di_state d = Holding) \<and>
     di_waits d = (if di_leader d then 1 else 0) \<and> (di_leader d \<and> \<not> di_lost d \<longleftrightarrow> holder = Some i)"

lemma cluster_step_ok:
  assumes "cluster_step c c'" and ok: "\<And>i. instance_ok (cu_holder c) i (cu_instances c i)"
  shows "instance_ok (cu_holder c') i (cu_instances c' i)"
  using assms(1) ok[of i]
  by (elim cluster_stepE)
    (auto simp: instance_ok_def lock_acquired_def lock_noticed_def lock_stopped_def split: if_splits)

lemma cluster_ok: "cluster_reach c \<Longrightarrow> instance_ok (cu_holder c) i (cu_instances c i)"
proof (induction arbitrary: i rule: cluster_reach.induct)
  case cluster_new
  then show ?case by (simp add: instance_ok_def NewDistributed_def)
next
  case (cluster_next c c')
  then show ?case using cluster_step_ok by blast
qed



end
