(* ===== verification/GoTime.thy ===== *)
theory GoTime
  imports GoStrings "HOL-Library.Monad_Syntax"
begin

text \<open>
  What the program uses of the calendar of Go's package \<open>time\<close>: dates as days, RFC 3339
  text as \<open>time.Parse\<close> reads it (\<open>RFC3339Nano\<close>) and as \<open>Time.Format\<close> and the JSON
  encoder write it.
\<close>


section \<open>Days\<close>

definition leap :: "nat \<Rightarrow> bool" where
  "leap y \<longleftrightarrow> y mod 4 = 0 \<and> (y mod 100 \<noteq> 0 \<or> y mod 400 = 0)"

definition year_days :: "nat \<Rightarrow> nat" where
  "year_days y = (if leap y then 366 else 365)"

definition daysIn :: "nat \<Rightarrow> nat \<Rightarrow> nat" where
  "daysIn m y = (if m = 2 \<and> leap y then 29 else [31, 28, 31, 30, 31, 30, 31, 31, 30, 31, 30, 31] ! (m - 1))"

text \<open>Days from 1 January of year 0 to 1 January of a year, and to the first of a month in it.\<close>

definition year_start :: "nat \<Rightarrow> nat" where
  "year_start y = 365 * y + ((y + 3) div 4 + (y + 399) div 400 - (y + 99) div 100)"

fun month_start :: "nat \<Rightarrow> nat \<Rightarrow> nat" where
  "month_start y 0 = 0"
| "month_start y (Suc 0) = 0"
| "month_start y (Suc (Suc m)) = month_start y (Suc m) + daysIn (Suc m) y"

definition date_days :: "nat \<Rightarrow> nat \<Rightarrow> nat \<Rightarrow> nat" where
  "date_days y m d = year_start y + month_start y m + (d - 1)"

text \<open>The other way: the year, the month and the day of a number of days.\<close>

function year_of :: "nat \<Rightarrow> nat \<Rightarrow> nat \<times> nat" where
  "year_of y n = (if n < year_days y then (y, n) else year_of (y + 1) (n - year_days y))"
  by pat_completeness auto
termination
  by (relation "measure snd") (auto simp: year_days_def)

function month_of :: "nat \<Rightarrow> nat \<Rightarrow> nat \<Rightarrow> nat \<times> nat" where
  "month_of y m n = (if m \<ge> 12 \<or> n < daysIn m y then (m, n) else month_of y (m + 1) (n - daysIn m y))"
  by pat_completeness auto
termination
  by (relation "measure (\<lambda>(y, m, n). 12 - m)") auto

declare year_of.simps [simp del] month_of.simps [simp del]

definition days_date :: "nat \<Rightarrow> nat \<times> nat \<times> nat" where
  "days_date n = (case year_of 0 n of (y, r) \<Rightarrow> case month_of y 1 r of (m, d) \<Rightarrow> (y, m, d + 1))"

definition epoch_days :: int where
  "epoch_days = 719528"

definition Date :: "nat \<Rightarrow> nat \<Rightarrow> nat \<Rightarrow> nat \<Rightarrow> nat \<Rightarrow> nat \<Rightarrow> nat \<Rightarrow> Time" where
  "Date y m d hh mm ss ns =
     ((int (date_days y m d) - epoch_days) * 86400 + int hh * 3600 + int mm * 60 + int ss) * Second + int ns"


section \<open>Reading RFC 3339\<close>

definition skip :: "char \<Rightarrow> string \<Rightarrow> string option" where
  "skip c s = (case s of x # r \<Rightarrow> if x = c then Some r else None | [] \<Rightarrow> None)"

text \<open>Two digits, or one where the layout allows it.\<close>

definition getnum :: "bool \<Rightarrow> string \<Rightarrow> (nat \<times> string) option" where
  "getnum fixed s = (case s of
       [] \<Rightarrow> None
     | a # r \<Rightarrow>
         if \<not> is_digit a then None
         else case r of
             b # r' \<Rightarrow> if is_digit b then Some (10 * digit_val a + digit_val b, r')
               else if fixed then None else Some (digit_val a, r)
           | [] \<Rightarrow> if fixed then None else Some (digit_val a, r))"

definition get_year :: "string \<Rightarrow> (nat \<times> string) option" where
  "get_year s = (if 4 \<le> length s \<and> list_all is_digit (take 4 s) then Some (dec_val (take 4 s), drop 4 s) else None)"

text \<open>A fraction may be missing; digits past the ninth are read and ignored.\<close>

definition get_nanos :: "string \<Rightarrow> nat \<times> string" where
  "get_nanos s = (case s of
       p # d # r \<Rightarrow>
         if (p = CHR ''.'' \<or> p = CHR '','') \<and> is_digit d then
           (let ds = takeWhile is_digit (d # r); ns = take 9 ds
            in (dec_val ns * 10 ^ (9 - length ns), dropWhile is_digit (d # r)))
         else (0, s)
     | _ \<Rightarrow> (0, s))"

text \<open>The offset in seconds; hours up to 24 and minutes up to 60 are let through.\<close>

definition get_zone :: "string \<Rightarrow> (int \<times> string) option" where
  "get_zone s = (case s of
       [] \<Rightarrow> None
     | z # r \<Rightarrow>
         if z = CHR ''Z'' then Some (0, r)
         else if length s < 6 \<or> s ! 3 \<noteq> CHR '':'' then None
         else do {
           (hh, _) \<leftarrow> getnum True (take 2 r);
           (mm, _) \<leftarrow> getnum True (take 2 (drop 3 r));
           if hh > 24 \<or> mm > 60 then None
           else if z = CHR ''+'' then Some (int (hh * 60 + mm) * 60, drop 6 s)
           else if z = CHR ''-'' then Some (- int (hh * 60 + mm) * 60, drop 6 s)
           else None
         })"

definition ParseRFC3339 :: "string \<Rightarrow> Time option" where
  "ParseRFC3339 s = do {
     (y, s) \<leftarrow> get_year s;
     s \<leftarrow> skip (CHR ''-'') s;
     (m, s) \<leftarrow> getnum True s;
     s \<leftarrow> skip (CHR ''-'') s;
     (d, s) \<leftarrow> getnum True s;
     s \<leftarrow> skip (CHR ''T'') s;
     (hh, s) \<leftarrow> getnum False s;
     s \<leftarrow> skip (CHR '':'') s;
     (mm, s) \<leftarrow> getnum True s;
     s \<leftarrow> skip (CHR '':'') s;
     (ss, s) \<leftarrow> getnum True s;
     (let (ns, s) = get_nanos s in do {
       (off, s) \<leftarrow> get_zone s;
       if s \<noteq> [] \<or> m < 1 \<or> 12 < m \<or> d < 1 \<or> daysIn m y < d \<or> 24 \<le> hh \<or> 60 \<le> mm \<or> 60 \<le> ss then None
       else Some (Date y m d hh mm ss ns - off * Second)
     })
   }"


section \<open>Writing RFC 3339\<close>

definition two :: "nat \<Rightarrow> string" where
  "two n = [digit_char (n div 10 mod 10), digit_char (n mod 10)]"

definition four :: "nat \<Rightarrow> string" where
  "four n = two (n div 100) @ two (n mod 100)"

fun digits_of :: "nat \<Rightarrow> nat \<Rightarrow> string" where
  "digits_of 0 n = []"
| "digits_of (Suc w) n = digits_of w (n div 10) @ [digit_char (n mod 10)]"

definition strip_zeros :: "string \<Rightarrow> string" where
  "strip_zeros s = rev (dropWhile (\<lambda>c. c = CHR ''0'') (rev s))"

definition nanos_text :: "nat \<Rightarrow> string" where
  "nanos_text ns = (if ns = 0 then [] else CHR ''.'' # strip_zeros (digits_of 9 ns))"

text \<open>The offset of the location, in minutes.\<close>

definition zone_text :: "int \<Rightarrow> string" where
  "zone_text off =
     (if off = 0 then ''Z''
      else (if off < 0 then CHR ''-'' else CHR ''+'') # two (nat \<bar>off\<bar> div 60) @ CHR '':'' # two (nat \<bar>off\<bar> mod 60))"

definition FormatRFC3339Nano :: "int \<Rightarrow> Time \<Rightarrow> string" where
  "FormatRFC3339Nano off t =
     (let t = t + off * Minute;
          secs = t div Second; ns = nat (t mod Second);
          days = secs div 86400; r = nat (secs mod 86400)
      in case days_date (nat (days + epoch_days)) of (y, m, d) \<Rightarrow>
        four y @ CHR ''-'' # two m @ CHR ''-'' # two d @ CHR ''T'' #
        two (r div 3600) @ CHR '':'' # two (r div 60 mod 60) @ CHR '':'' # two (r mod 60) @
        nanos_text ns @ zone_text off)"


section \<open>The two are inverse\<close>

lemma ceil_Suc:
  fixes k y :: nat
  assumes "0 < k"
  shows "(Suc y + (k - 1)) div k = (y + (k - 1)) div k + (if y mod k = 0 then 1 else 0)"
proof -
  have "Suc (y + (k - 1)) mod k = y mod k"
    using assms by simp
  then show ?thesis
    by (simp add: div_Suc)
qed

lemma year_start_Suc: "year_start (Suc y) = year_start y + year_days y"
proof -
  have d: "(Suc y + 3) div 4 = (y + 3) div 4 + (if y mod 4 = 0 then 1 else 0)"
    "(Suc y + 99) div 100 = (y + 99) div 100 + (if y mod 100 = 0 then 1 else 0)"
    "(Suc y + 399) div 400 = (y + 399) div 400 + (if y mod 400 = 0 then 1 else 0)"
    using ceil_Suc[of 4 y] ceil_Suc[of 100 y] ceil_Suc[of 400 y] by simp_all
  have "4 * ((y + 99) div 100) \<le> y + 3"
    using div_mult_mod_eq[of "y + 99" 100] by (cases "(y + 99) div 100") linarith+
  then have le: "(y + 99) div 100 \<le> (y + 3) div 4"
    by (simp add: less_eq_div_iff_mult_less_eq)
  have mods: "y mod 400 = 0 \<Longrightarrow> y mod 100 = 0" "y mod 100 = 0 \<Longrightarrow> y mod 4 = 0"
    by (auto simp: mod_eq_0_iff_dvd intro: dvd_trans[of 100 400 y] dvd_trans[of 4 100 y])
  show ?thesis
    unfolding year_start_def d year_days_def leap_def using le mods by auto linarith+
qed

lemma year_start_0 [simp]: "year_start 0 = 0"
  by (simp add: year_start_def)

lemma year_of_sound:
  "year_of y n = (y', r) \<Longrightarrow> year_start y' + r = year_start y + n \<and> r < year_days y'"
proof (induction y n rule: year_of.induct)
  case (1 y n)
  show ?case
  proof (cases "n < year_days y")
    case True
    then show ?thesis using 1 by (simp add: year_of.simps[of y])
  next
    case False
    then have "year_of (y + 1) (n - year_days y) = (y', r)"
      using 1 by (simp add: year_of.simps[of y])
    then show ?thesis
      using 1 False year_start_Suc[of y] by simp
  qed
qed

lemma month_start_Suc: "0 < m \<Longrightarrow> month_start y (Suc m) = month_start y m + daysIn m y"
  by (cases m) simp_all

lemma daysIn_December [simp]: "daysIn 12 y = 31"
  by (simp add: daysIn_def)

lemma month_of_sound:
  "0 < m \<Longrightarrow> m \<le> 12 \<Longrightarrow> month_start y m + n < year_days y \<Longrightarrow> month_of y m n = (m', r) \<Longrightarrow>
   month_start y m' + r = month_start y m + n \<and> m \<le> m' \<and> m' \<le> 12 \<and> r < daysIn m' y"
proof (induction y m n rule: month_of.induct)
  case (1 y m n)
  show ?case
  proof (cases "m \<ge> 12 \<or> n < daysIn m y")
    case True
    have "year_days y = month_start y 12 + 31"
      by (simp add: year_days_def daysIn_def numeral_eq_Suc)
    then show ?thesis
      using 1 True by (auto simp: month_of.simps[of y m])
  next
    case False
    then have "month_of y (m + 1) (n - daysIn m y) = (m', r)"
      using 1 by (simp add: month_of.simps[of y m])
    moreover have "month_start y (m + 1) + (n - daysIn m y) < year_days y"
      using 1 False month_start_Suc[of m y] by simp
    ultimately show ?thesis
      using 1 False month_start_Suc[of m y] by simp
  qed
qed

lemma days_date_sound:
  assumes "days_date n = (y, m, d)"
  shows "date_days y m d = n" "1 \<le> m" "m \<le> 12" "1 \<le> d" "d \<le> daysIn m y"
proof -
  obtain r where y: "year_of 0 n = (y, r)"
    using assms by (auto simp: days_date_def split: prod.splits)
  then obtain d' where m: "month_of y 1 r = (m, d')" "d = d' + 1"
    using assms by (auto simp: days_date_def split: prod.splits)
  have "year_start y + r = n" "r < year_days y"
    using year_of_sound[OF y] by simp_all
  then show "date_days y m d = n" "1 \<le> m" "m \<le> 12" "1 \<le> d" "d \<le> daysIn m y"
    using month_of_sound[where y = y and n = r and m = 1 and m' = m and r = d'] m by (auto simp: date_days_def)
qed

lemma year_bound:
  assumes "days_date n = (y, m, d)" "n < year_start 10000"
  shows "y < 10000"
proof (rule ccontr)
  assume "\<not> y < 10000"
  moreover have "year_start a \<le> year_start b" if "a \<le> b" for a b
    by (rule lift_Suc_mono_le[OF _ that]) (simp add: year_start_Suc)
  ultimately have "year_start 10000 \<le> year_start y"
    by (metis linorder_not_less)
  moreover have "year_start y \<le> n"
    using days_date_sound(1)[OF assms(1)] by (simp add: date_days_def)
  ultimately show False
    using assms(2) by linarith
qed

lemma getnum_two [simp]: "n < 100 \<Longrightarrow> getnum b (two n @ s) = Some (n, s)"
  by (simp add: getnum_def two_def)

lemma length_two [simp]: "length (two n) = 2"
  by (simp add: two_def)

lemma two_digits: "list_all is_digit (two n)"
  by (simp add: two_def)

lemma dec_val_two: "n < 100 \<Longrightarrow> dec_val (two n) = n"
  by (simp add: two_def dec_val_def)

lemma dec_val_append: "dec_val (a @ b) = dec_val a * 10 ^ length b + dec_val b"
proof (induction b rule: rev_induct)
  case (snoc c b)
  then show ?case
    unfolding append_assoc[symmetric] dec_val_snoc by simp
qed (simp add: dec_val_def)

lemma get_year_four [simp]: "y < 10000 \<Longrightarrow> get_year (four y @ s) = Some (y, s)"
  using two_digits by (simp add: get_year_def four_def dec_val_append dec_val_two)

lemma skip_same [simp]: "skip c (c # s) = Some s"
  by (simp add: skip_def)

lemma digits_of_length [simp]: "length (digits_of w n) = w"
  by (induction w arbitrary: n) simp_all

lemma digits_of_digits: "list_all is_digit (digits_of w n)"
  by (induction w arbitrary: n) simp_all

lemma dec_val_digits_of: "dec_val (digits_of w n) = n mod 10 ^ w"
proof (induction w arbitrary: n)
  case (Suc w)
  have "n mod 10 ^ Suc w = 10 * (n div 10 mod 10 ^ w) + n mod 10"
    using mod_mult2_eq[of n 10 "10 ^ w"] by (simp add: mult.commute)
  then show ?case
    using Suc by (simp add: dec_val_snoc)
qed (simp add: dec_val_def)

lemma strip_zeros_split: "\<exists>k. s = strip_zeros s @ replicate k (CHR ''0'')"
proof -
  have "takeWhile (\<lambda>c. c = CHR ''0'') r = replicate (length (takeWhile (\<lambda>c. c = CHR ''0'') r)) (CHR ''0'')" for r
    by (induction r) simp_all
  then have "rev (takeWhile (\<lambda>c. c = CHR ''0'') (rev s)) =
      replicate (length (takeWhile (\<lambda>c. c = CHR ''0'') (rev s))) (CHR ''0'')"
    by (metis rev_replicate)
  moreover have "s = rev (dropWhile (\<lambda>c. c = CHR ''0'') (rev s)) @ rev (takeWhile (\<lambda>c. c = CHR ''0'') (rev s))"
    by (metis rev_append rev_rev_ident takeWhile_dropWhile_id)
  ultimately show ?thesis
    unfolding strip_zeros_def by metis
qed

lemma dec_val_zeros: "dec_val (replicate k (CHR ''0'')) = 0"
  by (induction k) (simp_all add: dec_val_def digit_val_def)

lemma get_nanos_text:
  assumes "ns < 1000000000" "s = [] \<or> (\<exists>c r. s = c # r \<and> \<not> is_digit c \<and> c \<noteq> CHR ''.'' \<and> c \<noteq> CHR '','')"
  shows "get_nanos (nanos_text ns @ s) = (ns, s)"
proof (cases "ns = 0")
  case True
  then show ?thesis
    using assms(2) by (auto simp: nanos_text_def get_nanos_def split: list.splits)
next
  case False
  let ?t = "strip_zeros (digits_of 9 ns)"
  obtain k where k: "digits_of 9 ns = ?t @ replicate k (CHR ''0'')"
    using strip_zeros_split by blast
  then have len: "9 = length ?t + k" and digits: "list_all is_digit ?t"
    using digits_of_length[of 9 ns] digits_of_digits[of 9 ns]
    by (metis length_append length_replicate, metis list_all_append)
  have "dec_val (digits_of 9 ns) = dec_val ?t * 10 ^ k"
    using arg_cong[OF k, of dec_val] by (simp add: dec_val_append dec_val_zeros)
  then have "ns = dec_val ?t * 10 ^ k"
    using dec_val_digits_of[of 9 ns] assms(1) by simp
  moreover have "9 - length ?t = k"
    using len by simp
  ultimately have val: "dec_val ?t * 10 ^ (9 - length ?t) = ns"
    by simp
  then have ne: "?t \<noteq> []"
    using False by (intro notI) (simp add: dec_val_def)
  then obtain d r where dr: "?t = d # r" "is_digit d"
    using digits by (cases ?t) auto
  have "takeWhile is_digit (?t @ s) = ?t" "dropWhile is_digit (?t @ s) = s"
    using digits assms(2) by (auto simp: takeWhile_append takeWhile_eq_all_conv dropWhile_append list_all_iff)
  then have "takeWhile is_digit (d # r @ s) = ?t" "dropWhile is_digit (d # r @ s) = s"
    using dr by simp_all
  moreover have "length ?t \<le> 9"
    using len by simp
  ultimately show ?thesis
    using False val dr by (simp add: nanos_text_def get_nanos_def Let_def)
qed

lemma zone_text_start: "\<exists>c r. zone_text off = c # r \<and> \<not> is_digit c \<and> c \<noteq> CHR ''.'' \<and> c \<noteq> CHR '',''"
  by (auto simp: zone_text_def is_digit_def)

lemma get_zone_text:
  assumes "\<bar>off\<bar> < 1500"
  shows "get_zone (zone_text off) = Some (off * 60, [])"
proof (cases "off = 0")
  case False
  let ?h = "nat \<bar>off\<bar> div 60" and ?m = "nat \<bar>off\<bar> mod 60"
  have lt: "?h < 25" "?m < 60"
    using assms by auto
  then have nums: "getnum True (two ?h) = Some (?h, [])" "getnum True (two ?m) = Some (?m, [])"
    using getnum_two[of _ True "[]"] by simp_all
  have "int (?h * 60 + ?m) = \<bar>off\<bar>"
    by simp
  then show ?thesis
    using False lt nums
    by (auto simp: get_zone_def zone_text_def Let_def nth_append simp del: div_mult_mod_eq mod_div_mult_eq
        simp flip: of_nat_mult of_nat_add)
qed (simp add: get_zone_def zone_text_def)

text \<open>
  The years Go prints with four digits: from year 0 up to year 9999 in the location's own
  time.
\<close>

definition printable :: "int \<Rightarrow> Time \<Rightarrow> bool" where
  "printable off t \<longleftrightarrow> \<bar>off\<bar> < 1500 \<and> Date 0 1 1 0 0 0 0 \<le> t + off * Minute \<and> t + off * Minute < Date 10000 1 1 0 0 0 0"

lemma Date_parts:
  assumes "secs = t div Second" "days_date (nat (secs div 86400 + epoch_days)) = (y, m, d)"
    and "0 \<le> secs div 86400 + epoch_days" "r = nat (secs mod 86400)"
  shows "Date y m d (r div 3600) (r div 60 mod 60) (r mod 60) (nat (t mod Second)) = t"
proof -
  have "r = r div 3600 * 3600 + r div 60 mod 60 * 60 + r mod 60"
  proof -
    have "r div 3600 = r div 60 div 60"
      using div_mult2_eq[of r 60 60] by simp
    then show ?thesis
      using div_mult_mod_eq[of r 60] div_mult_mod_eq[of "r div 60" 60] by linarith
  qed
  moreover have "int r = secs mod 86400"
    using assms(4) by simp
  ultimately have "int (r div 3600) * 3600 + int (r div 60 mod 60) * 60 + int (r mod 60) = secs mod 86400"
    by linarith
  moreover have "int (date_days y m d) - epoch_days = secs div 86400"
    using days_date_sound(1)[OF assms(2)] assms(3) by simp
  ultimately have "(int (date_days y m d) - epoch_days) * 86400 + int (r div 3600) * 3600 +
      int (r div 60 mod 60) * 60 + int (r mod 60) = secs"
    using div_mult_mod_eq[of secs 86400] by (metis add.assoc)
  then show ?thesis
    unfolding Date_def assms(1) by simp
qed

lemma ParseRFC3339_text:
  assumes "y < 10000" "1 \<le> m" "m \<le> 12" "1 \<le> d" "d \<le> daysIn m y" "hh < 24" "mm < 60" "ss < 60"
    and "get_nanos f = (ns, z)" "get_zone z = Some (off, [])"
  shows "ParseRFC3339 (four y @ CHR ''-'' # two m @ CHR ''-'' # two d @ CHR ''T'' #
     two hh @ CHR '':'' # two mm @ CHR '':'' # two ss @ f) = Some (Date y m d hh mm ss ns - off * Second)"
proof -
  have "daysIn m y \<le> 31"
    using assms(2,3) by (auto simp: daysIn_def le_Suc_eq numeral_eq_Suc)
  then show ?thesis
    using assms by (simp add: ParseRFC3339_def)
qed

lemma ParseRFC3339_Format:
  assumes "printable off t"
  shows "ParseRFC3339 (FormatRFC3339Nano off t) = Some t"
proof -
  let ?t = "t + off * Minute"
  let ?secs = "?t div Second" and ?ns = "nat (?t mod Second)"
  let ?r = "nat (?secs mod 86400)"
  let ?n = "nat (?secs div 86400 + epoch_days)"
  obtain y m d where ymd: "days_date ?n = (y, m, d)"
    by (metis prod_cases3)
  have lo: "- epoch_days * 86400 * Second \<le> ?t" and hi: "?t < (int (year_start 10000) - epoch_days) * 86400 * Second"
    using assms by (simp_all add: printable_def Date_def date_days_def epoch_days_def)
  have pos: "0 \<le> ?secs div 86400 + epoch_days" and below: "?n < year_start 10000"
    using lo hi unfolding epoch_days_def year_start_def by simp_all
  have y: "y < 10000"
    by (rule year_bound[OF ymd below])
  note md = days_date_sound(2-5)[OF ymd]
  have r: "?r < 86400" "?r div 3600 < 24" "?r div 60 mod 60 < 60" "?r mod 60 < 60"
    by (simp_all add: nat_less_iff less_mult_imp_div_less)
  have zone: "get_zone (zone_text off) = Some (off * 60, [])"
    using assms by (intro get_zone_text) (simp add: printable_def)
  have nanos: "get_nanos (nanos_text ?ns @ zone_text off) = (?ns, zone_text off)"
    using zone_text_start by (intro get_nanos_text) (auto simp: nat_less_iff)
  have "FormatRFC3339Nano off t = four y @ CHR ''-'' # two m @ CHR ''-'' # two d @ CHR ''T'' #
      two (?r div 3600) @ CHR '':'' # two (?r div 60 mod 60) @ CHR '':'' # two (?r mod 60) @
      nanos_text ?ns @ zone_text off"
    by (simp only: FormatRFC3339Nano_def Let_def ymd prod.case)
  then have "ParseRFC3339 (FormatRFC3339Nano off t) =
      Some (Date y m d (?r div 3600) (?r div 60 mod 60) (?r mod 60) ?ns - off * 60 * Second)"
    by (simp only:) (rule ParseRFC3339_text[OF y md(1,2) md(3,4) r(2-4) nanos zone])
  also have "Date y m d (?r div 3600) (?r div 60 mod 60) (?r mod 60) ?ns = ?t"
    by (rule Date_parts[OF refl ymd pos refl])
  finally show ?thesis
    by simp
qed

end
