(* ===== verification/Api.thy ===== *)
theory Api
  imports GoTime MemoryStats Hub
begin

text \<open>
  The HTTP API (\<open>server/api.go\<close>, the start of a stream in \<open>server/stream.go\<close>, readiness
  in \<open>server/server.go\<close>): query strings to queries, and the handlers over the interface
  \<open>Storage\<close>, whose reads are a record of functions. Answers are values: a handler returns
  the status it writes and the value it encodes, or the panic it ends with.
\<close>


section \<open>Query strings\<close>

text \<open>The decoded parameters in their order; \<open>net/url\<close> has undone the escapes.\<close>

type_synonym Values = "(string \<times> string) list"

definition url_All :: "Values \<Rightarrow> string \<Rightarrow> string list" where
  "url_All v key = map snd (filter (\<lambda>p. fst p = key) v)"

definition url_Get :: "Values \<Rightarrow> string \<Rightarrow> string" where
  "url_Get v key = (case url_All v key of [] \<Rightarrow> [] | x # _ \<Rightarrow> x)"

datatype api_error =
    ErrTimeIn string string
  | ErrCursor error
  | ErrLimitNumber
  | ErrFilterForm string
  | ErrInvalid error
  | ErrSplit error
  | ErrOtherDatacenter string

definition isDigits :: "string \<Rightarrow> bool" where
  "isDigits s \<longleftrightarrow> s \<noteq> [] \<and> list_all is_digit s"

text \<open>With the clock's reading; \<open>None\<close> is the error.\<close>

definition parseTime :: "Time \<Rightarrow> string \<Rightarrow> Time option" where
  "parseTime now s0 =
     (let s = TrimSpace s0 in
      if s = [] \<or> s = ''now'' then Some (if s = ''now'' then now else zero_time)
      else if isDigits s then
        (let n = fst (ParseInt s) in Some (if n > 1000000000000 then FromUnixMilli n else FromUnix n))
      else ParseRFC3339 s)"

definition parseFilter :: "string \<Rightarrow> api_error + Filter" where
  "parseFilter raw0 =
     (let raw = TrimSpace raw0;
          neg = HasPrefix raw ''-'';
          raw = (if neg then tl raw else raw)
      in case Cut raw CHR '':'' of (field, v, ok) \<Rightarrow>
        if \<not> ok \<or> field = [] \<or> v = [] then Inl (ErrFilterForm raw)
        else Inr \<lparr> f_Field = ToLower field, f_Values = [v], f_Not = neg \<rparr>)"

text \<open>The loop over the filters so far, with its break, and the append after it.\<close>

fun merge_filter :: "Filter \<Rightarrow> Filter list \<Rightarrow> Filter list" where
  "merge_filter f [] = [f]"
| "merge_filter f (g # gs) =
     (if f_Field g = f_Field f \<and> f_Not g = f_Not f then g\<lparr>f_Values := f_Values g @ f_Values f\<rparr> # gs
      else g # merge_filter f gs)"

definition add_filter :: "string \<Rightarrow> Filter list \<Rightarrow> api_error + Filter list" where
  "add_filter raw fs = res_bind (parseFilter raw) (\<lambda>f. Inr (merge_filter f fs))"

definition parse_limit :: "string \<Rightarrow> api_error + int" where
  "parse_limit l = (if l \<noteq> [] then case Atoi l of Some n \<Rightarrow> Inr n | None \<Rightarrow> Inl ErrLimitNumber else Inr 0)"

definition time_param :: "Time \<Rightarrow> Values \<Rightarrow> string \<Rightarrow> api_error + Time" where
  "time_param now v key =
     (case parseTime now (url_Get v key) of Some t \<Rightarrow> Inr t | None \<Rightarrow> Inl (ErrTimeIn key (url_Get v key)))"

text \<open>The two times read the clock one after the other.\<close>

definition parseQuery :: "Time \<Rightarrow> Time \<Rightarrow> Values \<Rightarrow> api_error + Query" where
  "parseQuery now1 now2 v =
     (let dc = url_Get v ''dc''; dc = (if dc = ''all'' then [] else dc) in
      res_bind (time_param now1 v ''from'') (\<lambda>from.
      res_bind (time_param now2 v ''to'') (\<lambda>to.
      res_bind (map_sum ErrCursor (\<lambda>c. c) (ParseCursor (url_Get v ''cursor''))) (\<lambda>c.
      res_bind (parse_limit (url_Get v ''limit'')) (\<lambda>lim.
      res_bind (fold_res add_filter (url_All v ''f'') []) (\<lambda>fs.
        let q = \<lparr> q_Datacenter = dc, q_From = from, q_To = to, q_Filters = fs,
                  q_Text = TrimSpace (url_Get v ''q''), q_Cursor = c, q_Limit = lim \<rparr>
        in case Query_Validate q of Some err \<Rightarrow> Inl (ErrInvalid err) | None \<Rightarrow> Inr q))))))"

definition intParam :: "Values \<Rightarrow> string \<Rightarrow> int \<Rightarrow> int" where
  "intParam v key def =
     (if url_Get v key \<noteq> [] then case Atoi (url_Get v key) of Some n \<Rightarrow> n | None \<Rightarrow> def else def)"


section \<open>What the handlers call\<close>

text \<open>The reads of \<open>Storage\<close> at one moment; \<open>Since\<close> may return events together with an error.\<close>

record StorageReads =
  sr_Events :: "Query \<Rightarrow> error + Page"
  sr_Histogram :: "Query \<Rightarrow> int \<Rightarrow> Split \<Rightarrow> error + (Bucket list \<times> bool)"
  sr_Facets :: "Query \<Rightarrow> string list \<Rightarrow> int \<Rightarrow> error + Facets"
  sr_Suggest :: "string \<Rightarrow> string \<Rightarrow> string \<Rightarrow> int \<Rightarrow> error + string list"
  sr_Instance :: "string \<Rightarrow> string \<Rightarrow> string \<Rightarrow> error + Instance option"
  sr_Datacenters :: "error + string list"
  sr_Since :: "string \<Rightarrow> Time \<Rightarrow> int \<Rightarrow> Event list \<times> error option"

definition memory_reads :: "Time \<Rightarrow> MemoryStorage \<Rightarrow> StorageReads" where
  "memory_reads now s = \<lparr> sr_Events = Memory_Events s, sr_Histogram = Memory_Histogram now s,
     sr_Facets = Memory_Facets s, sr_Suggest = (\<lambda>dc field pre limit. Inr (Memory_Suggest s dc field pre limit)),
     sr_Instance = (\<lambda>dc node sid. Inr (Memory_Instance s dc node sid)),
     sr_Datacenters = Inr (Memory_Datacenters s),
     sr_Since = (\<lambda>dc after limit. (Memory_Since s dc after limit, None)) \<rparr>"

text \<open>The interface \<open>Watch\<close>.\<close>

record WatchView =
  wv_Datacenter :: string
  wv_Ready :: bool
  wv_ServiceNames :: "string list"
  wv_NodeNames :: "string list"

datatype 'a response =
    OK 'a
  | BadRequest api_error
  | BadRequestStorage error
  | NotFound
  | InternalError error
  | Unavailable "error option"
  | Panicked


section \<open>Handlers\<close>

record metaResponse =
  mr_LocalDatacenter :: string
  mr_Datacenters :: "string list"
  mr_RetentionDays :: int
  mr_Version :: string
  mr_Fields :: "string list"
  mr_FacetFields :: "string list"
  mr_Kinds :: "string list"
  mr_Statuses :: "string list"

definition handleMeta :: "StorageReads \<Rightarrow> WatchView \<Rightarrow> int \<Rightarrow> string \<Rightarrow> metaResponse response" where
  "handleMeta st w retention version =
     (case sr_Datacenters st of Inl err \<Rightarrow> InternalError err | Inr dcs \<Rightarrow>
       (let loc = wv_Datacenter w;
            dcs = (if loc \<noteq> [] \<and> \<not> list_ex (\<lambda>dc. dc = loc) dcs then dcs @ [loc] else dcs)
        in OK \<lparr> mr_LocalDatacenter = loc, mr_Datacenters = sort_Strings dcs, mr_RetentionDays = retention,
             mr_Version = version, mr_Fields = Fields, mr_FacetFields = FacetFields,
             mr_Kinds = map (\<lambda>k. Kind_String (of_nat k)) [unat KindCheck..<unat KindNode + 1],
             mr_Statuses = map (\<lambda>k. Status_String (of_nat k)) [unat StatusMissing..<unat StatusMaintenance + 1] \<rparr>))"

record eventsResponse =
  er_Events :: "Event list"
  er_NextCursor :: string
  er_HasMore :: bool

definition handleEvents :: "Time \<Rightarrow> Time \<Rightarrow> StorageReads \<Rightarrow> Values \<Rightarrow> eventsResponse response" where
  "handleEvents now1 now2 st v =
     (case parseQuery now1 now2 v of Inl err \<Rightarrow> BadRequest err | Inr q \<Rightarrow>
       (case sr_Events st q of Inl err \<Rightarrow> InternalError err | Inr page \<Rightarrow>
         OK \<lparr> er_Events = pg_Events page, er_NextCursor = Cursor_String (pg_Next page),
              er_HasMore = pg_HasMore page \<rparr>))"

text \<open>The bucket width is kept as a duration; the code writes it as seconds in a float.\<close>

record histogramResponse =
  hr_BucketWidth :: Duration
  hr_Sampled :: bool
  hr_Split :: Split
  hr_Buckets :: "Bucket list"

definition handleHistogram :: "Time \<Rightarrow> Time \<Rightarrow> StorageReads \<Rightarrow> Values \<Rightarrow> histogramResponse response" where
  "handleHistogram now1 now2 st v =
     (case parseQuery now1 now2 v of Inl err \<Rightarrow> BadRequest err | Inr q \<Rightarrow>
       (case ParseSplit (url_Get v ''split'') of Inl err \<Rightarrow> BadRequest (ErrSplit err) | Inr split \<Rightarrow>
         (case sr_Histogram st q (intParam v ''buckets'' 60) split of
            Inl PanicMakeslice \<Rightarrow> Panicked
          | Inl err \<Rightarrow> InternalError err
          | Inr (buckets, sampled) \<Rightarrow>
              OK \<lparr> hr_BucketWidth = (if 1 < length buckets
                     then time_sub (bk_Start (buckets ! 1)) (bk_Start (buckets ! 0)) else 0),
                   hr_Sampled = sampled, hr_Split = split, hr_Buckets = buckets \<rparr>)))"

definition handleFacets :: "Time \<Rightarrow> Time \<Rightarrow> StorageReads \<Rightarrow> Values \<Rightarrow> Facets response" where
  "handleFacets now1 now2 st v =
     (case parseQuery now1 now2 v of Inl err \<Rightarrow> BadRequest err | Inr q \<Rightarrow>
       (let flds = (if url_Get v ''fields'' \<noteq> [] then GoStrings.Split (url_Get v ''fields'') CHR '','' else FacetFields)
        in case sr_Facets st q flds (intParam v ''limit'' 10) of
             Inl err \<Rightarrow> BadRequestStorage err
           | Inr facets \<Rightarrow>
               OK (facets\<lparr> fc_Values := fold (\<lambda>f m. if map_of m f = None then map_put m f [] else m)
                 flds (fc_Values facets) \<rparr>)))"

text \<open>The loop that keeps a value when it differs from the one before it.\<close>

definition drop_repeats :: "string list \<Rightarrow> string list" where
  "drop_repeats values =
     map ((!) values) (filter (\<lambda>i. i = 0 \<or> values ! i \<noteq> values ! (i - 1)) [0..<length values])"

definition handleSuggest :: "StorageReads \<Rightarrow> WatchView \<Rightarrow> Values \<Rightarrow> string list response" where
  "handleSuggest st w v =
     (let dc = url_Get v ''dc''; field = url_Get v ''field''; pre = url_Get v ''q'';
          dc = (if dc = ''all'' then [] else dc);
          limit = intParam v ''limit'' 20
      in case sr_Suggest st dc field pre limit of Inl err \<Rightarrow> BadRequestStorage err | Inr values \<Rightarrow>
        (let live = (if dc = [] \<or> dc = wv_Datacenter w then
               (if field = FieldService then wv_ServiceNames w
                else if field = FieldNode then wv_NodeNames w else []) else []);
             values = sort_Strings (values @ filter (\<lambda>n. HasPrefix n pre) live);
             out = drop_repeats values
         in if int (length out) > limit then
              (if limit < 0 then Panicked else OK (take (nat limit) out))
            else OK out))"

definition handleInstance :: "StorageReads \<Rightarrow> Values \<Rightarrow> Instance response" where
  "handleInstance st v =
     (case sr_Instance st (url_Get v ''dc'') (url_Get v ''node'') (url_Get v ''id'') of
        Inl err \<Rightarrow> InternalError err | Inr None \<Rightarrow> NotFound | Inr (Some i) \<Rightarrow> OK i)"

definition handleReady :: "StorageReads \<Rightarrow> WatchView \<Rightarrow> unit response" where
  "handleReady st w =
     (if \<not> wv_Ready w then Unavailable None
      else case sr_Datacenters st of Inl err \<Rightarrow> Unavailable (Some err) | Inr _ \<Rightarrow> OK ())"


section \<open>The start of a stream\<close>

definition replayLimit :: int where
  "replayLimit = 1000"

text \<open>Frames before the live feed; an event frame has the time in milliseconds as its id.\<close>

datatype frame = FEvent int Event | FWarning error | FGap | FConnected

definition writeEvent :: "Event \<Rightarrow> frame" where
  "writeEvent e = FEvent (UnixMilli (ev_Time e)) e"

definition stream_query :: "Time \<Rightarrow> Time \<Rightarrow> WatchView \<Rightarrow> Values \<Rightarrow> api_error + Query" where
  "stream_query now1 now2 w v =
     res_bind (parseQuery now1 now2 v) (\<lambda>q.
       let loc = wv_Datacenter w;
           q = (if q_Datacenter q = [] then q\<lparr>q_Datacenter := loc\<rparr> else q)
       in if q_Datacenter q \<noteq> loc then Inl (ErrOtherDatacenter loc)
          else Inr (q\<lparr> q_From := zero_time, q_To := zero_time, q_Cursor := zero_cursor, q_Limit := 0 \<rparr>))"

definition stream_since :: "Time \<Rightarrow> Time \<Rightarrow> string \<Rightarrow> Values \<Rightarrow> Time" where
  "stream_since now3 now4 last_id v =
     (case parseTime now3 last_id of
        Some t \<Rightarrow> if IsZero t then (case parseTime now4 (url_Get v ''since'') of Some t \<Rightarrow> t | None \<Rightarrow> zero_time) else t
      | None \<Rightarrow> (case parseTime now4 (url_Get v ''since'') of Some t \<Rightarrow> t | None \<Rightarrow> zero_time))"

definition replay_frames :: "StorageReads \<Rightarrow> Query \<Rightarrow> Time \<Rightarrow> frame list" where
  "replay_frames st q since =
     (if IsZero since then []
      else case sr_Since st (q_Datacenter q) since replayLimit of (missed, err) \<Rightarrow>
        (case err of Some e \<Rightarrow> [FWarning e] | None \<Rightarrow> []) @
        map writeEvent (filter (\<lambda>e. Match e q) missed) @
        (if int (length missed) \<ge> replayLimit then [FGap] else []))"

text \<open>
  The handler up to its loop: refused, or subscribed with the frames it writes first. The
  writer of \<open>net/http\<close> can flush, so the refusal for one that cannot is left out.
\<close>

definition handleStream :: "Time \<Rightarrow> Time \<Rightarrow> Time \<Rightarrow> Time \<Rightarrow> StorageReads \<Rightarrow> WatchView \<Rightarrow> string \<Rightarrow> Values \<Rightarrow> Hub \<Rightarrow>
    (frame list \<times> nat) response \<times> Hub" where
  "handleStream now1 now2 now3 now4 st w last_id v h =
     (case stream_query now1 now2 w v of Inl err \<Rightarrow> (BadRequest err, h) | Inr q \<Rightarrow>
       (case subscribe q h of (c, h') \<Rightarrow>
         (OK (replay_frames st q (stream_since now3 now4 last_id v) @ [FConnected], c), h')))"


section \<open>Filters of a query string\<close>

text \<open>The terms a list of filter parameters states: field, value, and whether it excludes.\<close>

definition filter_term :: "string \<Rightarrow> string \<times> string \<times> bool" where
  "filter_term raw = (case parseFilter raw of Inr f \<Rightarrow> (f_Field f, hd (f_Values f), f_Not f) | Inl _ \<Rightarrow> ([], [], False))"

text \<open>What a list of filters stands for: no key twice, and under each key its values in order.\<close>

definition filters_hold :: "(string \<times> string \<times> bool) list \<Rightarrow> Filter list \<Rightarrow> bool" where
  "filters_hold terms fs \<longleftrightarrow>
     distinct (map (\<lambda>f. (f_Field f, f_Not f)) fs) \<and>
     (\<forall>f \<in> set fs. f_Values f \<noteq> []) \<and>
     (\<forall>field neg x. (field, x, neg) \<in> set terms \<longleftrightarrow>
       (\<exists>f \<in> set fs. f_Field f = field \<and> f_Not f = neg \<and> x \<in> set (f_Values f)))"

lemma parseFilter_one: "parseFilter raw = Inr f \<Longrightarrow> f_Values f = [hd (f_Values f)]"
  by (auto simp: parseFilter_def Let_def split: prod.splits if_splits)

lemma merge_filter_keys:
  "(\<lambda>f. (f_Field f, f_Not f)) ` set (merge_filter f fs) = insert (f_Field f, f_Not f) ((\<lambda>f. (f_Field f, f_Not f)) ` set fs)"
  by (induction f fs rule: merge_filter.induct) auto

lemma merge_filter_distinct:
  "distinct (map (\<lambda>f. (f_Field f, f_Not f)) fs) \<Longrightarrow> distinct (map (\<lambda>f. (f_Field f, f_Not f)) (merge_filter f fs))"
proof (induction f fs rule: merge_filter.induct)
  case (2 f g gs)
  then show ?case
    using merge_filter_keys[of f gs] by (auto simp: image_iff)
qed simp

lemma merge_filter_values:
  "(\<exists>h \<in> set (merge_filter f fs). f_Field h = field \<and> f_Not h = neg \<and> x \<in> set (f_Values h)) \<longleftrightarrow>
   (f_Field f = field \<and> f_Not f = neg \<and> x \<in> set (f_Values f)) \<or>
   (\<exists>h \<in> set fs. f_Field h = field \<and> f_Not h = neg \<and> x \<in> set (f_Values h))"
  by (induction f fs rule: merge_filter.induct) auto

lemma merge_filter_nonempty:
  "f_Values f \<noteq> [] \<Longrightarrow> \<forall>h \<in> set fs. f_Values h \<noteq> [] \<Longrightarrow> \<forall>h \<in> set (merge_filter f fs). f_Values h \<noteq> []"
  by (induction f fs rule: merge_filter.induct) auto

lemma filters_hold_merge:
  assumes "filters_hold terms fs" "parseFilter raw = Inr f"
  shows "filters_hold (terms @ [filter_term raw]) (merge_filter f fs)"
proof -
  have "filter_term raw = (f_Field f, hd (f_Values f), f_Not f)" "set (f_Values f) = {hd (f_Values f)}"
    "f_Values f \<noteq> []"
    using assms(2) parseFilter_one[OF assms(2)]
    by (simp add: filter_term_def, metis list.simps(15) empty_set, metis list.distinct(1))
  then show ?thesis
    using assms(1) merge_filter_distinct[of fs f] merge_filter_nonempty[of f fs]
    unfolding filters_hold_def merge_filter_values by auto
qed

lemma add_filter_Inr: "add_filter raw fs = Inr fs' \<longleftrightarrow> (\<exists>f. parseFilter raw = Inr f \<and> fs' = merge_filter f fs)"
  by (auto simp: add_filter_def res_bind_Inr_iff)

lemma add_filters_hold:
  "fold_res add_filter raws fs = Inr fs' \<Longrightarrow> filters_hold terms fs \<Longrightarrow>
   filters_hold (terms @ map filter_term raws) fs'"
proof (induction raws arbitrary: fs terms)
  case (Cons raw raws)
  then obtain f where f: "parseFilter raw = Inr f" "fold_res add_filter raws (merge_filter f fs) = Inr fs'"
    by (auto simp: add_filter_Inr res_bind_Inr_iff)
  show ?case
    using Cons.IH[OF f(2) filters_hold_merge[OF Cons.prems(2) f(1)]] by simp
qed simp

lemma filters_hold_Nil: "filters_hold [] []"
  by (simp add: filters_hold_def)

lemma filters_hold_match:
  assumes "filters_hold terms fs"
  shows "list_all (\<lambda>f. Filter_match f e \<noteq> f_Not f) fs \<longleftrightarrow>
    (\<forall>(field, x, neg) \<in> set terms. (\<exists>(field', x', neg') \<in> set terms. field' = field \<and> neg' = neg \<and> matchOne field e x') \<noteq> neg)"
    (is "?lhs \<longleftrightarrow> ?rhs")
proof -
  have one: "Filter_match f e \<longleftrightarrow> (\<exists>(field', x', neg') \<in> set terms. field' = f_Field f \<and> neg' = f_Not f \<and> matchOne (f_Field f) e x')"
    if f: "f \<in> set fs" for f
  proof -
    have same: "g = f" if "g \<in> set fs" "f_Field g = f_Field f" "f_Not g = f_Not f" for g
      using assms f that by (auto simp: filters_hold_def distinct_map inj_on_def)
    have "(f_Field f, x, f_Not f) \<in> set terms \<longleftrightarrow>
        (\<exists>g \<in> set fs. f_Field g = f_Field f \<and> f_Not g = f_Not f \<and> x \<in> set (f_Values g))" for x
      using assms by (simp add: filters_hold_def)
    then have "(f_Field f, x, f_Not f) \<in> set terms \<longleftrightarrow> x \<in> set (f_Values f)" for x
      using same f by blast
    then show ?thesis
      by (auto simp: Filter_match_def list_ex_iff)
  qed
  show ?thesis
  proof
    assume lhs: ?lhs
    have "(\<exists>(field', x', neg') \<in> set terms. field' = field \<and> neg' = neg \<and> matchOne field e x') \<noteq> neg"
      if "(field, x, neg) \<in> set terms" for field x neg
    proof -
      have "\<exists>f \<in> set fs. f_Field f = field \<and> f_Not f = neg \<and> x \<in> set (f_Values f)"
        using assms that by (simp add: filters_hold_def)
      then obtain f where f: "f \<in> set fs" "f_Field f = field" "f_Not f = neg"
        by blast
      then have "Filter_match f e \<noteq> neg"
        using lhs by (simp add: list_all_iff)
      then show ?thesis
        using one[OF f(1)] f(2,3) by simp
    qed
    then show ?rhs
      by blast
  next
    assume rhs: ?rhs
    have "Filter_match f e \<noteq> f_Not f" if f: "f \<in> set fs" for f
    proof -
      have "hd (f_Values f) \<in> set (f_Values f)"
        using assms f by (simp add: filters_hold_def)
      then have "\<exists>g \<in> set fs. f_Field g = f_Field f \<and> f_Not g = f_Not f \<and> hd (f_Values f) \<in> set (f_Values g)"
        using f by blast
      then have t: "(f_Field f, hd (f_Values f), f_Not f) \<in> set terms"
        using assms by (simp add: filters_hold_def)
      have "(\<exists>(field', x', neg') \<in> set terms. field' = f_Field f \<and> neg' = f_Not f \<and> matchOne (f_Field f) e x') \<noteq> f_Not f"
        using bspec[OF rhs t] unfolding prod.case .
      then show ?thesis
        using one[OF f] by simp
    qed
    then show ?lhs
      by (simp add: list_all_iff)
  qed
qed

lemma map_sum_Inr_iff: "map_sum g (\<lambda>c. c) r = Inr a \<longleftrightarrow> r = Inr a"
  by (cases r) simp_all

lemma parseQuery_Inr:
  "parseQuery now1 now2 v = Inr q \<longleftrightarrow>
   (\<exists>from to c lim fs. parseTime now1 (url_Get v ''from'') = Some from \<and>
      parseTime now2 (url_Get v ''to'') = Some to \<and> ParseCursor (url_Get v ''cursor'') = Inr c \<and>
      parse_limit (url_Get v ''limit'') = Inr lim \<and> fold_res add_filter (url_All v ''f'') [] = Inr fs \<and>
      q = \<lparr> q_Datacenter = (if url_Get v ''dc'' = ''all'' then [] else url_Get v ''dc''), q_From = from, q_To = to,
        q_Filters = fs, q_Text = TrimSpace (url_Get v ''q''), q_Cursor = c, q_Limit = lim \<rparr> \<and>
      Query_Validate q = None)"
  by (auto simp: parseQuery_def Let_def res_bind_Inr_iff time_param_def map_sum_Inr_iff split: option.splits)

text \<open>When a query string is accepted, parameter by parameter.\<close>

definition filters_wellformed :: "string list \<Rightarrow> bool" where
  "filters_wellformed raws \<longleftrightarrow> list_all (\<lambda>raw. isl (parseFilter raw) = False \<and>
     (case filter_term raw of (field, x, neg) \<Rightarrow> field \<in> set Fields \<and> value_ok field x)) raws"

lemma add_filters_total: "(\<exists>fs. fold_res add_filter raws gs = Inr fs) \<longleftrightarrow> list_all (\<lambda>raw. isl (parseFilter raw) = False) raws"
proof (induction raws arbitrary: gs)
  case (Cons raw raws)
  then show ?case
    by (cases "parseFilter raw") (auto simp: add_filter_def)
qed simp

lemma filters_hold_valid:
  assumes "filters_hold terms fs"
  shows "validate_filters fs = None \<longleftrightarrow> list_all (\<lambda>(field, x, neg). field \<in> set Fields \<and> value_ok field x) terms"
proof -
  have mem: "(field, x, neg) \<in> set terms \<longleftrightarrow>
      (\<exists>f \<in> set fs. f_Field f = field \<and> f_Not f = neg \<and> x \<in> set (f_Values f))" for field x neg
    using assms by (simp add: filters_hold_def)
  have ne: "f_Values f \<noteq> []" if "f \<in> set fs" for f
    using assms that by (simp add: filters_hold_def)
  have "(f_Values f \<noteq> [] \<and> f_Field f \<in> set Fields \<and> list_all (value_ok (f_Field f)) (f_Values f)) \<longleftrightarrow>
      (\<forall>x \<in> set (f_Values f). f_Field f \<in> set Fields \<and> value_ok (f_Field f) x)" if "f \<in> set fs" for f
    using ne[OF that] by (cases "f_Values f") (auto simp: list_all_iff)
  then have "validate_filters fs = None \<longleftrightarrow>
      (\<forall>f \<in> set fs. \<forall>x \<in> set (f_Values f). f_Field f \<in> set Fields \<and> value_ok (f_Field f) x)"
    using Query_Validate_None_iff[of "zero_query\<lparr>q_Filters := fs\<rparr>"]
    by (simp add: Query_Validate_def Filter_Validate_value_ok list_all_iff)
  also have "\<dots> \<longleftrightarrow> (\<forall>field x neg. (field, x, neg) \<in> set terms \<longrightarrow> field \<in> set Fields \<and> value_ok field x)"
    unfolding mem by blast
  finally show ?thesis
    by (simp only: list_all_iff Ball_def split_paired_All prod.case)
qed

lemma filters_accepted:
  "(\<exists>fs. fold_res add_filter raws [] = Inr fs \<and> validate_filters fs = None) \<longleftrightarrow> filters_wellformed raws"
proof -
  let ?known = "\<lambda>raw. case filter_term raw of (field, x, neg) \<Rightarrow> field \<in> set Fields \<and> value_ok field x"
  have "validate_filters fs = None \<longleftrightarrow> list_all ?known raws" if "fold_res add_filter raws [] = Inr fs" for fs
    using filters_hold_valid[OF add_filters_hold[OF that filters_hold_Nil]]
    by (simp add: list_all_iff case_prod_unfold)
  moreover have "filters_wellformed raws \<longleftrightarrow>
      list_all (\<lambda>raw. isl (parseFilter raw) = False) raws \<and> list_all ?known raws"
    unfolding filters_wellformed_def list_all_iff by (rule ball_conj_distrib)
  ultimately show ?thesis
    using add_filters_total[of raws "[]"] by blast
qed

lemma parse_limit_accepted: "(\<exists>n. parse_limit l = Inr n) \<longleftrightarrow> l = [] \<or> (\<exists>n. Atoi l = Some n)"
  by (cases "Atoi l") (simp_all add: parse_limit_def)

lemma parseQuery_accepts:
  "(\<exists>q. parseQuery now1 now2 v = Inr q) \<longleftrightarrow>
   (\<exists>t. parseTime now1 (url_Get v ''from'') = Some t) \<and> (\<exists>t. parseTime now2 (url_Get v ''to'') = Some t) \<and>
   (\<exists>c. ParseCursor (url_Get v ''cursor'') = Inr c) \<and> (\<exists>n. parse_limit (url_Get v ''limit'') = Inr n) \<and>
   filters_wellformed (url_All v ''f'')"
  unfolding filters_accepted[symmetric] parseQuery_Inr Query_Validate_def by (intro iffI; elim exE conjE; simp)


section \<open>Times in a query string\<close>

lemma digit_not_space: "is_digit c \<Longrightarrow> \<not> is_space c"
  by (auto simp: is_digit_def is_space_def)

lemma parseTime_digits:
  assumes "isDigits s"
  shows "parseTime now s = Some (let n = fst (ParseInt s) in if n > 1000000000000 then FromUnixMilli n else FromUnix n)"
proof -
  have "TrimSpace s = s"
    using assms digit_not_space by (intro TrimSpace_id) (auto simp: isDigits_def list_all_iff)
  moreover have "s \<noteq> ''now''" "s \<noteq> []"
    using assms by (auto simp: isDigits_def is_digit_def)
  ultimately show ?thesis
    using assms by (simp add: parseTime_def Let_def)
qed

lemma parseTime_Itoa:
  assumes "0 \<le> n" "in_int64 n"
  shows "parseTime now (Itoa n) = Some (if n > 1000000000000 then FromUnixMilli n else FromUnix n)"
proof -
  have "isDigits (Itoa n)"
    using assms(1) nat_str_digits[of "nat n"] by (simp add: isDigits_def Itoa_def)
  then show ?thesis
    using assms by (simp add: parseTime_digits ParseInt_Itoa)
qed

lemma FormatRFC3339_form:
  "\<exists>c r. FormatRFC3339Nano off t = c # r \<and> r \<noteq> [] \<and> is_digit c \<and> CHR ''-'' \<in> set r \<and> \<not> is_space (last r)"
proof -
  obtain y m d where ymd: "days_date (nat ((t + off * Minute) div Second div 86400 + epoch_days)) = (y, m, d)"
    by (metis prod_cases3)
  obtain x where x: "FormatRFC3339Nano off t = four y @ CHR ''-'' # x @ zone_text off"
    unfolding FormatRFC3339Nano_def Let_def ymd prod.case by auto
  have four: "\<exists>c r. four y = c # r \<and> is_digit c"
    by (simp add: four_def two_def)
  have "zone_text off \<noteq> []" "\<not> is_space (last (zone_text off))"
    using digit_not_space[OF is_digit_char] by (auto simp: zone_text_def two_def is_space_def)
  then show ?thesis
    using x four by auto
qed

lemma parseTime_Format:
  assumes "printable off t"
  shows "parseTime now (FormatRFC3339Nano off t) = Some t"
proof -
  let ?s = "FormatRFC3339Nano off t"
  obtain c r where s: "?s = c # r" "r \<noteq> []" "is_digit c" "CHR ''-'' \<in> set r" "\<not> is_space (last r)"
    using FormatRFC3339_form by blast
  have trim: "TrimSpace ?s = ?s"
    by (rule TrimSpace_id) (simp_all add: s digit_not_space)
  have "\<not> is_digit (CHR ''-'')" "\<not> is_digit (CHR ''n'')"
    by (simp_all add: is_digit_def)
  then have "\<not> isDigits ?s" "?s \<noteq> ''now''" "?s \<noteq> []"
    using s by (auto simp: isDigits_def list_all_iff)
  then show ?thesis
    using ParseRFC3339_Format[OF assms] by (simp add: parseTime_def trim)
qed


section \<open>Suggestions\<close>

lemma drop_repeats_adj: "drop_repeats xs = remdups_adj xs"
proof (induction xs rule: rev_induct)
  case (snoc x xs)
  have "filter (\<lambda>i. i = 0 \<or> (xs @ [x]) ! i \<noteq> (xs @ [x]) ! (i - 1)) [0..<length xs] =
      filter (\<lambda>i. i = 0 \<or> xs ! i \<noteq> xs ! (i - 1)) [0..<length xs]"
    by (intro filter_cong) (auto simp: nth_append)
  moreover have "map ((!) (xs @ [x])) (filter P [0..<length xs]) = map ((!) xs) (filter P [0..<length xs])" for P
    by (auto simp: nth_append)
  ultimately have "drop_repeats (xs @ [x]) = drop_repeats xs @ (if xs = [] \<or> x \<noteq> last xs then [x] else [])"
    by (auto simp: drop_repeats_def nth_append last_conv_nth)
  then show ?case
    using snoc by (cases xs rule: rev_cases) (simp_all add: remdups_adj_append_two)
qed (simp add: drop_repeats_def)

section \<open>Pages over HTTP\<close>

text \<open>A client that asks for the next page with the cursor of the answer, for at most \<open>n\<close> requests.\<close>

fun http_walk :: "(nat \<Rightarrow> Time) \<Rightarrow> nat \<Rightarrow> StorageReads \<Rightarrow> Values \<Rightarrow> string \<Rightarrow> Event list option" where
  "http_walk clock 0 st v c = None"
| "http_walk clock (Suc n) st v c =
     (case handleEvents (clock n) (clock n) st ((''cursor'', c) # v) of
        OK r \<Rightarrow> if \<not> er_HasMore r then Some (er_Events r)
          else map_option ((@) (er_Events r)) (http_walk clock n st v (er_NextCursor r))
      | _ \<Rightarrow> None)"

lemma url_Get_cursor [simp]:
  "url_Get ((''cursor'', c) # v) key = (if key = ''cursor'' then c else url_Get v key)"
  "key \<noteq> ''cursor'' \<Longrightarrow> url_All ((''cursor'', c) # v) key = url_All v key"
  by (auto simp: url_Get_def url_All_def)

lemma parseTime_fixed: "TrimSpace t \<noteq> ''now'' \<Longrightarrow> parseTime now t = parseTime now' t"
  by (auto simp: parseTime_def Let_def)

lemma parseQuery_cursor:
  assumes "parseQuery now1 now2 v = Inr q" "ParseCursor c = Inr c'"
    and "TrimSpace (url_Get v ''from'') \<noteq> ''now''" "TrimSpace (url_Get v ''to'') \<noteq> ''now''"
  shows "parseQuery now3 now4 ((''cursor'', c) # v) = Inr (q\<lparr>q_Cursor := c'\<rparr>)"
  using assms parseTime_fixed[of "url_Get v ''from''" now3 now1] parseTime_fixed[of "url_Get v ''to''" now4 now2]
  by (auto simp: parseQuery_Inr Query_Validate_def)

lemma http_walk_eq:
  assumes "parseQuery now1 now2 v = Inr q"
    and "TrimSpace (url_Get v ''from'') \<noteq> ''now''" "TrimSpace (url_Get v ''to'') \<noteq> ''now''"
    and "ParseCursor c = Inr c'"
  shows "walk via_url n s (q\<lparr>q_Cursor := c'\<rparr>) = Some es \<Longrightarrow> http_walk clock n (memory_reads now s) v c = Some es"
  using assms(4)
proof (induction n arbitrary: c c' es)
  case (Suc n)
  have q: "parseQuery (clock n) (clock n) ((''cursor'', c) # v) = Inr (q\<lparr>q_Cursor := c'\<rparr>)"
    by (rule parseQuery_cursor[OF assms(1) Suc.prems(2) assms(2,3)])
  obtain page where page: "Memory_Events s (q\<lparr>q_Cursor := c'\<rparr>) = Inr page"
    using Suc.prems(1) by (auto split: sum.splits)
  show ?case
  proof (cases "pg_HasMore page")
    case False
    then show ?thesis
      using Suc.prems(1) q page by (simp add: handleEvents_def memory_reads_def)
  next
    case True
    then obtain d es' where d: "via_url (pg_Next page) = Inr d" "walk via_url n s (q\<lparr>q_Cursor := d\<rparr>) = Some es'"
      "es = pg_Events page @ es'"
      using Suc.prems(1) page by (auto split: sum.splits)
    have "http_walk clock n (memory_reads now s) v (Cursor_String (pg_Next page)) = Some es'"
      using d(1) by (intro Suc.IH[OF d(2)]) (simp add: via_url_def)
    then show ?thesis
      using True d(3) q page by (simp add: handleEvents_def memory_reads_def)
  qed
qed simp

lemma http_pages:
  assumes "mem_ok s" "parseQuery now1 now2 v = Inr q" "url_Get v ''cursor'' = []"
    and "TrimSpace (url_Get v ''from'') \<noteq> ''now''" "TrimSpace (url_Get v ''to'') \<noteq> ''now''"
    and "list_all (\<lambda>e. \<not> IsZero (ev_Time e) \<and> ev_Time e mod Millisecond = 0 \<and>
      in_int64 (ev_Time e div Millisecond) \<and> in_int64 (ev_ID e)) (ring_log s)"
    and "m_size s < n"
  shows "http_walk clock n (memory_reads now s) v [] = Some (matching s q)"
proof -
  have none: "ParseCursor [] = Inr zero_cursor"
    by (simp add: ParseCursor_def)
  then have q: "q_Cursor q = zero_cursor" "Query_Validate q = None"
    using assms(2,3) by (auto simp: parseQuery_Inr)
  have "via_url (event_pos e) = Inr (event_pos e)" if "e \<in> set (ring_log s)" for e
    using via_url_truncates[of "event_pos e"] that assms(6)
    by (simp add: event_pos_def Cursor_IsZero_def list_all_iff)
  moreover have rest: "rest_from s q = matching s q"
    using q(1) by (simp add: rest_from_def Cursor_IsZero_def IsZero_def zero_cursor_def)
  ultimately have "walk via_url n s q = Some (matching s q)"
    using walk_from[OF assms(1) q(2), of via_url n] assms(6,7) matching_length_le[of s q]
    by (simp add: matching_set list_all_iff)
  moreover have "q\<lparr>q_Cursor := zero_cursor\<rparr> = q"
    using q(1) by (cases q) simp
  ultimately have "walk via_url n s (q\<lparr>q_Cursor := zero_cursor\<rparr>) = Some (matching s q)"
    by simp
  then show ?thesis
    by (rule http_walk_eq[OF assms(2,4,5) none])
qed


section \<open>Properties\<close>


text \<open>
  C19: The handler of events answers every request, and refuses exactly the malformed ones. Over
  the in-memory storage it never fails after parsing: it answers with a page when both times,
  the cursor, the limit and every filter are well formed, the fields known and their values
  readable, and with a bad request otherwise.
\<close>

theorem events_bad_request_exact:
  "if (\<exists>t. parseTime now1 (url_Get v ''from'') = Some t) \<and> (\<exists>t. parseTime now2 (url_Get v ''to'') = Some t) \<and>
      (\<exists>c. ParseCursor (url_Get v ''cursor'') = Inr c) \<and>
      (url_Get v ''limit'' = [] \<or> (\<exists>n. Atoi (url_Get v ''limit'') = Some n)) \<and>
      filters_wellformed (url_All v ''f'')
   then \<exists>r. handleEvents now1 now2 (memory_reads now s) v = OK r
   else \<exists>err. handleEvents now1 now2 (memory_reads now s) v = BadRequest err"
proof -
  have "\<exists>r. handleEvents now1 now2 (memory_reads now s) v = OK r" if "parseQuery now1 now2 v = Inr q" for q
  proof -
    have "Query_Validate q = None"
      using that by (auto simp: parseQuery_Inr)
    then show ?thesis
      using that by (simp add: handleEvents_def memory_reads_def Memory_Events_def Let_def)
  qed
  moreover have "\<exists>err. handleEvents now1 now2 (memory_reads now s) v = BadRequest err"
    if "\<nexists>q. parseQuery now1 now2 v = Inr q"
    using that by (cases "parseQuery now1 now2 v") (auto simp: handleEvents_def)
  ultimately show ?thesis
    using parseQuery_accepts[of now1 now2 v] unfolding parse_limit_accepted by (simp only: split: if_split) blast
qed

text \<open>
  A printed time reads back. The RFC 3339 text of an instant, in any zone and with its
  nanoseconds, is read as that instant; the digits of a number are its seconds since the epoch
  up to a million million and its milliseconds above, and nothing is read as a time before the
  zero value's: an empty parameter is the zero time.
\<close>

theorem time_param_roundtrip:
  assumes "printable off t" "0 \<le> n" "in_int64 n"
  shows "parseTime now (FormatRFC3339Nano off t) = Some t \<and>
    parseTime now (Itoa n) = Some (n * (if n > 1000000000000 then Millisecond else Second)) \<and>
    parseTime now [] = Some zero_time \<and> parseTime now ''now'' = Some now"
proof -
  have "TrimSpace ''now'' = ''now''" "TrimSpace [] = []"
    by (simp_all add: TrimSpace_def is_space_def)
  then show ?thesis
    using parseTime_Format[OF assms(1)] parseTime_Itoa[OF assms(2,3)]
    by (simp add: FromUnixMilli_def FromUnix_def, simp add: parseTime_def)
qed

lemma handleSuggest_memory:
  fixes w :: WatchView and v :: Values
  defines "dc \<equiv> (if url_Get v ''dc'' = ''all'' then [] else url_Get v ''dc'')"
    and "field \<equiv> url_Get v ''field''" and "pre \<equiv> url_Get v ''q''" and "limit \<equiv> intParam v ''limit'' 20"
  shows "handleSuggest (memory_reads now s) w v =
    (if limit < 0 then Panicked
     else OK (take (nat limit) (sorted_list_of_set
       ({x. HasPrefix x pre \<and> (\<exists>e. e \<in> set (ring_log s) \<and> (dc = [] \<or> ev_Datacenter e = dc) \<and> x \<in> set (FieldValues e field))} \<union>
        {x. HasPrefix x pre \<and> (dc = [] \<or> dc = wv_Datacenter w) \<and>
          (field = FieldService \<and> x \<in> set (wv_ServiceNames w) \<or> field = FieldNode \<and> x \<in> set (wv_NodeNames w))}))))"
    (is "_ = (if _ then _ else OK (take _ (sorted_list_of_set (?A \<union> ?B))))")
proof -
  let ?k = "nat (if limit \<le> 0 then 20 else limit)"
  let ?live = "if dc = [] \<or> dc = wv_Datacenter w then
     (if field = FieldService then wv_ServiceNames w else if field = FieldNode then wv_NodeNames w else []) else []"
  have A: "?A = {x. \<exists>e. e \<in> set (ring_log s) \<and> (dc = [] \<or> ev_Datacenter e = dc) \<and> x \<in> set (FieldValues e field) \<and> HasPrefix x pre}"
    by blast
  have stored: "sr_Suggest (memory_reads now s) dc field pre limit = Inr (take ?k (sorted_list_of_set ?A))"
    unfolding A by (simp add: memory_reads_def suggestions_sorted_complete[THEN conjunct1])
  have B: "set (filter (\<lambda>n. HasPrefix n pre) ?live) = ?B"
    by auto
  have "finite (\<Union>e \<in> set (ring_log s). set (FieldValues e field))"
    by simp
  then have fin: "finite ?A" "finite ?B"
    by (rule rev_finite_subset) (auto simp: B[symmetric])
  let ?merged = "take ?k (sorted_list_of_set ?A) @ filter (\<lambda>n. HasPrefix n pre) ?live"
  let ?out = "drop_repeats (sort_Strings ?merged)"
  have out: "?out = sorted_list_of_set (set (take ?k (sorted_list_of_set ?A)) \<union> ?B)"
  proof (rule sorted_distinct_set_unique)
    show "set ?out = set (sorted_list_of_set (set (take ?k (sorted_list_of_set ?A)) \<union> ?B))"
      using B fin by (simp add: drop_repeats_adj sort_Strings_def)
  qed (simp_all add: drop_repeats_adj sort_Strings_def distinct_remdups_adj)
  have handler: "handleSuggest (memory_reads now s) w v =
      (if int (length ?out) > limit then (if limit < 0 then Panicked else OK (take (nat limit) ?out)) else OK ?out)"
    unfolding handleSuggest_def Let_def dc_def[symmetric] field_def[symmetric] pre_def[symmetric] limit_def[symmetric] stored
    by simp
  show ?thesis
  proof (cases "limit < 0")
    case True
    then show ?thesis
      unfolding handler by simp
  next
    case False
    have "take (nat limit) ?out = take (nat limit) (sorted_list_of_set (?A \<union> ?B))"
      unfolding out using take_merge[OF fin, of ?k] False by (cases "limit = 0") simp_all
    then show ?thesis
      unfolding handler using False by (auto simp: take_all)
  qed
qed

text \<open>
  C22: Suggestions are complete and bounded. Over the in-memory storage, with the watcher's
  names, the handler answers with the first values, in order and without repeats, of everything
  stored for the field in the datacenter and, for services and nodes of the local datacenter,
  everything watched, that starts with the text typed; cutting the stored values before the
  merge loses none of them. A negative limit, which nothing refuses, panics.
\<close>

theorem suggest_complete:
  "let dc = (if url_Get v ''dc'' = ''all'' then [] else url_Get v ''dc''); field = url_Get v ''field'';
       pre = url_Get v ''q''; limit = intParam v ''limit'' 20 in
   handleSuggest (memory_reads now s) w v =
    (if limit < 0 then Panicked
     else OK (take (nat limit) (sorted_list_of_set
       ({x. HasPrefix x pre \<and> (\<exists>e. e \<in> set (ring_log s) \<and> (dc = [] \<or> ev_Datacenter e = dc) \<and> x \<in> set (FieldValues e field))} \<union>
        {x. HasPrefix x pre \<and> (dc = [] \<or> dc = wv_Datacenter w) \<and>
          (field = FieldService \<and> x \<in> set (wv_ServiceNames w) \<or> field = FieldNode \<and> x \<in> set (wv_NodeNames w))}))))"
  unfolding Let_def by (rule handleSuggest_memory)

text \<open>
  C17: The pages of the HTTP API put together are the whole answer: a client that sends the same
  query string with the cursor of each answer gets, after finitely many requests, every stored
  event the query string selects, each once, newest first, when the stored times are whole
  milliseconds. (The window must not move: neither end is the word now.)
\<close>

theorem http_pages_cover_matches:
  assumes "memory_reachable s" "parseQuery now1 now2 v = Inr q" "url_Get v ''cursor'' = []"
    and "TrimSpace (url_Get v ''from'') \<noteq> ''now''" "TrimSpace (url_Get v ''to'') \<noteq> ''now''"
    and "list_all (\<lambda>e. \<not> IsZero (ev_Time e) \<and> ev_Time e mod Millisecond = 0 \<and>
      in_int64 (ev_Time e div Millisecond) \<and> in_int64 (ev_ID e)) (ring_log s)"
    and "m_size s < n"
  shows "http_walk clock n (memory_reads now s) v [] = Some (matching s q)"
  by (rule http_pages[OF reachable_ok[OF assms(1)] assms(2-7)])


text \<open>
  The id of a frame is a place to resume. A client that sends back the id of the last event
  it saw (after September 2001, when ids are told from seconds) is replayed the events of later
  milliseconds, and only those: not the other events of the same millisecond.
\<close>

theorem frame_id_resumes:
  assumes "writeEvent e = FEvent i e" "1000000000000 < i" "in_int64 (ev_Time x div Millisecond)"
  shows "\<not> IsZero (stream_since now3 now4 (Itoa i) v) \<and>
    (stream_since now3 now4 (Itoa i) v + Millisecond \<le> ev_Time x \<longleftrightarrow> i < UnixMilli (ev_Time x))"
proof -
  have "in_int64 i"
    using assms(1) UnixMilli_range by (auto simp: writeEvent_def)
  then have "stream_since now3 now4 (Itoa i) v = i * Millisecond \<and> \<not> IsZero (i * Millisecond)"
    using assms(2) by (simp add: stream_since_def parseTime_Itoa FromUnixMilli_def IsZero_def zero_time_def)
  moreover have "i * Millisecond + Millisecond \<le> ev_Time x \<longleftrightarrow> i < ev_Time x div Millisecond"
    using div_mult_mod_eq[of "ev_Time x" Millisecond] pos_mod_bound[of Millisecond "ev_Time x"]
      pos_mod_sign[of Millisecond "ev_Time x"] by linarith
  ultimately show ?thesis
    using assms(3) by (simp add: UnixMilli_def)
qed


section \<open>Witnesses\<close>

definition sample_url :: Values where
  "sample_url = [(''f'', ''team:pay''), (''f'', ''team:ops*''), (''f'', ''-kind:node''), (''limit'', ''1'')]"

lemma sample_url_get [simp]:
  "url_Get sample_url ''f'' = ''team:pay''" "url_Get sample_url ''limit'' = ''1''"
  "url_Get sample_url ''from'' = []" "url_Get sample_url ''to'' = []" "url_Get sample_url ''cursor'' = []"
  "url_Get sample_url ''dc'' = []" "url_Get sample_url ''q'' = []" "url_Get sample_url ''since'' = []"
  "url_All sample_url ''f'' = [''team:pay'', ''team:ops*'', ''-kind:node'']"
  by (simp_all add: url_Get_def url_All_def sample_url_def)

definition sample_query :: Query where
  "sample_query = zero_query\<lparr> q_Limit := 1, q_Filters := [
     \<lparr>f_Field = ''team'', f_Values = [''pay'', ''ops*''], f_Not = False\<rparr>,
     \<lparr>f_Field = ''kind'', f_Values = [''node''], f_Not = True\<rparr>] \<rparr>"

lemma sample_parse: "parseQuery now1 now2 sample_url = Inr sample_query"
proof -
  have "fold_res add_filter [''team:pay'', ''team:ops*'', ''-kind:node''] [] = Inr (q_Filters sample_query)"
    by code_simp
  moreover have "parse_limit ''1'' = Inr 1" "parseTime now [] = Some zero_time" "TrimSpace [] = []"
    "ParseCursor [] = Inr zero_cursor" "Query_Validate sample_query = None" for now
    by (code_simp, simp add: parseTime_def TrimSpace_def, simp add: TrimSpace_def, code_simp, code_simp)
  ultimately show ?thesis
    by (simp add: parseQuery_Inr) (simp add: sample_query_def zero_query_def)
qed


theorem time_param_roundtrip_witness:
  "parseTime 0 (FormatRFC3339Nano 120 1789600000123456789) = Some 1789600000123456789 \<and>
   parseTime 0 (Itoa 1789600000123) = Some 1789600000123000000 \<and> parseTime 0 (Itoa 1789600000) = Some 1789600000000000000"
proof -
  have p: "printable 120 1789600000123456789"
    by (simp add: printable_def Date_def date_days_def year_start_def epoch_days_def)
  show ?thesis
    using time_param_roundtrip[OF p, of 1789600000123 0] time_param_roundtrip[OF p, of 1789600000 0]
    by (simp add: in_int64_def)
qed

theorem http_pages_cover_matches_witness:
  "http_walk (\<lambda>_. 0) 4 (memory_reads 0 (sample_store [5000000, 5000000, 7000000])) [(''limit'', ''1'')] [] =
     Some (matching (sample_store [5000000, 5000000, 7000000]) (zero_query\<lparr>q_Limit := 1\<rparr>))"
proof (rule http_pages_cover_matches[OF sample_reachable])
  have "parseTime t [] = Some zero_time" "TrimSpace [] = []" for t
    by (simp_all add: parseTime_def TrimSpace_def)
  moreover have "parse_limit ''1'' = Inr 1" "ParseCursor [] = Inr zero_cursor"
    by code_simp+
  ultimately show "parseQuery 0 0 [(''limit'', ''1'')] = Inr (zero_query\<lparr>q_Limit := 1\<rparr>)"
    by (simp add: parseQuery_Inr url_Get_def url_All_def zero_query_def Query_Validate_def)
  show "TrimSpace (url_Get [(''limit'', ''1'')] ''from'') \<noteq> ''now''" "TrimSpace (url_Get [(''limit'', ''1'')] ''to'') \<noteq> ''now''"
    by (simp_all add: url_Get_def url_All_def TrimSpace_def)
qed (simp_all add: url_Get_def url_All_def sample_log sample_size sample_event_def IsZero_def zero_time_def in_int64_def)

definition sample_watch :: WatchView where
  "sample_watch = \<lparr> wv_Datacenter = ''dc1'', wv_Ready = True, wv_ServiceNames = [''web''], wv_NodeNames = [] \<rparr>"

definition sample_dc_store :: MemoryStorage where
  "sample_dc_store = Memory_StoreEvents (Memory_New 3)
     (map (\<lambda>t. (sample_event t)\<lparr>ev_Datacenter := ''dc1''\<rparr>) [5000000, 7000000])"


theorem frame_id_resumes_witness:
  "stream_since 0 0 (Itoa 1789600000123) [] + Millisecond \<le> 1789600000124000000 \<and>
   \<not> stream_since 0 0 (Itoa 1789600000123) [] + Millisecond \<le> 1789600000123999999"
proof -
  have e: "writeEvent (sample_event 1789600000123000000) = FEvent 1789600000123 (sample_event 1789600000123000000)"
    by (simp add: writeEvent_def sample_event_def UnixMilli_def in_int64_def)
  show ?thesis
    using frame_id_resumes[OF e, of "sample_event 1789600000124000000" 0 0 "[]"]
      frame_id_resumes[OF e, of "sample_event 1789600000123999999" 0 0 "[]"]
    by (simp add: sample_event_def UnixMilli_def in_int64_def)
qed

end
