(* ===== verification/Json.thy ===== *)
theory Json
  imports GoStrings
begin

text \<open>
  What the program uses of \<open>unicode/utf8\<close> and \<open>encoding/json\<close>: well-formed UTF-8, and the
  JSON text of lists and maps of strings, as \<open>json.Marshal\<close> writes it and \<open>json.Unmarshal\<close>
  reads it back. A byte string is UTF-8 when every rune of it is; where one is cut short, and
  only there, it stops being so.
\<close>


section \<open>UTF-8\<close>

text \<open>How many bytes a rune with this first byte has: none starts with a byte of 0.\<close>

definition lead_size :: "char \<Rightarrow> nat" where
  "lead_size c = (let n = of_char c :: nat in
     if n < 128 then 1 else if n < 194 then 0 else if n < 224 then 2 else if n < 240 then 3
     else if n < 245 then 4 else 0)"

definition continuation :: "char \<Rightarrow> bool" where
  "continuation c \<longleftrightarrow> 128 \<le> (of_char c :: nat) \<and> (of_char c :: nat) < 192"

text \<open>Neither overlong, nor a surrogate, nor past the last code point.\<close>

definition second_ok :: "char \<Rightarrow> char \<Rightarrow> bool" where
  "second_ok c d = (let n = of_char c :: nat; m = of_char d :: nat in
     (n = 224 \<longrightarrow> 160 \<le> m) \<and> (n = 237 \<longrightarrow> m < 160) \<and> (n = 240 \<longrightarrow> 144 \<le> m) \<and> (n = 244 \<longrightarrow> m < 144))"

text \<open>\<open>utf8.DecodeRuneInString\<close>: the size of the first rune, 0 when it is malformed.\<close>

fun rune_size :: "string \<Rightarrow> nat" where
  "rune_size [] = 0"
| "rune_size (c # s) =
     (let n = lead_size c in
      if n \<noteq> 0 \<and> n - 1 \<le> length s \<and> list_all continuation (take (n - 1) s) \<and> (n = 1 \<or> second_ok c (hd s))
      then n else 0)"

declare rune_size.simps(2) [simp del]

lemma rune_size_Cons:
  "n \<noteq> 0 \<Longrightarrow> rune_size (c # s) = n \<longleftrightarrow>
     lead_size c = n \<and> n - 1 \<le> length s \<and> list_all continuation (take (n - 1) s) \<and> (n = 1 \<or> second_ok c (hd s))"
  by (auto simp: rune_size.simps(2) Let_def)

lemma rune_size_le: "rune_size s \<le> length s"
proof (cases s)
  case (Cons c r)
  then show ?thesis
    using rune_size_Cons[of "rune_size s" c r] by (cases "rune_size s = 0") auto
qed simp

function utf8_ok :: "string \<Rightarrow> bool" where
  "utf8_ok s =
     (if s = [] then True else if rune_size s = 0 then False else utf8_ok (drop (rune_size s) s))"
  by pat_completeness auto
termination
proof (relation "measure length", goal_cases)
  case (2 s)
  then show ?case
    by (cases s) simp_all
qed simp

declare utf8_ok.simps [simp del]

lemma utf8_ok_Nil [simp]: "utf8_ok []"
  by (subst utf8_ok.simps) simp

lemma utf8_ok_step: "s \<noteq> [] \<Longrightarrow> utf8_ok s \<longleftrightarrow> rune_size s \<noteq> 0 \<and> utf8_ok (drop (rune_size s) s)"
  by (subst utf8_ok.simps) simp

lemma rune_size_take:
  assumes "rune_size s = n" "n \<noteq> 0"
  shows "rune_size (take n s @ t) = n"
proof (cases s)
  case (Cons c r)
  then have n: "lead_size c = n" "n - 1 \<le> length r" "list_all continuation (take (n - 1) r)" "n = 1 \<or> second_ok c (hd r)"
    using assms rune_size_Cons[of n c r] by auto
  have t: "take n s = c # take (n - 1) r"
    using Cons assms(2) by (cases n) simp_all
  have "hd (take (n - 1) r @ t) = hd r" if "n \<noteq> 1"
  proof -
    have "0 < n - 1" "r \<noteq> []"
      using that assms(2) n(2) by auto
    then show ?thesis
      by (cases "n - 1"; cases r) simp_all
  qed
  then have "n = 1 \<or> second_ok c (hd (take (n - 1) r @ t))"
    using n(4) by metis
  then show ?thesis
    using n(1-3) assms(2) by (simp add: t rune_size_Cons)
qed (use assms in simp)

lemma first_not_continuation: "rune_size (c # s) \<noteq> 0 \<Longrightarrow> \<not> continuation c"
proof -
  assume "rune_size (c # s) \<noteq> 0"
  then have "lead_size c \<noteq> 0"
    using rune_size_Cons[of "rune_size (c # s)" c s] by auto
  then show ?thesis
    by (auto simp: lead_size_def continuation_def Let_def split: if_splits)
qed

text \<open>A prefix of well-formed text is well-formed exactly when it does not end inside a rune.\<close>

lemma utf8_take:
  "utf8_ok s \<Longrightarrow> m < length s \<Longrightarrow> utf8_ok (take m s) \<longleftrightarrow> \<not> continuation (s ! m)"
proof (induction s arbitrary: m rule: utf8_ok.induct)
  case (1 s)
  obtain c r where s: "s = c # r"
    using 1(3) by (cases s) auto
  let ?n = "rune_size s"
  have n: "?n \<noteq> 0" and rest: "utf8_ok (drop ?n s)"
    using 1(2) s utf8_ok_step[of s] by auto
  have lead: "lead_size c = ?n" "list_all continuation (take (?n - 1) r)" "?n - 1 \<le> length r"
    using rune_size_Cons[OF n, of c r] s by auto
  consider "m = 0" | "0 < m" "m < ?n" | "?n \<le> m"
    by linarith
  then show ?case
  proof cases
    case 1
    then show ?thesis
      using first_not_continuation[of c r] n s by simp
  next
    case 2
    then have "(take (?n - 1) r) ! (m - 1) = s ! m" "m - 1 < length (take (?n - 1) r)"
      using s lead(3) by (simp_all add: nth_Cons')
    then have "continuation (s ! m)"
      using lead(2) by (metis list_all_length)
    moreover have "rune_size (take m s) = 0"
    proof (rule ccontr)
      assume k: "rune_size (take m s) \<noteq> 0"
      obtain m' where m': "take m s = c # take m' r" "m = Suc m'"
        using 2(1) s by (cases m) auto
      then have "rune_size (take m s) = lead_size c"
        using k rune_size_Cons[OF k, of c "take m' r"] by simp
      then show False
        using rune_size_le[of "take m s"] lead(1) 2(2) by simp
    qed
    moreover have "take m s \<noteq> []"
      using 2 s by simp
    ultimately show ?thesis
      using utf8_ok_step[of "take m s"] by simp
  next
    case 3
    have "take m s = take ?n s @ take (m - ?n) (drop ?n s)"
      using 3 by (metis le_add_diff_inverse take_add)
    then have "rune_size (take m s) = ?n"
      using rune_size_take[OF refl n] by simp
    moreover have "drop ?n (take m s) = take (m - ?n) (drop ?n s)"
      using 3 by (simp add: drop_take)
    moreover have "take m s \<noteq> []"
      using 3 n s by simp
    moreover have "utf8_ok (take (m - ?n) (drop ?n s)) \<longleftrightarrow> \<not> continuation (drop ?n s ! (m - ?n))"
      using 1(1)[of "m - ?n"] 3 n rest 1(3) s rune_size_le[of s] by simp
    ultimately show ?thesis
      using utf8_ok_step[of "take m s"] n 3 1(3) by simp
  qed
qed

text \<open>\<open>utf8.AppendRune\<close>.\<close>

definition encode_rune :: "nat \<Rightarrow> string" where
  "encode_rune n =
     (if n < 128 then [char_of n]
      else if n < 2048 then [char_of (192 + n div 64), char_of (128 + n mod 64)]
      else if n < 65536 then [char_of (224 + n div 4096), char_of (128 + n div 64 mod 64), char_of (128 + n mod 64)]
      else [char_of (240 + n div 262144), char_of (128 + n div 4096 mod 64), char_of (128 + n div 64 mod 64), char_of (128 + n mod 64)])"


section \<open>Writing JSON\<close>

definition hex_digit :: "nat \<Rightarrow> char" where
  "hex_digit d = char_of (if d < 10 then 48 + d else 87 + d)"

abbreviation backslash :: char where "backslash \<equiv> CHR 0x5C"
abbreviation quote :: char where "quote \<equiv> CHR 0x22"

text \<open>A byte of ASCII: quotes, backslashes, controls and the characters of HTML are escaped.\<close>

definition json_char :: "char \<Rightarrow> string" where
  "json_char c =
     (let n = of_char c :: nat in
      if c = quote \<or> c = backslash then [backslash, c]
      else if n = 8 then [backslash, CHR ''b'']
      else if n = 12 then [backslash, CHR ''f'']
      else if n = 10 then [backslash, CHR ''n'']
      else if n = 13 then [backslash, CHR ''r'']
      else if n = 9 then [backslash, CHR ''t'']
      else if n < 32 \<or> n = 60 \<or> n = 62 \<or> n = 38 then backslash # ''u00'' @ [hex_digit (n div 16), hex_digit (n mod 16)]
      else [c])"

text \<open>Malformed bytes become the replacement character; the two line separators are escaped.\<close>

function json_chars :: "string \<Rightarrow> string" where
  "json_chars s =
     (if s = [] then []
      else let n = rune_size s in
        if n = 0 then backslash # ''ufffd'' @ json_chars (tl s)
        else if n = 1 then json_char (hd s) @ json_chars (tl s)
        else if take n s = encode_rune 8232 then backslash # ''u2028'' @ json_chars (drop n s)
        else if take n s = encode_rune 8233 then backslash # ''u2029'' @ json_chars (drop n s)
        else take n s @ json_chars (drop n s))"
  by pat_completeness auto
termination
  by (relation "measure length") simp_all

declare json_chars.simps [simp del]

definition json_string :: "string \<Rightarrow> string" where
  "json_string s = quote # json_chars s @ [quote]"

fun comma_separated :: "string list \<Rightarrow> string" where
  "comma_separated [] = []"
| "comma_separated [x] = x"
| "comma_separated (x # y # xs) = x @ CHR '','' # comma_separated (y # xs)"

definition json_strings :: "string list \<Rightarrow> string" where
  "json_strings xs = CHR ''['' # comma_separated (map json_string xs) @ '']''"

text \<open>A map of strings, its keys sorted.\<close>

definition json_map :: "(string, string) gomap \<Rightarrow> string" where
  "json_map m = CHR ''{'' # comma_separated
     (map (\<lambda>k. json_string k @ CHR '':'' # json_string (map_get [] m k)) (sort_Strings (map fst m))) @ ''}''"


section \<open>Reading JSON\<close>

definition hex_val :: "char \<Rightarrow> nat option" where
  "hex_val c = (let n = of_char c :: nat in
     if 48 \<le> n \<and> n \<le> 57 then Some (n - 48)
     else if 97 \<le> n \<and> n \<le> 102 then Some (n - 87)
     else if 65 \<le> n \<and> n \<le> 70 then Some (n - 55)
     else None)"

fun hex4 :: "string \<Rightarrow> (nat \<times> string) option" where
  "hex4 (a # b # c # d # s) =
     (case (hex_val a, hex_val b, hex_val c, hex_val d) of
        (Some a, Some b, Some c, Some d) \<Rightarrow> Some (4096 * a + 256 * b + 16 * c + d, s)
      | _ \<Rightarrow> None)"
| "hex4 _ = None"

lemma hex4_shorter: "hex4 s = Some (n, t) \<Longrightarrow> length t < length s"
  by (cases s rule: hex4.cases) (auto split: option.splits)

text \<open>A code unit of UTF-16, with the one after it when the two are a surrogate pair.\<close>

definition json_unit :: "nat \<Rightarrow> string \<Rightarrow> nat \<times> string" where
  "json_unit n s =
     (if n < 55296 \<or> 57344 \<le> n then (n, s)
      else if take 2 s = [backslash, CHR ''u''] then
        (case hex4 (drop 2 s) of
           Some (m, t) \<Rightarrow>
             if n < 56320 \<and> 56320 \<le> m \<and> m < 57344 then (65536 + (n - 55296) * 1024 + (m - 56320), t)
             else (65533, s)
         | None \<Rightarrow> (65533, s))
      else (65533, s))"

lemma json_unit_shorter: "length (snd (json_unit n s)) \<le> length s"
  using hex4_shorter[of "drop 2 s"] by (fastforce simp: json_unit_def split: option.splits)

definition escaped :: "char \<Rightarrow> string option" where
  "escaped e =
     (if e = quote \<or> e = backslash \<or> e = CHR ''/'' then Some [e]
      else if e = CHR ''b'' then Some [char_of (8 :: nat)]
      else if e = CHR ''f'' then Some [char_of (12 :: nat)]
      else if e = CHR ''n'' then Some [char_of (10 :: nat)]
      else if e = CHR ''r'' then Some [char_of (13 :: nat)]
      else if e = CHR ''t'' then Some [char_of (9 :: nat)]
      else None)"

text \<open>The text of a string up to its closing quote, and what follows it.\<close>

function json_text :: "string \<Rightarrow> (string \<times> string) option" where
  "json_text [] = None"
| "json_text (c # s) =
     (if c = quote then Some ([], s)
      else if (of_char c :: nat) < 32 then None
      else if c = backslash then
        (case s of
           [] \<Rightarrow> None
         | e # r \<Rightarrow>
             if e = CHR ''u'' then
               (case hex4 r of
                  None \<Rightarrow> None
                | Some (n, t) \<Rightarrow> (case json_unit n t of (k, t) \<Rightarrow> map_option (apfst ((@) (encode_rune k))) (json_text t)))
             else (case escaped e of None \<Rightarrow> None | Some x \<Rightarrow> map_option (apfst ((@) x)) (json_text r)))
      else if rune_size (c # s) = 0 then map_option (apfst ((@) (encode_rune 65533))) (json_text s)
      else map_option (apfst ((@) (take (rune_size (c # s)) (c # s)))) (json_text (drop (rune_size (c # s) - 1) s)))"
  by pat_completeness auto
termination
proof (relation "measure length", goal_cases)
  case (2 c s e r x n t k t')
  then have "length t < length r" "length t' \<le> length t"
    using hex4_shorter[of r n t] json_unit_shorter[of n t] by (simp, metis snd_conv)
  then show ?case
    using 2 by simp
qed simp_all

declare json_text.simps(2) [simp del]

lemma json_text_shorter: "json_text s = Some (x, t) \<Longrightarrow> length t < length s"
proof (induction s arbitrary: x t rule: json_text.induct)
  case (2 c s)
  note IH = "2.IH" and step = "2.prems"[unfolded json_text.simps(2)]
  consider (quote) "c = quote" | (esc) e r where "c = backslash" "s = e # r"
    | (bad) "c \<noteq> quote" "c \<noteq> backslash" "\<not> (of_char c :: nat) < 32" "rune_size (c # s) = 0"
    | (rune) "c \<noteq> quote" "c \<noteq> backslash" "\<not> (of_char c :: nat) < 32" "rune_size (c # s) \<noteq> 0"
    using step by (cases s) (auto split: if_splits)
  then show ?case
  proof cases
    case quote
    then show ?thesis
      using step by auto
  next
    case esc
    show ?thesis
    proof (cases "e = CHR ''u''")
      case True
      obtain n q k q' y where u: "hex4 r = Some (n, q)" "json_unit n q = (k, q')" "json_text q' = Some (y, t)"
        using step esc True by (auto split: option.splits prod.splits)
      have "length t < length q'"
        using IH(1)[OF _ _ esc(1,2) True u(1) refl u(2)[symmetric]] u(3) esc(1) by simp
      then show ?thesis
        using hex4_shorter[OF u(1)] json_unit_shorter[of n q] u(2) esc(2) by simp
    next
      case False
      obtain y z where u: "escaped e = Some y" "json_text r = Some (z, t)"
        using step esc False by (auto split: option.splits)
      then show ?thesis
        using IH(2)[OF _ _ esc(1,2) False u(1)] esc by simp
    qed
  next
    case bad
    then show ?thesis
      using step IH(3) by fastforce
  next
    case rune
    then show ?thesis
      using step IH(4) by fastforce
  qed
qed simp

definition json_space :: "string \<Rightarrow> string" where
  "json_space s = dropWhile (\<lambda>c. of_char c \<in> {9, 10, 13, 32 :: nat}) s"

lemma json_space_le: "length (json_space s) \<le> length s"
  by (simp add: json_space_def length_dropWhile_le)

text \<open>The strings of an array, from the first quote to the closing bracket.\<close>

function json_items :: "string \<Rightarrow> (string list \<times> string) option" where
  "json_items s =
     (case json_space s of
        [] \<Rightarrow> None
      | c # r \<Rightarrow>
          if c \<noteq> quote then None
          else case json_text r of
            None \<Rightarrow> None
          | Some (x, t) \<Rightarrow>
              (case json_space t of
                 [] \<Rightarrow> None
               | d # u \<Rightarrow>
                   if d = CHR '']'' then Some ([x], u)
                   else if d = CHR '','' then map_option (apfst ((#) x)) (json_items u)
                   else None))"
  by pat_completeness auto
termination
proof (relation "measure length", goal_cases)
  case (2 s c r y x t d u)
  then have "length (c # r) \<le> length s" "length (d # u) \<le> length t"
    using json_space_le[of s] json_space_le[of t] by simp_all
  then show ?case
    using json_text_shorter[of r x t] 2 by simp
qed simp

declare json_items.simps [simp del]

text \<open>\<open>json.Unmarshal\<close> into a list of strings, of the text of an array of strings.\<close>

definition json_array :: "string \<Rightarrow> string list option" where
  "json_array s =
     (case json_space s of
        [] \<Rightarrow> None
      | c # r \<Rightarrow>
          if c \<noteq> CHR ''['' then None
          else if take 1 (json_space r) = '']'' then (if json_space (drop 1 (json_space r)) = [] then Some [] else None)
          else case json_items r of
            None \<Rightarrow> None
          | Some (xs, t) \<Rightarrow> if json_space t = [] then Some xs else None)"


text \<open>The members of an object, from the first quote to the closing brace.\<close>

function json_members :: "string \<Rightarrow> ((string \<times> string) list \<times> string) option" where
  "json_members s =
     (case json_space s of
        [] \<Rightarrow> None
      | c # r \<Rightarrow>
          if c \<noteq> quote then None
          else case json_text r of
            None \<Rightarrow> None
          | Some (k, t) \<Rightarrow>
              if take 1 (json_space t) \<noteq> '':'' \<or> take 1 (json_space (drop 1 (json_space t))) \<noteq> [quote] then None
              else case json_text (drop 1 (json_space (drop 1 (json_space t)))) of
                None \<Rightarrow> None
              | Some (v, u) \<Rightarrow>
                  (case json_space u of
                     [] \<Rightarrow> None
                   | d # w \<Rightarrow>
                       if d = CHR ''}'' then Some ([(k, v)], w)
                       else if d = CHR '','' then map_option (apfst ((#) (k, v))) (json_members w)
                       else None))"
  by pat_completeness auto
termination
proof (relation "measure length", goal_cases)
  case (2 s c r y k t z v u d w)
  then have "length (c # r) \<le> length s" "length (d # w) \<le> length u"
    using json_space_le[of s] json_space_le[of u] by simp_all
  moreover have "length t < length r" "length u < length (drop 1 (json_space (drop 1 (json_space t))))"
    using 2 json_text_shorter by blast+
  moreover have "length (drop 1 (json_space (drop 1 (json_space t)))) \<le> length t"
    using json_space_le[of "drop 1 (json_space t)"] json_space_le[of t] by simp
  ultimately show ?case by simp
qed simp

declare json_members.simps [simp del]

text \<open>\<open>json.Unmarshal\<close> into a map of strings: a later member replaces one of the same key.\<close>

definition json_object :: "string \<Rightarrow> (string, string) gomap option" where
  "json_object s =
     (case json_space s of
        [] \<Rightarrow> None
      | c # r \<Rightarrow>
          if c \<noteq> CHR ''{'' then None
          else if take 1 (json_space r) = ''}'' then (if json_space (drop 1 (json_space r)) = [] then Some [] else None)
          else case json_members r of
            None \<Rightarrow> None
          | Some (kvs, t) \<Rightarrow> if json_space t = [] then Some (fold (\<lambda>(k, v) m. map_put m k v) kvs []) else None)"


section \<open>Round trip\<close>

lemma of_char_eq: "(of_char c :: nat) = n \<Longrightarrow> c = char_of n"
  using char_of_char[of c, where ?'a = nat] by auto

lemma hex_val_digit: "d < 16 \<Longrightarrow> hex_val (hex_digit d) = Some d"
  by (auto simp: hex_val_def hex_digit_def Let_def)

lemma json_text_escape:
  "escaped e = Some x \<Longrightarrow> e \<noteq> CHR ''u'' \<Longrightarrow> json_text (backslash # e # s) = map_option (apfst ((@) x)) (json_text s)"
  by (simp add: json_text.simps(2))

lemma json_text_unit:
  "hex4 s = Some (n, t) \<Longrightarrow> n < 55296 \<or> 57344 \<le> n \<Longrightarrow>
   json_text (backslash # CHR ''u'' # s) = map_option (apfst ((@) (encode_rune n))) (json_text t)"
  by (simp add: json_text.simps(2) json_unit_def)

lemma json_text_rune:
  assumes "rune_size r = n" "1 < n"
  shows "json_text (take n r @ s) = map_option (apfst ((@) (take n r))) (json_text s)"
proof -
  obtain c q where r: "r = c # q"
    using assms by (cases r) auto
  have size: "rune_size (take n r @ s) = n"
    using rune_size_take[OF assms(1)] assms(2) by simp
  have len: "length (take n r) = n"
    using rune_size_le[of r] assms(1) by simp
  have t: "take n r = c # take (n - 1) q"
    using assms(2) r by (cases n) simp_all
  have "128 \<le> (of_char c :: nat)"
  proof (rule ccontr)
    assume "\<not> 128 \<le> (of_char c :: nat)"
    then have "lead_size c = 1"
      by (simp add: lead_size_def)
    then show False
      using rune_size_Cons[of n c q] assms r by simp
  qed
  then have c: "c \<noteq> quote" "c \<noteq> backslash" "\<not> (of_char c :: nat) < 32"
    by auto
  have "drop (n - 1) (take (n - 1) q @ s) = s"
    using len t by simp
  moreover have "take n (c # take (n - 1) q @ s) = c # take (n - 1) q"
    using len t by (metis append_Cons append_eq_conv_conj)
  ultimately show ?thesis
    using size c assms(2) unfolding t by (simp add: json_text.simps(2))
qed

lemma json_text_char:
  assumes "(of_char c :: nat) < 128"
  shows "json_text (json_char c @ s) = map_option (apfst ((#) c)) (json_text s)"
proof -
  let ?n = "of_char c :: nat"
  have single: "(@) [x] = (#) x" for x :: char
    by auto
  have size: "rune_size (c # r) = 1" for r
    using assms by (simp add: rune_size.simps(2) lead_size_def)
  consider "c = quote \<or> c = backslash" | "?n \<in> {8, 9, 10, 12, 13}"
    | (hex) "c \<noteq> quote" "c \<noteq> backslash" "?n \<notin> {8, 9, 10, 12, 13}" "?n < 32 \<or> ?n = 60 \<or> ?n = 62 \<or> ?n = 38"
    | (plain) "c \<noteq> quote" "c \<noteq> backslash" "\<not> ?n < 32" "?n \<noteq> 60" "?n \<noteq> 62" "?n \<noteq> 38"
    by blast
  then show ?thesis
  proof cases
    case 1
    then show ?thesis
      by (auto simp: json_char_def json_text_escape escaped_def single)
  next
    case 2
    then show ?thesis
      by (auto dest!: of_char_eq simp: json_char_def json_text_escape escaped_def single)
  next
    case hex
    then have c: "json_char c = backslash # ''u00'' @ [hex_digit (?n div 16), hex_digit (?n mod 16)]"
      by (auto simp: json_char_def Let_def)
    have "hex4 (''00'' @ [hex_digit (?n div 16), hex_digit (?n mod 16)] @ s) = Some (?n, s)"
      using assms by (simp add: hex_val_digit) (simp add: hex_val_def)
    then show ?thesis
      using assms by (simp add: c json_text_unit encode_rune_def single)
  next
    case plain
    then have "json_char c = [c]"
      by (auto simp: json_char_def Let_def)
    then show ?thesis
      using plain size[of s] by (simp add: json_text.simps(2) single)
  qed
qed

lemma json_chars_text:
  "utf8_ok s \<Longrightarrow> json_text (json_chars s @ quote # t) = Some (s, t)"
proof (induction s rule: json_chars.induct)
  case (1 s)
  show ?case
  proof (cases "s = []")
    case True
    then show ?thesis
      by (subst json_chars.simps) (simp add: json_text.simps(2))
  next
    case False
    let ?n = "rune_size s"
    have n: "?n \<noteq> 0" and rest: "utf8_ok (drop ?n s)"
      using 1(6) False utf8_ok_step by auto
    show ?thesis
    proof (cases "?n = 1")
      case True
      obtain c r where s: "s = c # r"
        using False by (cases s) auto
      have "lead_size c = 1"
        using True s rune_size_Cons[of 1 c r] by simp
      then have c: "(of_char c :: nat) < 128"
        by (auto simp: lead_size_def Let_def split: if_splits)
      have "json_chars s = json_char c @ json_chars r"
        using True s by (subst json_chars.simps) simp
      then show ?thesis
        using 1(2)[OF False refl n True] rest True s by (simp add: json_text_char[OF c])
    next
      case False
      then have big: "1 < ?n"
        using n by simp
      have IH: "json_text (json_chars (drop ?n s) @ quote # t) = Some (drop ?n s, t)"
        using 1(3-5)[OF \<open>s \<noteq> []\<close> refl n False] rest by blast
      have step: "json_chars s =
          (if take ?n s = encode_rune 8232 then backslash # ''u2028''
           else if take ?n s = encode_rune 8233 then backslash # ''u2029'' else take ?n s) @ json_chars (drop ?n s)"
        using n False \<open>s \<noteq> []\<close> by (subst json_chars.simps) (simp add: Let_def)
      have "hex4 (''2028'' @ r) = Some (8232, r)" "hex4 (''2029'' @ r) = Some (8233, r)" for r
        by (simp_all add: hex_val_def)
      then have "json_text (json_chars s @ quote # t) = map_option (apfst ((@) (take ?n s))) (json_text (json_chars (drop ?n s) @ quote # t))"
        using json_text_rune[OF refl big] by (auto simp: step json_text_unit)
      then show ?thesis
        by (simp add: IH)
    qed
  qed
qed

lemma json_space_quote [simp]: "json_space (quote # s) = quote # s"
  by (simp add: json_space_def)

lemma json_items_strings:
  "xs \<noteq> [] \<Longrightarrow> list_all utf8_ok xs \<Longrightarrow> json_items (comma_separated (map json_string xs) @ CHR '']'' # t) = Some (xs, t)"
proof (induction xs rule: induct_list012)
  case (2 x)
  then show ?case
    by (subst json_items.simps) (simp add: json_string_def json_chars_text json_space_def)
next
  case (3 x y zs)
  then show ?case
    by (subst json_items.simps) (simp add: json_string_def[of x] json_chars_text json_space_def[of "_ # _"])
qed simp

lemma json_array_strings:
  assumes "list_all utf8_ok xs"
  shows "json_array (json_strings xs) = Some xs"
proof (cases xs)
  case Nil
  then show ?thesis
    by (simp add: json_array_def json_strings_def json_space_def)
next
  case (Cons x ys)
  obtain r where r: "comma_separated (map json_string xs) @ '']'' = quote # r"
    by (cases ys) (simp_all add: Cons json_string_def)
  have "json_items (quote # r) = Some (xs, [])"
    using json_items_strings[of xs "[]"] assms Cons unfolding r by simp
  then show ?thesis
    unfolding json_strings_def r by (simp add: json_array_def json_space_def)
qed

end
