(* ===== verification/MysqlWrite.thy ===== *)
theory MysqlWrite
  imports Writer GoTime Json
begin

text \<open>
  The write side of package \<open>storage/mysql\<close> (\<open>storage.go\<close>): statements and their arguments,
  chunks and transactions, the rollup, and the decisions of the maintenance. The database is a
  parameter: a statement is its text with its arguments, and what the database does with it is
  an argument of the definitions.
\<close>


section \<open>Statements\<close>

text \<open>The values handed to the driver.\<close>

datatype sqlarg = ArgTime Time | ArgStr string | ArgInt int | ArgNull

type_synonym statement = "string \<times> sqlarg list"

definition maxOutput :: nat where "maxOutput = 4096"
definition insertChunk :: nat where "insertChunk = 500"
definition upsertChunk_size :: nat where "upsertChunk_size = 200"
definition insertColCount :: nat where "insertColCount = 27"

definition insertCols :: string where
  "insertCols = ''time, dc, kind, consul_index, node_name, node_ip, old_node_status, new_node_status, '' @
     ''service_name, service_id, team, app, version, tags, old_service_status, new_service_status, old_healthy, new_healthy, total_instances, '' @
     ''check_id, check_name, check_type, old_check_status, new_check_status, old_status, new_status, check_output''"

text \<open>A group in parentheses per row, separated by commas: what the loops write.\<close>

definition value_groups :: "string \<Rightarrow> nat \<Rightarrow> string" where
  "value_groups g n = concat (map (\<lambda>i. (if 0 < i then '','' else []) @ g) [0..<n])"


subsection \<open>JSON columns\<close>

definition tagsJSON :: "string list \<Rightarrow> string" where
  "tagsJSON tags = (if length tags = 0 then ''[]'' else json_strings tags)"

definition jsonOrNull_strings :: "string list \<Rightarrow> sqlarg" where
  "jsonOrNull_strings x = (if length x = 0 then ArgNull else ArgStr (json_strings x))"

definition jsonOrNull_map :: "(string, string) gomap \<Rightarrow> sqlarg" where
  "jsonOrNull_map x = (if length x = 0 then ArgNull else ArgStr (json_map x))"


subsection \<open>The chunk of events\<close>

definition truncate_output :: "string \<Rightarrow> string" where
  "truncate_output output = (if length output > maxOutput then take maxOutput output else output)"

definition event_args :: "Event \<Rightarrow> sqlarg list" where
  "event_args e =
     [ArgTime (ev_Time e), ArgStr (ev_Datacenter e), ArgInt (sint (ev_Kind e)), ArgInt (uint (ev_ConsulIndex e)),
      ArgStr (ev_NodeName e), ArgStr (ev_NodeIP e), ArgInt (sint (ev_OldNodeStatus e)), ArgInt (sint (ev_NewNodeStatus e)),
      ArgStr (ev_ServiceName e), ArgStr (ev_ServiceID e), ArgStr (ev_Team e), ArgStr (ev_App e), ArgStr (ev_Version e),
      ArgStr (tagsJSON (ev_Tags e)), ArgInt (sint (ev_OldServiceStatus e)), ArgInt (sint (ev_NewServiceStatus e)),
      ArgInt (ev_OldHealthy e), ArgInt (ev_NewHealthy e), ArgInt (ev_TotalInstances e),
      ArgStr (ev_CheckID e), ArgStr (ev_CheckName e), ArgStr (ev_CheckType e), ArgInt (sint (ev_OldCheckStatus e)),
      ArgInt (sint (ev_NewCheckStatus e)), ArgInt (sint (OldStatus e)), ArgInt (sint (NewStatus e)),
      ArgStr (truncate_output (ev_CheckOutput e))]"

definition insert_events :: "Event list \<Rightarrow> statement" where
  "insert_events events =
     (''INSERT INTO events_v2 ('' @ insertCols @ '') VALUES '' @
        value_groups ''(?,?,?,?,?,?,?,?,?,?,?,?,?,?,?,?,?,?,?,?,?,?,?,?,?,?,?)'' (length events),
      concat (map event_args events))"

type_synonym rollupKey = "string \<times> Time \<times> Kind \<times> Status"

text \<open>\<open>t.Truncate(d)\<close>: down to a multiple of \<open>d\<close> since the zero time.\<close>

definition time_truncate :: "Time \<Rightarrow> Duration \<Rightarrow> Time" where
  "time_truncate t d = t - (t - zero_time) mod d"

definition rollup_key :: "Event \<Rightarrow> rollupKey" where
  "rollup_key e = (ev_Datacenter e, time_truncate (ev_Time e) Minute, ev_Kind e, NewStatus e)"

definition rollup_of :: "Event list \<Rightarrow> (rollupKey, int) gomap" where
  "rollup_of events = fold (\<lambda>e m. map_incr m (rollup_key e)) events []"

definition rollup_args :: "rollupKey \<times> int \<Rightarrow> sqlarg list" where
  "rollup_args = (\<lambda>((dc, minute, kind, status), n).
     [ArgStr dc, ArgTime minute, ArgInt (sint kind), ArgInt (sint status), ArgInt n])"

definition insert_rollup :: "(rollupKey, int) gomap \<Rightarrow> statement" where
  "insert_rollup rollup =
     (''INSERT INTO events_rollup (dc, minute, kind, new_status, n) VALUES '' @
        value_groups ''(?,?,?,?,?)'' (length rollup) @ '' ON DUPLICATE KEY UPDATE n = n + VALUES(n)'',
      concat (map rollup_args rollup))"

text \<open>
  The transaction runs its statements and commits, or fails and is rolled back; the map is
  visited in the order \<open>ord\<close>.
\<close>

definition storeChunk ::
    "((rollupKey, int) gomap \<Rightarrow> (rollupKey, int) gomap) \<Rightarrow> (statement list \<Rightarrow> 'db \<Rightarrow> bool \<times> 'db) \<Rightarrow>
     Event list \<Rightarrow> 'db \<Rightarrow> bool \<times> 'db" where
  "storeChunk ord tx events db = tx [insert_events events, insert_rollup (ord (rollup_of events))] db"

text \<open>The loop over chunks: it stops at the first that fails.\<close>

function each_chunk :: "nat \<Rightarrow> ('a list \<Rightarrow> 'db \<Rightarrow> bool \<times> 'db) \<Rightarrow> 'a list \<Rightarrow> 'db \<Rightarrow> bool \<times> 'db" where
  "each_chunk n store xs db =
     (if xs = [] \<or> n = 0 then (True, db)
      else case store (take n xs) db of (ok, db') \<Rightarrow>
        if \<not> ok then (False, db') else each_chunk n store (drop n xs) db')"
  by pat_completeness auto
termination
  by (relation "measure (\<lambda>(n, store, xs, db). length xs)") auto

declare each_chunk.simps [simp del]

definition Mysql_StoreEvents ::
    "((rollupKey, int) gomap \<Rightarrow> (rollupKey, int) gomap) \<Rightarrow> (statement list \<Rightarrow> 'db \<Rightarrow> bool \<times> 'db) \<Rightarrow>
     Event list \<Rightarrow> 'db \<Rightarrow> bool \<times> 'db" where
  "Mysql_StoreEvents ord tx events db = each_chunk insertChunk (storeChunk ord tx) events db"


subsection \<open>The chunk of instances\<close>

definition instance_args :: "Instance \<Rightarrow> sqlarg list" where
  "instance_args i =
     [ArgStr (in_Datacenter i), ArgStr (in_NodeName i), ArgStr (in_ServiceID i), ArgStr (in_ServiceName i),
      ArgStr (in_NodeIP i), ArgStr (in_Address i), ArgInt (in_Port i), ArgStr (in_Team i), ArgStr (in_App i),
      ArgStr (in_Version i), jsonOrNull_strings (in_Tags i), jsonOrNull_map (in_Meta i), jsonOrNull_map (in_NodeMeta i),
      ArgTime (in_FirstSeen i), ArgTime (in_LastSeen i)]"

definition upsert_instances :: "Instance list \<Rightarrow> statement" where
  "upsert_instances instances =
     (''INSERT INTO instances (dc, node_name, service_id, service_name, node_ip, address, port, team, app, version, tags, meta, node_meta, first_seen, last_seen) VALUES '' @
        value_groups ''(?,?,?,?,?,?,?,?,?,?,?,?,?,?,?)'' (length instances) @
        '' ON DUPLICATE KEY UPDATE service_name = VALUES(service_name), node_ip = VALUES(node_ip), address = VALUES(address), '' @
        ''port = VALUES(port), team = VALUES(team), app = VALUES(app), version = VALUES(version), '' @
        ''tags = VALUES(tags), meta = VALUES(meta), node_meta = VALUES(node_meta), last_seen = VALUES(last_seen)'',
      concat (map instance_args instances))"

definition upsertChunk :: "(statement \<Rightarrow> 'db \<Rightarrow> bool \<times> 'db) \<Rightarrow> Instance list \<Rightarrow> 'db \<Rightarrow> bool \<times> 'db" where
  "upsertChunk exec instances db = exec (upsert_instances instances) db"

definition Mysql_UpsertInstances ::
    "(statement \<Rightarrow> 'db \<Rightarrow> bool \<times> 'db) \<Rightarrow> Instance list \<Rightarrow> 'db \<Rightarrow> bool \<times> 'db" where
  "Mysql_UpsertInstances exec instances db = each_chunk upsertChunk_size (upsertChunk exec) instances db"


section \<open>Maintenance\<close>

text \<open>
  A day is its number since the epoch, at midnight UTC. Partition names print it and read it
  back; \<open>time.Parse\<close> asks for eight digits that are a date.
\<close>

definition partitionName :: "int \<Rightarrow> string" where
  "partitionName day = (case days_date (nat (day + epoch_days)) of (y, m, d) \<Rightarrow> CHR ''p'' # four y @ two m @ two d)"

definition partitionDay :: "string \<Rightarrow> int option" where
  "partitionDay name = do {
     s \<leftarrow> skip (CHR ''p'') name;
     (y, s) \<leftarrow> get_year s;
     (m, s) \<leftarrow> getnum True s;
     (d, s) \<leftarrow> getnum True s;
     if s \<noteq> [] \<or> m < 1 \<or> 12 < m \<or> d < 1 \<or> daysIn m y < d then None
     else Some (int (date_days y m d) - epoch_days)
   }"

text \<open>The zero value of a time, in days.\<close>

definition zero_day :: int where
  "zero_day = -719162"

definition latest_day :: "string list \<Rightarrow> int" where
  "latest_day names = fold (\<lambda>n latest. case partitionDay n of
     Some d \<Rightarrow> if d > latest then d else latest | None \<Rightarrow> latest) names zero_day"

definition date_text :: "int \<Rightarrow> string" where
  "date_text day = (case days_date (nat (day + epoch_days)) of (y, m, d) \<Rightarrow> four y @ ''-'' @ two m @ ''-'' @ two d)"

definition create_partition :: "int \<Rightarrow> string" where
  "create_partition day =
     ''ALTER TABLE events_v2 REORGANIZE PARTITION p_max INTO (PARTITION '' @ partitionName day @
     '' VALUES LESS THAN (TO_DAYS('' @ [CHR 0x27] @ date_text (day + 1) @ [CHR 0x27] @
     '')), PARTITION p_max VALUES LESS THAN MAXVALUE)''"

datatype maintain_error = NoCatchAll | CreateFailed int | DropFailed string | DeleteFailed

text \<open>
  The partitions it creates, in order, and the error that stopped it: \<open>exec\<close> says whether a
  statement succeeds.
\<close>

fun ensure_days :: "(string \<Rightarrow> bool) \<Rightarrow> string list \<Rightarrow> int list \<Rightarrow> int \<Rightarrow> int list \<times> maintain_error option" where
  "ensure_days exec existing [] latest = ([], None)"
| "ensure_days exec existing (day # days) latest =
     (if partitionName day \<in> set existing \<or> \<not> day > latest then ensure_days exec existing days latest
      else if \<not> exec (create_partition day) then ([], Some (CreateFailed day))
      else case ensure_days exec existing days day of (created, err) \<Rightarrow> (day # created, err))"

definition ensurePartitions :: "(string \<Rightarrow> bool) \<Rightarrow> string list \<Rightarrow> int \<Rightarrow> int list \<times> maintain_error option" where
  "ensurePartitions exec existing today =
     (if ''p_max'' \<notin> set existing then ([], Some NoCatchAll)
      else ensure_days exec existing [today - 1, today, today + 1] (latest_day existing))"

text \<open>The partitions it drops, in the order of the map.\<close>

fun drop_days :: "(string \<Rightarrow> bool) \<Rightarrow> int \<Rightarrow> string list \<Rightarrow> string list \<times> maintain_error option" where
  "drop_days exec cutoff [] = ([], None)"
| "drop_days exec cutoff (n # names) =
     (case partitionDay n of
        None \<Rightarrow> drop_days exec cutoff names
      | Some day \<Rightarrow>
          if day + 1 > cutoff then drop_days exec cutoff names
          else if \<not> exec (''ALTER TABLE events_v2 DROP PARTITION '' @ n) then ([], Some (DropFailed n))
          else case drop_days exec cutoff names of (dropped, err) \<Rightarrow> (n # dropped, err))"

definition dropExpiredPartitions :: "(string \<Rightarrow> bool) \<Rightarrow> string list \<Rightarrow> int \<Rightarrow> string list \<times> maintain_error option" where
  "dropExpiredPartitions exec existing cutoff = drop_days exec cutoff existing"

text \<open>At most twenty rounds; each affects some rows or fails.\<close>

fun delete_rounds :: "nat \<Rightarrow> ('db \<Rightarrow> nat option \<times> 'db) \<Rightarrow> 'db \<Rightarrow> bool \<times> 'db" where
  "delete_rounds 0 exec db = (True, db)"
| "delete_rounds (Suc i) exec db =
     (case exec db of (None, db') \<Rightarrow> (False, db')
      | (Some n, db') \<Rightarrow> if n = 0 then (True, db') else delete_rounds i exec db')"

definition deleteBatches :: "('db \<Rightarrow> nat option \<times> 'db) \<Rightarrow> 'db \<Rightarrow> bool \<times> 'db" where
  "deleteBatches exec db = delete_rounds 20 exec db"


text \<open>
  One run: the named lock (or the error of asking for it), the partitions listed before each
  of the two partition steps (or the error), the statements, and the two deletes.
\<close>

record MaintainEnv =
  mt_lock :: "bool option"
  mt_listed :: "string list option"
  mt_listed_again :: "string list option"
  mt_exec :: "string \<Rightarrow> bool"
  mt_deletes :: "bool \<times> bool"

record MaintainRun =
  mn_created :: "int list"
  mn_dropped :: "string list"
  mn_errors :: nat

definition Mysql_Maintain :: "Time \<Rightarrow> int \<Rightarrow> MaintainEnv \<Rightarrow> MaintainRun" where
  "Mysql_Maintain now retention env =
     (case mt_lock env of
        None \<Rightarrow> \<lparr> mn_created = [], mn_dropped = [], mn_errors = 1 \<rparr>
      | Some False \<Rightarrow> \<lparr> mn_created = [], mn_dropped = [], mn_errors = 0 \<rparr>
      | Some True \<Rightarrow>
          (let today = (time_truncate now (24 * Hour)) div (24 * Hour);
               cutoff = today - retention;
               (created, err1) = (case mt_listed env of None \<Rightarrow> ([], True)
                 | Some existing \<Rightarrow> map_prod (\<lambda>c. c) (\<lambda>e. e \<noteq> None) (ensurePartitions (mt_exec env) existing today));
               (dropped, err2) = (case mt_listed_again env of None \<Rightarrow> ([], True)
                 | Some existing \<Rightarrow> map_prod (\<lambda>c. c) (\<lambda>e. e \<noteq> None) (dropExpiredPartitions (mt_exec env) existing cutoff))
           in \<lparr> mn_created = created, mn_dropped = dropped,
                mn_errors = length (filter (\<lambda>e. e) [err1, err2, \<not> fst (mt_deletes env), \<not> snd (mt_deletes env)]) \<rparr>))"


section \<open>What the statements do\<close>

text \<open>
  What the writes rely on: a committed transaction has added the rows of the events and added
  each count of the rollup to its row; a failed one has changed nothing.
\<close>

locale events_db =
  fixes tx :: "statement list \<Rightarrow> 'db \<Rightarrow> bool \<times> 'db"
    and rows :: "'db \<Rightarrow> sqlarg list list"
    and rolled :: "'db \<Rightarrow> rollupKey \<Rightarrow> int"
  assumes commit_rows: "tx [insert_events evs, insert_rollup r] db = (True, db') \<Longrightarrow> rows db' = rows db @ map event_args evs"
    and commit_rolled: "tx [insert_events evs, insert_rollup r] db = (True, db') \<Longrightarrow> gomap_ok r \<Longrightarrow>
      rolled db' k = rolled db k + map_get 0 r k"
    and rollback: "tx stmts db = (False, db') \<Longrightarrow> rows db' = rows db \<and> rolled db' = rolled db"

definition rollup_count :: "Event list \<Rightarrow> rollupKey \<Rightarrow> int" where
  "rollup_count events k = int (length (filter (\<lambda>e. rollup_key e = k) events))"

lemma rollup_count_append [simp]: "rollup_count (xs @ ys) k = rollup_count xs k + rollup_count ys k"
  by (simp add: rollup_count_def)

lemma rollup_of_count: "map_get 0 (rollup_of events) k = rollup_count events k" and rollup_of_ok: "gomap_ok (rollup_of events)"
proof -
  have f: "fold (\<lambda>e m. map_incr m (rollup_key e)) events m = fold (\<lambda>k m. map_incr m k) (map rollup_key events) m" for m
    by (induction events arbitrary: m) simp_all
  show "map_get 0 (rollup_of events) k = rollup_count events k"
    unfolding rollup_of_def f map_get_count
    by (simp add: rollup_count_def count_list_eq_length_filter filter_map comp_def eq_commute)
  show "gomap_ok (rollup_of events)"
    unfolding rollup_of_def f by (rule gomap_ok_count) simp
qed

lemma each_chunk_step:
  "each_chunk n store xs db = (if xs = [] \<or> n = 0 then (True, db)
     else case store (take n xs) db of (ok, db') \<Rightarrow> if \<not> ok then (False, db') else each_chunk n store (drop n xs) db')"
  by (rule each_chunk.simps)

context events_db
begin

lemma chunk_stored:
  assumes "\<And>m. mset (ord m) = mset m" "storeChunk ord tx events db = (ok, db')"
  shows "rows db' = rows db @ map event_args (if ok then events else []) \<and>
    rolled db' k = rolled db k + rollup_count (if ok then events else []) k"
proof (cases ok)
  case True
  have r: "gomap_ok (ord (rollup_of events))" "map_get 0 (ord (rollup_of events)) k = rollup_count events k"
    using gomap_perm_lookup(1)[OF rollup_of_ok assms(1)] map_get_perm[OF rollup_of_ok assms(1)] rollup_of_count
    by simp_all
  have c: "tx [insert_events events, insert_rollup (ord (rollup_of events))] db = (True, db')"
    using assms(2) True by (simp add: storeChunk_def)
  show ?thesis
    using commit_rows[OF c] commit_rolled[OF c r(1), of k] r(2) True by simp
next
  case False
  then have "rows db' = rows db \<and> rolled db' = rolled db"
    using rollback assms(2) by (simp add: storeChunk_def)
  then show ?thesis
    using False by (simp add: rollup_count_def)
qed

lemma chunks_stored:
  assumes "\<And>m. mset (ord m) = mset m"
  shows "0 < n \<Longrightarrow> each_chunk n (storeChunk ord tx) events db = (ok, db') \<Longrightarrow>
    \<exists>j. (if ok then length events \<le> j * n else j * n < length events) \<and>
      rows db' = rows db @ map event_args (take (j * n) events) \<and>
      (\<forall>k. rolled db' k = rolled db k + rollup_count (take (j * n) events) k)"
proof (induction n "storeChunk ord tx" events db rule: each_chunk.induct)
  case (1 n xs db)
  show ?case
  proof (cases "xs = []")
    case True
    then show ?thesis
      using 1(3) by (intro exI[of _ 0]) (simp add: each_chunk_step[of n _ "[]" db] rollup_count_def)
  next
    case False
    obtain ok1 db1 where c: "storeChunk ord tx (take n xs) db = (ok1, db1)"
      by (metis surj_pair)
    have first: "rows db1 = rows db @ map event_args (if ok1 then take n xs else [])"
      "rolled db1 k = rolled db k + rollup_count (if ok1 then take n xs else []) k" for k
      using chunk_stored[OF assms(1) c] by blast+
    show ?thesis
    proof (cases ok1)
      case True
      then have "each_chunk n (storeChunk ord tx) (drop n xs) db1 = (ok, db')"
        using 1(2,3) False c by (simp add: each_chunk_step[of n _ xs db])
      then obtain j where j: "if ok then length (drop n xs) \<le> j * n else j * n < length (drop n xs)"
        "rows db' = rows db1 @ map event_args (take (j * n) (drop n xs))"
        "\<And>k. rolled db' k = rolled db1 k + rollup_count (take (j * n) (drop n xs)) k"
        using 1(1)[OF _ c[symmetric]] False 1(2) True by auto
      have "take (Suc j * n) xs = take n xs @ take (j * n) (drop n xs)"
        by (simp add: take_add)
      then show ?thesis
        using j first True by (intro exI[of _ "Suc j"]) (auto split: if_splits)
    next
      case False
      then show ?thesis
        using 1(2,3) \<open>xs \<noteq> []\<close> c first
        by (intro exI[of _ 0]) (simp add: each_chunk_step[of n _ xs db] rollup_count_def)
    qed
  qed
qed

end


section \<open>A database in memory\<close>

text \<open>
  One provider of the contract, which reads the arguments in groups; the transactions fail as
  its first component says.
\<close>

function groups :: "nat \<Rightarrow> 'a list \<Rightarrow> 'a list list" where
  "groups n xs = (if xs = [] \<or> n = 0 then [] else take n xs # groups n (drop n xs))"
  by pat_completeness auto
termination
  by (relation "measure (\<lambda>(n, xs). length xs)") auto

declare groups.simps [simp del]

lemma groups_concat: "(\<And>y. y \<in> set ys \<Longrightarrow> length y = n) \<Longrightarrow> 0 < n \<Longrightarrow> groups n (concat ys) = ys"
proof (induction ys)
  case (Cons y ys)
  then have "y \<noteq> []"
    by auto
  then show ?case
    using Cons by (subst groups.simps) simp
qed (simp add: groups.simps)

type_synonym list_db = "bool list \<times> sqlarg list list \<times> (rollupKey \<Rightarrow> int)"

fun add_group :: "sqlarg list \<Rightarrow> (rollupKey \<Rightarrow> int) \<Rightarrow> rollupKey \<Rightarrow> int" where
  "add_group [ArgStr dc, ArgTime minute, ArgInt kind, ArgInt status, ArgInt n] f =
     (let k = (dc, minute, word_of_int kind, word_of_int status) in f(k := f k + n))"
| "add_group _ f = f"

fun list_tx :: "statement list \<Rightarrow> list_db \<Rightarrow> bool \<times> list_db" where
  "list_tx [(_, as), (_, bs)] (fs, rs, f) =
     (if fs \<noteq> [] \<and> hd fs then (False, (tl fs, rs, f))
      else (True, (tl fs, rs @ groups insertColCount as, fold add_group (groups 5 bs) f)))"
| "list_tx _ db = (False, db)"

lemma length_event_args [simp]: "length (event_args e) = insertColCount"
  by (simp add: event_args_def insertColCount_def)

lemma length_rollup_args [simp]: "length (rollup_args r) = 5"
  by (simp add: rollup_args_def split: prod.splits)

lemma fold_add_groups:
  "gomap_ok r \<Longrightarrow> fold add_group (map rollup_args r) f k = f k + map_get 0 r k"
proof (induction r arbitrary: f)
  case (Cons x r)
  obtain dc minute kind status n where x: "x = ((dc, minute, kind, status), n)"
    by (metis prod_cases5 surj_pair)
  have "(dc, minute, kind, status) \<notin> fst ` set r" "gomap_ok r"
    using Cons.prems by (simp_all add: gomap_ok_def x)
  then have "map_get 0 r (dc, minute, kind, status) = 0"
    by (simp add: map_get_def map_of_eq_None_iff[THEN iffD2])
  then show ?case
    using Cons.IH[OF \<open>gomap_ok r\<close>] by (auto simp: x rollup_args_def Let_def map_get_def)
qed simp

interpretation ldb: events_db list_tx "\<lambda>db. fst (snd db)" "\<lambda>db. snd (snd db)"
proof unfold_locales
  fix evs r and db db' :: list_db
  assume tx: "list_tx [insert_events evs, insert_rollup r] db = (True, db')"
  obtain fs rs f where db: "db = (fs, rs, f)"
    by (metis prod_cases3)
  have db': "db' = (tl fs, rs @ groups insertColCount (concat (map event_args evs)), fold add_group (groups 5 (concat (map rollup_args r))) f)"
    using tx by (auto simp: db insert_events_def insert_rollup_def split: if_splits)
  show "fst (snd db') = fst (snd db) @ map event_args evs"
    by (simp add: db db' groups_concat insertColCount_def[symmetric]) (auto simp: insertColCount_def intro!: groups_concat)
  show "gomap_ok r \<Longrightarrow> snd (snd db') k = snd (snd db) k + map_get 0 r k" for k
    by (subst db', subst groups_concat) (auto simp: db fold_add_groups)
next
  show "list_tx stmts db = (False, db') \<Longrightarrow> fst (snd db') = fst (snd db) \<and> snd (snd db') = snd (snd db)" for stmts and db db' :: list_db
    by (cases "(stmts, db)" rule: list_tx.cases) (auto split: if_splits)
qed


section \<open>Placeholders\<close>

definition marks :: "string \<Rightarrow> nat" where
  "marks s = length (filter (\<lambda>c. c = CHR ''?'') s)"

lemma marks_simps [simp]:
  "marks [] = 0" "marks (c # s) = (if c = CHR ''?'' then 1 else 0) + marks s" "marks (s @ t) = marks s + marks t"
  by (simp_all add: marks_def)

lemma marks_groups: "marks (value_groups g n) = n * marks g"
  by (induction n) (simp_all add: value_groups_def)

lemma length_concat_const: "(\<And>x. x \<in> set xs \<Longrightarrow> length (f x) = n) \<Longrightarrow> length (concat (map f xs)) = length xs * n"
  by (induction xs) simp_all


section \<open>Partitions\<close>

lemma partition_roundtrip:
  assumes "0 \<le> day + epoch_days" "day + epoch_days < int (year_start 10000)"
  shows "partitionDay (partitionName day) = Some day"
proof -
  obtain y m d where ymd: "days_date (nat (day + epoch_days)) = (y, m, d)"
    by (metis prod_cases3)
  have y: "y < 10000"
    using year_bound[OF ymd] assms by linarith
  note md = days_date_sound[OF ymd]
  have "daysIn m y \<le> 31"
    using md(2,3) by (auto simp: daysIn_def le_Suc_eq numeral_eq_Suc)
  moreover have "int (date_days y m d) - epoch_days = day"
    using md(1) assms(1) by simp
  ultimately show ?thesis
    using y md(2-5) getnum_two[of d True "[]"] by (simp add: partitionName_def partitionDay_def ymd)
qed

lemma partitionDay_p_max [simp]: "partitionDay ''p_max'' = None"
  by (simp add: partitionDay_def skip_def get_year_def is_digit_def)

lemma latest_day_spec:
  "(\<forall>n \<in> set names. \<forall>d. partitionDay n = Some d \<longrightarrow> d \<le> latest_day names) \<and>
   (latest_day names = zero_day \<or> (\<exists>n \<in> set names. partitionDay n = Some (latest_day names))) \<and>
   zero_day \<le> latest_day names"
proof (induction names rule: rev_induct)
  case (snoc n names)
  have "latest_day (names @ [n]) = (case partitionDay n of Some d \<Rightarrow> max d (latest_day names) | None \<Rightarrow> latest_day names)"
    by (auto simp: latest_day_def split: option.splits)
  then show ?case
    using snoc by (cases "partitionDay n") (auto simp: max_def)
qed (simp add: latest_day_def)

lemma ensure_days_spec:
  "ensure_days exec existing days latest = (created, err) \<Longrightarrow>
   sorted_wrt (<) (latest # created) \<and> set created \<subseteq> set days \<and>
   (err = None \<longrightarrow> (\<forall>d \<in> set days. partitionName d \<in> set existing \<or> d \<le> latest \<or> (\<exists>c \<in> set created. d \<le> c)))"
proof (induction exec existing days latest arbitrary: created err rule: ensure_days.induct)
  case (2 exec existing day days latest)
  then show ?case
    by (fastforce split: if_splits prod.splits)
qed simp

lemma drop_days_spec:
  "drop_days exec cutoff names = (dropped, err) \<Longrightarrow>
   set dropped \<subseteq> {n \<in> set names. \<exists>d. partitionDay n = Some d \<and> d + 1 \<le> cutoff} \<and>
   (err = None \<longrightarrow> set dropped = {n \<in> set names. \<exists>d. partitionDay n = Some d \<and> d + 1 \<le> cutoff})"
proof (induction exec cutoff names arbitrary: dropped err rule: drop_days.induct)
  case (2 exec cutoff n names)
  show ?case
  proof (cases "partitionDay n")
    case None
    then show ?thesis
      using 2 by auto
  next
    case (Some d)
    show ?thesis
    proof (cases "d + 1 > cutoff")
      case True
      then have "drop_days exec cutoff names = (dropped, err)"
        using "2.prems" Some by simp
      then show ?thesis
        using "2.IH"(2)[OF Some True] Some True by auto
    next
      case False
      then show ?thesis
        using "2.IH"(3)[OF Some] "2.prems" Some by (auto split: if_splits prod.splits)
    qed
  qed
qed simp

lemma today_days: "time_truncate now (24 * Hour) div (24 * Hour) = now div (24 * Hour)"
proof -
  have "(now - zero_time) mod (24 * Hour) = now mod (24 * Hour)"
    using mod_mult_self2[of now "24 * Hour" 719162] by (simp add: zero_time_def)
  then show ?thesis
    by (simp add: time_truncate_def minus_mod_eq_mult_div)
qed


section \<open>Properties\<close>


text \<open>
  C39: A batch of more than one chunk that fails after its first chunk is stored twice in part:
  the retry of the writer starts over, so the rows of the first chunk, committed by the first
  attempt, are there again, and the rollup counts them twice.
\<close>

theorem mysql_retry_duplicates:
  assumes "events_db tx rows rolled" "\<And>m. mset (ord m) = mset m" "500 < length batch"
    and "storeChunk ord tx (take 500 batch) db = (True, db1)" "storeChunk ord tx (take 500 (drop 500 batch)) db1 = (False, db2)"
    and "Mysql_StoreEvents ord tx batch db2 = (True, db3)"
    and "\<not> en_done env 1" "\<not> en_stop env 1"
  shows "persist (Mysql_StoreEvents ord tx batch) env db = (Stored, db3) \<and>
    rows db3 = rows db @ map event_args (take 500 batch @ batch) \<and>
    rolled db3 k = rolled db k + rollup_count (take 500 batch @ batch) k"
proof -
  have db2: "rows db2 = rows db1" "rolled db2 = rolled db1"
    using events_db.rollback[OF assms(1)] assms(5) by (simp_all add: storeChunk_def)
  have "Mysql_StoreEvents ord tx batch db = (False, db2)"
    using assms(3-5)
    by (simp add: Mysql_StoreEvents_def insertChunk_def each_chunk_step[of 500 _ batch] each_chunk_step[of 500 _ "drop 500 batch"])
      auto
  then have "persist (Mysql_StoreEvents ord tx batch) env db = (Stored, db3)"
    using assms(6-8) by (simp add: persist_def persist_from.simps)
  moreover obtain j where "length batch \<le> j * 500" "rows db3 = rows db2 @ map event_args (take (j * 500) batch)"
    "\<And>k. rolled db3 k = rolled db2 k + rollup_count (take (j * 500) batch) k"
    using events_db.chunks_stored[OF assms(1,2), of insertChunk batch db2 True db3] assms(6)
    by (auto simp: Mysql_StoreEvents_def insertChunk_def)
  ultimately show ?thesis
    using events_db.chunk_stored[OF assms(1,2,4), of k] db2 by simp
qed

text \<open>
  Every placeholder has its argument: in each statement of the write side the text has as
  many question marks as there are values, and the text depends on nothing but the number of
  rows, so no stored value ever becomes part of it.
\<close>

theorem write_statements_bind:
  "marks (fst (insert_events events)) = length (snd (insert_events events)) \<and>
   marks (fst (insert_rollup r)) = length (snd (insert_rollup r)) \<and>
   marks (fst (upsert_instances ins)) = length (snd (upsert_instances ins)) \<and>
   fst (insert_events events) = fst (insert_events (replicate (length events) zero_event))"
proof -
  have "length (instance_args i) = 15" for i
    by (simp add: instance_args_def)
  then show ?thesis
    by (simp add: insert_events_def insert_rollup_def upsert_instances_def marks_groups insertCols_def
        length_concat_const[where n = insertColCount] length_concat_const[where n = 5] length_concat_const[where n = 15])
      (simp add: insertColCount_def)
qed

text \<open>
  C11: Maintenance keeps the partitions usable. With the lock, and a second listing that shows the
  partitions of the first and those created: the partitions created are new upper bounds, in
  increasing order above every existing one, as splitting the catch-all needs; only partitions
  named after a day all of whose rows are past the retention are dropped, never the catch-all,
  a foreign one or, with a retention of at least a day, one just created; and a run without
  error leaves a day's partition for the rows of yesterday, today and tomorrow and no expired
  one.
\<close>

theorem maintain_partitions:
  assumes "mt_lock env = Some True" "mt_listed env = Some ex" "mt_listed_again env = Some ex2"
    and "run = Mysql_Maintain now retention env" "set ex2 = set ex \<union> partitionName ` set (mn_created run)"
    and "today = now div (24 * Hour)" "1 \<le> retention" "zero_day < today - 1" "today < 2932896"
  shows "sorted_wrt (<) (mn_created run) \<and>
    (\<forall>c \<in> set (mn_created run). \<forall>n \<in> set ex. \<forall>d. partitionDay n = Some d \<longrightarrow> d < c) \<and>
    (\<forall>n \<in> set (mn_dropped run). \<exists>d. partitionDay n = Some d \<and> d + 1 \<le> today - retention) \<and>
    set (mn_dropped run) \<inter> ({''p_max''} \<union> partitionName ` set (mn_created run)) = {} \<and>
    (mn_errors run = 0 \<longrightarrow>
      (\<forall>day \<in> {today - 1, today, today + 1}. \<exists>n \<in> set ex2 - set (mn_dropped run). \<exists>d. partitionDay n = Some d \<and> day \<le> d) \<and>
      (\<forall>n \<in> set ex2 - set (mn_dropped run). \<forall>d. partitionDay n = Some d \<longrightarrow> today - retention < d + 1))"
proof -
  let ?days = "[today - 1, today, today + 1]"
  obtain created err1 where e: "ensurePartitions (mt_exec env) ex today = (created, err1)"
    by (metis surj_pair)
  obtain dropped err2 where d: "drop_days (mt_exec env) (today - retention) ex2 = (dropped, err2)"
    by (metis surj_pair)
  have run: "mn_created run = created" "mn_dropped run = dropped" "mn_errors run = 0 \<longrightarrow> err1 = None \<and> err2 = None"
    using assms(1-4,6) e d
    by (simp_all add: Mysql_Maintain_def today_days[simplified] dropExpiredPartitions_def Let_def)
  have name: "partitionDay (partitionName c) = Some c" if "c \<in> set ?days" for c
    using that assms(8,9) by (intro partition_roundtrip) (auto simp: zero_day_def epoch_days_def year_start_def)
  have ens: "sorted_wrt (<) (latest_day ex # created)" "set created \<subseteq> set ?days"
    "err1 = None \<longrightarrow> (\<forall>c \<in> set ?days. partitionName c \<in> set ex \<or> c \<le> latest_day ex \<or> (\<exists>b \<in> set created. c \<le> b))"
  proof -
    have "sorted_wrt (<) (latest_day ex # created) \<and> set created \<subseteq> set ?days \<and>
      (err1 = None \<longrightarrow> (\<forall>c \<in> set ?days. partitionName c \<in> set ex \<or> c \<le> latest_day ex \<or> (\<exists>b \<in> set created. c \<le> b)))"
    proof (cases "''p_max'' \<in> set ex")
      case False
      then have "created = []" "err1 = Some NoCatchAll"
        using e by (simp_all add: ensurePartitions_def)
      then show ?thesis by simp
    next
      case True
      then have "ensure_days (mt_exec env) ex ?days (latest_day ex) = (created, err1)"
        using e by (simp only: ensurePartitions_def not_True_eq_False if_False simp_thms)
      then show ?thesis by (rule ensure_days_spec)
    qed
    then show "sorted_wrt (<) (latest_day ex # created)" "set created \<subseteq> set ?days"
      "err1 = None \<longrightarrow> (\<forall>c \<in> set ?days. partitionName c \<in> set ex \<or> c \<le> latest_day ex \<or> (\<exists>b \<in> set created. c \<le> b))"
      by blast+
  qed
  note drp = drop_days_spec[OF d]
  have new: "partitionName c \<notin> set dropped" if "c \<in> set created" for c
  proof
    have c: "c \<in> set ?days"
      using that ens(2) by blast
    assume "partitionName c \<in> set dropped"
    then obtain b where "partitionDay (partitionName c) = Some b" "b + 1 \<le> today - retention"
      using drp by blast
    then have "c + 1 \<le> today - retention"
      using name[OF c] by simp
    then show False
      using c assms(7) by auto
  qed
  have covered: "\<exists>n \<in> set ex2 - set dropped. \<exists>b. partitionDay n = Some b \<and> c \<le> b" if c: "c \<in> set ?days" and none: "err1 = None" for c
  proof -
    have "\<exists>n \<in> set ex2. \<exists>b. partitionDay n = Some b \<and> c \<le> b"
    proof -
      consider "partitionName c \<in> set ex" | "c \<le> latest_day ex" | b where "b \<in> set created" "c \<le> b"
        using ens(3) none c by blast
      then show ?thesis
      proof cases
        case 1
        then show ?thesis
          using name[OF c] assms(5) by blast
      next
        case 2
        then have "latest_day ex \<noteq> zero_day"
          using c assms(8) by auto
        then show ?thesis
          using latest_day_spec[of ex] 2 assms(5) by blast
      next
        case 3
        then show ?thesis
          using name[of b] ens(2) assms(5) run(1) by blast
      qed
    qed
    then obtain n b where n: "n \<in> set ex2" "partitionDay n = Some b" "c \<le> b"
      by blast
    have "n \<notin> set dropped"
    proof
      assume "n \<in> set dropped"
      then have "b + 1 \<le> today - retention"
        using drp n(2) by auto
      then show False
        using n(3) c assms(7) by auto
    qed
    then show ?thesis
      using n by blast
  qed
  show ?thesis
    unfolding run(1,2)
  proof (intro conjI impI)
    show "sorted_wrt (<) created" "\<forall>c \<in> set created. \<forall>n \<in> set ex. \<forall>d. partitionDay n = Some d \<longrightarrow> d < c"
      using ens(1) latest_day_spec[of ex] by fastforce+
    show "\<forall>n \<in> set dropped. \<exists>d. partitionDay n = Some d \<and> d + 1 \<le> today - retention"
      using drp by blast
    show "set dropped \<inter> ({''p_max''} \<union> partitionName ` set created) = {}"
      using drp new by auto
  next
    assume "mn_errors run = 0"
    then have none: "err1 = None" "err2 = None"
      using run(3) by auto
    show "\<forall>day \<in> {today - 1, today, today + 1}. \<exists>n \<in> set ex2 - set dropped. \<exists>d. partitionDay n = Some d \<and> day \<le> d"
      using covered none by auto
    show "\<forall>n \<in> set ex2 - set dropped. \<forall>d. partitionDay n = Some d \<longrightarrow> today - retention < d + 1"
      using drp none by fastforce
  qed
qed


section \<open>Witnesses\<close>


lemma list_store_ok:
  "n \<noteq> 0 \<Longrightarrow> length xs \<le> n \<Longrightarrow> xs \<noteq> [] \<Longrightarrow> each_chunk n (storeChunk ord list_tx) xs db =
     storeChunk ord list_tx xs db"
  by (simp add: each_chunk_step[of n _ xs] each_chunk_step[of n _ "[]"] split: prod.splits)

theorem mysql_retry_duplicates_witness:
  "\<exists>db3. persist (Mysql_StoreEvents (\<lambda>m. m) list_tx (replicate 501 zero_event)) \<lparr>en_done = \<lambda>i. False, en_stop = \<lambda>i. False\<rparr>
      ([False, True], [], \<lambda>k. 0) = (Stored, db3) \<and> length (fst (snd db3)) = 1001"
proof -
  let ?b = "replicate 501 zero_event" and ?db = "([False, True], [], \<lambda>k. 0) :: list_db"
  let ?env = "\<lparr>en_done = \<lambda>i. False, en_stop = \<lambda>i. False\<rparr>"
  have tx: "\<exists>rs' f'. storeChunk (\<lambda>m. m) list_tx xs (fs, rs, f) = (fs = [] \<or> \<not> hd fs, (tl fs, rs', f'))" for xs fs rs f
    by (auto simp: storeChunk_def insert_events_def insert_rollup_def)
  obtain rs1 f1 where 1: "storeChunk (\<lambda>m. m) list_tx (take 500 ?b) ?db = (True, ([True], rs1, f1))"
    using tx[of "take 500 ?b" "[False, True]" "[]" "\<lambda>k. 0"] by auto
  obtain rs2 f2 where 2: "storeChunk (\<lambda>m. m) list_tx (take 500 (drop 500 ?b)) ([True], rs1, f1) = (False, ([], rs2, f2))"
    using tx[of "take 500 (drop 500 ?b)" "[True]" rs1 f1] by auto
  obtain rs3 f3 where 3: "storeChunk (\<lambda>m. m) list_tx (take 500 ?b) ([], rs2, f2) = (True, ([], rs3, f3))"
    using tx[of "take 500 ?b" "[]" rs2 f2] by auto
  obtain rs4 f4 where 4: "storeChunk (\<lambda>m. m) list_tx (drop 500 ?b) ([], rs3, f3) = (True, ([], rs4, f4))"
    using tx[of "drop 500 ?b" "[]" rs3 f3] by auto
  have "Mysql_StoreEvents (\<lambda>m. m) list_tx ?b ([], rs2, f2) = (True, ([], rs4, f4))"
    unfolding Mysql_StoreEvents_def insertChunk_def
    by (subst each_chunk_step, subst 3, simp only: prod.case not_True_eq_False if_False, subst list_store_ok) (simp_all add: 4[simplified])
  note dup = mysql_retry_duplicates[OF ldb.events_db_axioms refl _ 1 2 this, where env = ?env and k = undefined]
  show ?thesis
    using dup by (auto simp: length_replicate)
qed

theorem maintain_partitions_witness:
  "let env = \<lparr> mt_lock = Some True, mt_listed = Some [''p_max'', ''p00050101''],
       mt_listed_again = Some [''p_max'', ''p00050101'', ''p00050208'', ''p00050209'', ''p00050210''],
       mt_exec = \<lambda>s. True, mt_deletes = (True, True) \<rparr>;
     run = Mysql_Maintain (-717662 * (24 * Hour) + 5) 14 env
   in mn_created run = [-717663, -717662, -717661] \<and> mn_dropped run = [''p00050101''] \<and> sorted_wrt (<) (mn_created run)"
proof -
  let ?env = "\<lparr> mt_lock = Some True, mt_listed = Some [''p_max'', ''p00050101''],
       mt_listed_again = Some [''p_max'', ''p00050101'', ''p00050208'', ''p00050209'', ''p00050210''],
       mt_exec = \<lambda>s. True, mt_deletes = (True, True) \<rparr>"
  have run: "Mysql_Maintain (-717662 * (24 * Hour) + 5) 14 ?env = \<lparr> mn_created = [-717663, -717662, -717661], mn_dropped = [''p00050101''], mn_errors = 0 \<rparr>"
    by code_simp
  have names: "partitionName ` set [-717663, -717662, -717661] = set [''p00050208'', ''p00050209'', ''p00050210'']"
    unfolding set_map[symmetric] by (rule arg_cong[of _ _ set]) code_simp
  have listed: "set [''p_max'', ''p00050101'', ''p00050208'', ''p00050209'', ''p00050210''] =
      set [''p_max'', ''p00050101''] \<union> partitionName ` set [-717663, -717662, -717661]"
    unfolding names by (simp only: list.set insert_is_Un[of _ "insert _ _"] Un_assoc Un_empty_right) (simp only: Un_insert_left Un_insert_right Un_empty_left Un_empty_right insert_commute)
  have today: "-717662 = (-717662 * (24 * Hour) + 5) div (24 * Hour)"
    by code_simp
  have days: "zero_day < (-717662) - 1" "-717662 < (2932896 :: int)" "1 \<le> (14 :: int)"
    by (simp_all add: zero_day_def)
  show ?thesis
    unfolding Let_def run MaintainRun.simps
    using maintain_partitions[of ?env "[''p_max'', ''p00050101'']" "[''p_max'', ''p00050101'', ''p00050208'', ''p00050209'', ''p00050210'']",
        OF _ _ _ run[symmetric] _ today days(3,1,2), unfolded MaintainRun.simps MaintainEnv.simps, OF refl refl refl listed, THEN conjunct1]
    by (intro conjI refl)
qed

end
