(* ===== verification/MysqlRow.thy ===== *)
theory MysqlRow
  imports MysqlWrite
begin

text \<open>
  The rows of the event table: the columns and their types (\<open>schema.go\<close>), the columns a read
  selects, and how a row becomes an event again (\<open>scanEvent\<close> and \<open>parseTags\<close> of
  \<open>query.go\<close>). What the insert hands to the driver fits the types, and a row read back is the
  event that was stored.
\<close>


section \<open>The schema\<close>

datatype sqltype = BIGINT_UNSIGNED | DATETIME_3 | VARCHAR nat | TINYINT | INTEGER | JSON | TEXT

text \<open>The columns of \<open>events_v2\<close>: name, type, and whether a row may leave the column out.\<close>

definition events_v2_columns :: "(string \<times> sqltype \<times> bool) list" where
  "events_v2_columns =
     [(''id'', BIGINT_UNSIGNED, True), (''time'', DATETIME_3, False), (''dc'', VARCHAR 32, False), (''kind'', TINYINT, False),
      (''consul_index'', BIGINT_UNSIGNED, True), (''node_name'', VARCHAR 255, True), (''node_ip'', VARCHAR 45, True),
      (''old_node_status'', TINYINT, True), (''new_node_status'', TINYINT, True), (''service_name'', VARCHAR 255, True),
      (''service_id'', VARCHAR 255, True), (''team'', VARCHAR 128, True), (''app'', VARCHAR 255, True), (''version'', VARCHAR 64, True),
      (''tags'', JSON, False), (''old_service_status'', TINYINT, True), (''new_service_status'', TINYINT, True),
      (''old_healthy'', INTEGER, True), (''new_healthy'', INTEGER, True), (''total_instances'', INTEGER, True),
      (''check_id'', VARCHAR 255, True), (''check_name'', VARCHAR 255, True), (''check_type'', VARCHAR 16, True),
      (''old_check_status'', TINYINT, True), (''new_check_status'', TINYINT, True), (''old_status'', TINYINT, True),
      (''new_status'', TINYINT, True), (''check_output'', TEXT, False)]"

text \<open>The number of characters of a text: its bytes that continue no rune.\<close>

definition char_count :: "string \<Rightarrow> nat" where
  "char_count s = length (filter (\<lambda>c. \<not> continuation c) s)"

text \<open>Which values a column takes in strict mode; a text has to be well-formed UTF-8.\<close>

fun conforms :: "sqltype \<Rightarrow> sqlarg \<Rightarrow> bool" where
  "conforms BIGINT_UNSIGNED (ArgInt i) \<longleftrightarrow> 0 \<le> i \<and> i < 2 ^ 64"
| "conforms DATETIME_3 (ArgTime t) \<longleftrightarrow> Date 1000 1 1 0 0 0 0 \<le> t \<and> t < Date 10000 1 1 0 0 0 0"
| "conforms (VARCHAR n) (ArgStr s) \<longleftrightarrow> utf8_ok s \<and> char_count s \<le> n"
| "conforms TINYINT (ArgInt i) \<longleftrightarrow> - 128 \<le> i \<and> i < 128"
| "conforms INTEGER (ArgInt i) \<longleftrightarrow> - (2 ^ 31) \<le> i \<and> i < 2 ^ 31"
| "conforms JSON (ArgStr s) \<longleftrightarrow> json_array s \<noteq> None"
| "conforms TEXT (ArgStr s) \<longleftrightarrow> utf8_ok s \<and> length s < 65536"
| "conforms _ _ \<longleftrightarrow> False"

text \<open>The names of a list of columns as the statements write it.\<close>

definition split_cols :: "string \<Rightarrow> string list" where
  "split_cols s = map TrimSpace (Split s CHR '','')"

definition column_type :: "string \<Rightarrow> sqltype" where
  "column_type c = fst (the (map_of events_v2_columns c))"


section \<open>Reading a row\<close>

definition selectCols :: string where
  "selectCols = ''id, time, dc, kind, consul_index, node_name, node_ip, old_node_status, new_node_status, '' @
     ''service_name, service_id, team, app, version, tags, old_service_status, new_service_status, old_healthy, new_healthy, total_instances, '' @
     ''check_id, check_name, check_type, old_check_status, new_check_status, check_output''"

text \<open>The \<open>[]\<close> of no tags is not parsed.\<close>

definition parseTags :: "string \<Rightarrow> string list option" where
  "parseTags s = (if length s \<le> 2 then Some [] else json_array s)"

text \<open>
  \<open>rows.Scan\<close> assigns the columns in order, each to a variable of its type: a value of another
  type, an integer out of range and a wrong number of columns are errors.
\<close>

fun get_int :: "sqlarg list \<Rightarrow> (int \<times> sqlarg list) option" where
  "get_int (ArgInt i # r) = Some (i, r)"
| "get_int _ = None"

fun get_time :: "sqlarg list \<Rightarrow> (Time \<times> sqlarg list) option" where
  "get_time (ArgTime t # r) = Some (t, r)"
| "get_time _ = None"

fun get_str :: "sqlarg list \<Rightarrow> (string \<times> sqlarg list) option" where
  "get_str (ArgStr s # r) = Some (s, r)"
| "get_str _ = None"

definition get_int8 :: "sqlarg list \<Rightarrow> (8 word \<times> sqlarg list) option" where
  "get_int8 r = do {
     (i, r) \<leftarrow> get_int r;
     if - 128 \<le> i \<and> i < 128 then Some (word_of_int i, r) else None
   }"

definition get_uint64 :: "sqlarg list \<Rightarrow> (64 word \<times> sqlarg list) option" where
  "get_uint64 r = do {
     (i, r) \<leftarrow> get_int r;
     if 0 \<le> i \<and> i < 2 ^ 64 then Some (word_of_int i, r) else None
   }"

definition scanEvent :: "sqlarg list \<Rightarrow> Event option" where
  "scanEvent r = do {
     (i, r) \<leftarrow> get_int r;
     (t, r) \<leftarrow> get_time r;
     (dc, r) \<leftarrow> get_str r;
     (k, r) \<leftarrow> get_int8 r;
     (ci, r) \<leftarrow> get_uint64 r;
     (node, r) \<leftarrow> get_str r;
     (ip, r) \<leftarrow> get_str r;
     (ons, r) \<leftarrow> get_int8 r;
     (nns, r) \<leftarrow> get_int8 r;
     (svc, r) \<leftarrow> get_str r;
     (sid, r) \<leftarrow> get_str r;
     (team, r) \<leftarrow> get_str r;
     (app, r) \<leftarrow> get_str r;
     (version, r) \<leftarrow> get_str r;
     (tags, r) \<leftarrow> get_str r;
     (oss, r) \<leftarrow> get_int8 r;
     (nss, r) \<leftarrow> get_int8 r;
     (oh, r) \<leftarrow> get_int r;
     (nh, r) \<leftarrow> get_int r;
     (ti, r) \<leftarrow> get_int r;
     (cid, r) \<leftarrow> get_str r;
     (cn, r) \<leftarrow> get_str r;
     (ct, r) \<leftarrow> get_str r;
     (ocs, r) \<leftarrow> get_int8 r;
     (ncs, r) \<leftarrow> get_int8 r;
     (output, r) \<leftarrow> get_str r;
     if r \<noteq> [] then None
     else do {
       tags \<leftarrow> parseTags tags;
       Some \<lparr> ev_ID = i, ev_Time = t, ev_Datacenter = dc, ev_Kind = k, ev_ConsulIndex = ci, ev_NodeName = node,
       ev_NodeIP = ip, ev_OldNodeStatus = ons, ev_NewNodeStatus = nns, ev_ServiceName = svc,
       ev_ServiceID = sid, ev_Team = team, ev_App = app, ev_Version = version, ev_Tags = tags,
       ev_OldServiceStatus = oss, ev_NewServiceStatus = nss, ev_OldHealthy = oh, ev_NewHealthy = nh,
       ev_TotalInstances = ti, ev_CheckID = cid, ev_CheckName = cn, ev_CheckType = ct,
       ev_OldCheckStatus = ocs, ev_NewCheckStatus = ncs, ev_CheckOutput = output \<rparr>
     }
   }"

text \<open>
  The table hands a column of a stored row back: the columns of a row are those the insert
  names, with the identifier the table gave it.
\<close>

definition stored_row :: "int \<Rightarrow> sqlarg list \<Rightarrow> string \<Rightarrow> sqlarg option" where
  "stored_row i args = map_of (zip (''id'' # split_cols insertCols) (ArgInt i # args))"

definition select_row :: "string \<Rightarrow> (string \<Rightarrow> sqlarg option) \<Rightarrow> sqlarg list" where
  "select_row cols row = map (\<lambda>c. the (row c)) (split_cols cols)"


section \<open>Lemmas\<close>

lemma insert_columns:
  "split_cols insertCols =
     [''time'', ''dc'', ''kind'', ''consul_index'', ''node_name'', ''node_ip'', ''old_node_status'', ''new_node_status'',
      ''service_name'', ''service_id'', ''team'', ''app'', ''version'', ''tags'', ''old_service_status'', ''new_service_status'',
      ''old_healthy'', ''new_healthy'', ''total_instances'', ''check_id'', ''check_name'', ''check_type'',
      ''old_check_status'', ''new_check_status'', ''old_status'', ''new_status'', ''check_output'']"
  by code_simp

lemma select_columns:
  "split_cols selectCols =
     [''id'', ''time'', ''dc'', ''kind'', ''consul_index'', ''node_name'', ''node_ip'', ''old_node_status'', ''new_node_status'',
      ''service_name'', ''service_id'', ''team'', ''app'', ''version'', ''tags'', ''old_service_status'', ''new_service_status'',
      ''old_healthy'', ''new_healthy'', ''total_instances'', ''check_id'', ''check_name'', ''check_type'',
      ''old_check_status'', ''new_check_status'', ''check_output'']"
  by code_simp

lemma get_int8_sint [simp]: "get_int8 (ArgInt (sint w) # r) = Some (w, r)"
  using sint_ge[of w] sint_lt[of w] by (simp add: get_int8_def)

lemma get_uint64_uint [simp]: "get_uint64 (ArgInt (uint w) # r) = Some (w, r)"
  using uint_bounded[of w] uint_ge_0[of w] by (simp add: get_uint64_def)

lemma parseTags_tagsJSON: "list_all utf8_ok tags \<Longrightarrow> parseTags (tagsJSON tags) = Some tags"
proof (cases tags)
  case (Cons t ts)
  assume "list_all utf8_ok tags"
  moreover have "2 < length (json_strings tags)"
    by (cases ts) (simp_all add: Cons json_strings_def json_string_def)
  ultimately show ?thesis
    using json_array_strings[of tags] by (simp add: parseTags_def tagsJSON_def Cons)
qed (simp add: parseTags_def tagsJSON_def)

lemma truncate_utf8:
  assumes "utf8_ok s"
  shows "utf8_ok (truncate_output s) \<longleftrightarrow> length s \<le> 4096 \<or> \<not> continuation (s ! 4096)"
  using utf8_take[OF assms, of 4096] assms by (auto simp: truncate_output_def maxOutput_def)

lemma length_truncate: "length (truncate_output s) \<le> 4096"
  by (simp add: truncate_output_def maxOutput_def)

lemma small_status: "- 128 \<le> sint (s :: 8 word)" "sint (s :: 8 word) < 128"
  using sint_ge[of s] sint_lt[of s] by simp_all

text \<open>What an event must satisfy for its row to fit.\<close>

definition names_fit :: "Event \<Rightarrow> bool" where
  "names_fit e \<longleftrightarrow> list_all (\<lambda>(s, n). utf8_ok s \<and> char_count s \<le> n)
     [(ev_Datacenter e, 32), (ev_NodeName e, 255), (ev_NodeIP e, 45), (ev_ServiceName e, 255), (ev_ServiceID e, 255),
      (ev_Team e, 128), (ev_App e, 255), (ev_Version e, 64), (ev_CheckID e, 255), (ev_CheckName e, 255), (ev_CheckType e, 16)]"

definition counts_fit :: "Event \<Rightarrow> bool" where
  "counts_fit e \<longleftrightarrow> list_all (\<lambda>n. - (2 ^ 31) \<le> n \<and> n < (2 :: int) ^ 31) [ev_OldHealthy e, ev_NewHealthy e, ev_TotalInstances e]"

definition time_fits :: "Time \<Rightarrow> bool" where
  "time_fits t \<longleftrightarrow> Date 1000 1 1 0 0 0 0 \<le> t \<and> t < Date 10000 1 1 0 0 0 0"

lemma insert_types:
  "map column_type (split_cols insertCols) =
     [DATETIME_3, VARCHAR 32, TINYINT, BIGINT_UNSIGNED, VARCHAR 255, VARCHAR 45, TINYINT, TINYINT, VARCHAR 255, VARCHAR 255,
      VARCHAR 128, VARCHAR 255, VARCHAR 64, JSON, TINYINT, TINYINT, INTEGER, INTEGER, INTEGER, VARCHAR 255, VARCHAR 255,
      VARCHAR 16, TINYINT, TINYINT, TINYINT, TINYINT, TEXT]"
  unfolding insert_columns by code_simp

lemma scan_stored_row:
  assumes "list_all utf8_ok (ev_Tags e)"
  shows "scanEvent (select_row selectCols (stored_row i (event_args e))) =
    Some (e\<lparr>ev_ID := i, ev_CheckOutput := truncate_output (ev_CheckOutput e)\<rparr>)"
proof -
  have "select_row selectCols (stored_row i (event_args e)) =
     [ArgInt i, ArgTime (ev_Time e), ArgStr (ev_Datacenter e), ArgInt (sint (ev_Kind e)), ArgInt (uint (ev_ConsulIndex e)),
      ArgStr (ev_NodeName e), ArgStr (ev_NodeIP e), ArgInt (sint (ev_OldNodeStatus e)), ArgInt (sint (ev_NewNodeStatus e)),
      ArgStr (ev_ServiceName e), ArgStr (ev_ServiceID e), ArgStr (ev_Team e), ArgStr (ev_App e), ArgStr (ev_Version e),
      ArgStr (tagsJSON (ev_Tags e)), ArgInt (sint (ev_OldServiceStatus e)), ArgInt (sint (ev_NewServiceStatus e)),
      ArgInt (ev_OldHealthy e), ArgInt (ev_NewHealthy e), ArgInt (ev_TotalInstances e),
      ArgStr (ev_CheckID e), ArgStr (ev_CheckName e), ArgStr (ev_CheckType e), ArgInt (sint (ev_OldCheckStatus e)),
      ArgInt (sint (ev_NewCheckStatus e)), ArgStr (truncate_output (ev_CheckOutput e))]"
    by (simp add: select_row_def select_columns stored_row_def insert_columns event_args_def)
  then show ?thesis
    using parseTags_tagsJSON[OF assms] by (cases e) (simp add: scanEvent_def)
qed


section \<open>Properties\<close>

text \<open>
  C14: The typing of the insert. Every column of the event table that has no default is among
  those the insert names; statuses, kinds, indexes and tags always fit their columns, so a row
  fits exactly when its time, its names and its counts do and the check output is well-formed or
  longer than 4096 bytes with a rune beginning at the cut: one that has a rune across the cut is
  stored with half of it, and strict mode refuses the row.
\<close>

theorem insert_row_typed:
  assumes "utf8_ok (ev_CheckOutput e)" "list_all utf8_ok (ev_Tags e)"
  shows "(list_all2 (\<lambda>c a. conforms (column_type c) a) (split_cols insertCols) (event_args e) \<longleftrightarrow>
      time_fits (ev_Time e) \<and> names_fit e \<and> counts_fit e \<and>
      (length (ev_CheckOutput e) \<le> 4096 \<or> \<not> continuation (ev_CheckOutput e ! 4096))) \<and>
    list_all (\<lambda>(c, t, optional). optional \<or> c \<in> set (split_cols insertCols)) events_v2_columns"
proof
  have tags: "json_array (tagsJSON (ev_Tags e)) \<noteq> None"
    using json_array_strings[OF assms(2)] json_array_strings[of "[]"]
    by (cases "ev_Tags e") (simp_all add: tagsJSON_def json_strings_def)
  have index: "0 \<le> uint (ev_ConsulIndex e)" "uint (ev_ConsulIndex e) < 2 ^ 64"
    using uint_bounded[of "ev_ConsulIndex e"] by simp_all
  have cut: "conforms TEXT (ArgStr (truncate_output (ev_CheckOutput e))) \<longleftrightarrow>
      length (ev_CheckOutput e) \<le> 4096 \<or> \<not> continuation (ev_CheckOutput e ! 4096)"
    using truncate_utf8[OF assms(1)] length_truncate[of "ev_CheckOutput e"] by auto
  have "list_all2 (\<lambda>c a. conforms (column_type c) a) (split_cols insertCols) (event_args e) \<longleftrightarrow>
      list_all2 conforms (map column_type (split_cols insertCols)) (event_args e)"
    by (simp add: list_all2_map1)
  also have "\<dots> \<longleftrightarrow> time_fits (ev_Time e) \<and> names_fit e \<and> counts_fit e \<and> conforms TEXT (ArgStr (truncate_output (ev_CheckOutput e)))"
    unfolding insert_types event_args_def time_fits_def names_fit_def counts_fit_def list_all2_Cons list.pred_inject prod.case
    using index tags by (simp only: conforms.simps small_status simp_thms list_all2_Nil list.pred_inject conj_ac)
  finally show "list_all2 (\<lambda>c a. conforms (column_type c) a) (split_cols insertCols) (event_args e) \<longleftrightarrow>
      time_fits (ev_Time e) \<and> names_fit e \<and> counts_fit e \<and>
      (length (ev_CheckOutput e) \<le> 4096 \<or> \<not> continuation (ev_CheckOutput e ! 4096))"
    unfolding cut .
  show "list_all (\<lambda>(c, t, optional). optional \<or> c \<in> set (split_cols insertCols)) events_v2_columns"
    unfolding insert_columns events_v2_columns_def by simp
qed



section \<open>Witnesses\<close>

theorem insert_row_typed_witness:
  "list_all2 (\<lambda>c a. conforms (column_type c) a) (split_cols insertCols)
     (event_args (zero_event\<lparr>ev_Time := 5, ev_Datacenter := ''dc1''\<rparr>))"
proof -
  let ?e = "zero_event\<lparr>ev_Time := 5, ev_Datacenter := ''dc1''\<rparr>"
  have "utf8_ok ''dc1''" "char_count ''dc1'' = 3"
    by code_simp+
  moreover have "time_fits 5"
    by (simp add: time_fits_def Date_def date_days_def year_start_def epoch_days_def)
  ultimately have "time_fits (ev_Time ?e)" "names_fit ?e" "counts_fit ?e" "ev_CheckOutput ?e = []" "ev_Tags ?e = []"
    by (simp_all add: names_fit_def counts_fit_def zero_event_def char_count_def)
  then show ?thesis
    using insert_row_typed[of ?e] by simp
qed


end
