(* ===== verification/MysqlRead.thy ===== *)
theory MysqlRead
  imports MysqlRow MemoryStats
begin

text \<open>
  The read side of package \<open>storage/mysql\<close> (\<open>query.go\<close>): the WHERE clause of a query with its
  arguments, and every read as the statement it sends and what it makes of the rows. The
  database is a parameter: \<open>query\<close> answers a statement and its arguments with rows, or fails.
\<close>


section \<open>The WHERE clause\<close>

definition defaultLimit :: int where "defaultLimit = 100"
definition maxLimit :: int where "maxLimit = 1000"
definition rollupMinRange :: Duration where "rollupMinRange = 6 * Hour"
definition minTime :: Time where "minTime = Date 2000 1 1 0 0 0 0"
definition DefaultFacetSample :: int where "DefaultFacetSample = 100000"

text \<open>\<open>strings.Join\<close>.\<close>

fun Join :: "string list \<Rightarrow> string \<Rightarrow> string" where
  "Join [] sep = []"
| "Join [x] sep = x"
| "Join (x # y # xs) sep = x @ sep @ Join (y # xs) sep"

definition columns :: "(string, string) gomap" where
  "columns =
     [(FieldDatacenter, ''dc''), (FieldService, ''service_name''), (FieldNode, ''node_name''), (FieldCheck, ''check_name''),
      (FieldTeam, ''team''), (FieldApp, ''app''), (FieldVersion, ''version''), (FieldCheckType, ''check_type''),
      (FieldKind, ''kind''), (FieldTag, ''tags''), (FieldTo, ''new_status''), (FieldFrom, ''old_status''),
      (FieldHealthy, ''new_healthy'')]"

definition escapeLike :: "string \<Rightarrow> string" where
  "escapeLike s = concat (map (\<lambda>c. if c \<in> {backslash, CHR ''%'', CHR ''_''} then [backslash, c] else [c]) s)"

definition clampLimit :: "int \<Rightarrow> int" where
  "clampLimit n = (if n \<le> 0 then defaultLimit else if n > maxLimit then maxLimit else n)"

definition bounds :: "Query \<Rightarrow> Time \<Rightarrow> Time \<times> Time" where
  "bounds q now =
     (let to = (if IsZero (q_To q) then now else q_To q);
          from = (if q_From q < minTime then minTime else q_From q)
      in (from, to))"

definition enumValue :: "string \<Rightarrow> string \<Rightarrow> int" where
  "enumValue field v =
     (if field = FieldKind then sint (fst (ParseKind v))
      else if field \<in> {FieldTo, FieldFrom} then sint (fst (ParseStatus v))
      else case Atoi v of Some n \<Rightarrow> n | None \<Rightarrow> 0)"

definition filterSQL :: "Filter \<Rightarrow> string \<times> sqlarg list" where
  "filterSQL f =
     (let col = map_get [] columns (f_Field f); neg = (if f_Not f then ''NOT '' else []); pre = (\<lambda>v. escapeLike (take (length v - 1) v) @ ''%'')
      in if f_Field f \<in> {FieldKind, FieldTo, FieldFrom, FieldHealthy} then
           (neg @ col @ '' IN ('' @ Join (map (\<lambda>v. ''?'') (f_Values f)) '','' @ '')'',
            map (\<lambda>v. ArgInt (enumValue (f_Field f) v)) (f_Values f))
         else if f_Field f = FieldTag then
           (neg @ ''('' @ Join (map (\<lambda>v. if HasSuffix v ''*'' then ''JSON_SEARCH(tags, '' @ [CHR 0x27] @ ''one'' @ [CHR 0x27] @ '', ?) IS NOT NULL''
                                 else ''JSON_CONTAINS(tags, JSON_QUOTE(?))'') (f_Values f)) '' OR '' @ '')'',
            map (\<lambda>v. ArgStr (if HasSuffix v ''*'' then pre v else v)) (f_Values f))
         else
           (neg @ ''('' @ Join (map (\<lambda>v. if HasSuffix v ''*'' then col @ '' LIKE ?'' else col @ '' = ?'') (f_Values f)) '' OR '' @ '')'',
            map (\<lambda>v. ArgStr (if HasSuffix v ''*'' then pre v else v)) (f_Values f)))"

definition buildWhere :: "Query \<Rightarrow> Time \<Rightarrow> string \<times> sqlarg list" where
  "buildWhere q now =
     (let (from, to) = bounds q now;
          conds = [''time BETWEEN ? AND ?'']; args = [ArgTime from, ArgTime to];
          (conds, args) = (if q_Datacenter q \<noteq> [] then (conds @ [''dc = ?''], args @ [ArgStr (q_Datacenter q)]) else (conds, args));
          (conds, args) = fold (\<lambda>f (conds, args). case filterSQL f of (sqlf, fargs) \<Rightarrow> (conds @ [sqlf], args @ fargs))
            (q_Filters q) (conds, args);
          (conds, args) = (if q_Text q \<noteq> [] then
             let p = ''%'' @ escapeLike (q_Text q) @ ''%''
             in (conds @ [''(check_output LIKE ? OR service_name LIKE ? OR node_name LIKE ? OR check_name LIKE ?)''],
                 args @ [ArgStr p, ArgStr p, ArgStr p, ArgStr p])
           else (conds, args))
      in (Join conds '' AND '', args))"


section \<open>Events\<close>

datatype mysql_error = MyInvalid error | MyQuery | MyScan | MyNoFacet string | MyNoSuggest string | MyPanic

definition scan_rows :: "sqlarg list list \<Rightarrow> Event list option" where
  "scan_rows rows = all_some (map scanEvent rows)"

definition Mysql_Events ::
    "(string \<Rightarrow> sqlarg list \<Rightarrow> sqlarg list list option) \<Rightarrow> Time \<Rightarrow> Query \<Rightarrow> mysql_error + Page" where
  "Mysql_Events query now q =
     (case Query_Validate q of Some err \<Rightarrow> Inl (MyInvalid err) | None \<Rightarrow>
       (let limit = clampLimit (q_Limit q);
            (wh, args) = buildWhere q now;
            c = q_Cursor q;
            (wh, args) = (if \<not> Cursor_IsZero c
              then (wh @ '' AND (time < ? OR (time = ? AND id < ?))'', args @ [ArgTime (cur_Time c), ArgTime (cur_Time c), ArgInt (cur_ID c)])
              else (wh, args))
        in case query (''SELECT '' @ selectCols @ '' FROM events_v2 WHERE '' @ wh @ '' ORDER BY time DESC, id DESC LIMIT ?'')
               (args @ [ArgInt (limit + 1)]) of
             None \<Rightarrow> Inl MyQuery
           | Some rows \<Rightarrow>
               (case scan_rows rows of
                  None \<Rightarrow> Inl MyScan
                | Some events \<Rightarrow>
                    if int (length events) > limit then
                      let events = take (nat limit) events; lst = events ! nat (limit - 1)
                      in Inr \<lparr> pg_Events = events, pg_Next = Cursor (ev_Time lst) (ev_ID lst), pg_HasMore = True \<rparr>
                    else Inr \<lparr> pg_Events = events, pg_Next = zero_cursor, pg_HasMore = False \<rparr>)))"

definition Mysql_Since ::
    "(string \<Rightarrow> sqlarg list \<Rightarrow> sqlarg list list option) \<Rightarrow> string \<Rightarrow> Time \<Rightarrow> int \<Rightarrow> mysql_error + Event list" where
  "Mysql_Since query dc after limit =
     (case query (''SELECT '' @ selectCols @ '' FROM events_v2 WHERE dc = ? AND time > ? ORDER BY time ASC, id ASC LIMIT ?'')
          [ArgStr dc, ArgTime after, ArgInt (clampLimit limit)] of
        None \<Rightarrow> Inl MyQuery
      | Some rows \<Rightarrow> (case scan_rows rows of None \<Rightarrow> Inl MyScan | Some events \<Rightarrow> Inr events))"


section \<open>Histogram\<close>

definition rollupFilters :: "Filter list \<Rightarrow> bool" where
  "rollupFilters filters = list_all (\<lambda>f. f_Field f = FieldDatacenter) filters"

definition splitKey :: "Split \<Rightarrow> string \<Rightarrow> string" where
  "splitKey split raw =
     (if split = SplitDatacenter then raw
      else Status_String (word_of_int (case Atoi raw of Some n \<Rightarrow> n | None \<Rightarrow> 0)))"

definition sample :: "int \<Rightarrow> int" where
  "sample facetSample = (if facetSample \<le> 0 then DefaultFacetSample else facetSample)"

text \<open>The closure \<open>add\<close>: a count for a time outside the window is dropped.\<close>

definition add_count :: "Time \<Rightarrow> Duration \<Rightarrow> Time \<Rightarrow> string \<Rightarrow> int \<Rightarrow> Bucket list \<Rightarrow> Bucket list" where
  "add_count from width t key cnt out =
     (let i = i64_quot (time_sub t from) width
      in if i < 0 \<or> i \<ge> int (length out) then out
         else let b = out ! nat i
           in out[nat i := b\<lparr> bk_Total := bk_Total b + cnt, bk_By := map_put (bk_By b) key (map_get 0 (bk_By b) key + cnt) \<rparr>])"

fun rollup_row :: "Split \<Rightarrow> sqlarg list \<Rightarrow> (Time \<times> string \<times> int) option" where
  "rollup_row split [ArgTime minute, ArgStr key, ArgInt n] = Some (minute, splitKey split key, n)"
| "rollup_row split _ = None"

fun sampled_row :: "Time \<Rightarrow> Duration \<Rightarrow> Split \<Rightarrow> sqlarg list \<Rightarrow> (Time \<times> string \<times> int) option" where
  "sampled_row from width split [ArgInt b, ArgStr key, ArgInt n] = Some (from + wrap64 (b * width), splitKey split key, n)"
| "sampled_row from width split _ = None"

definition add_rows :: "Time \<Rightarrow> Duration \<Rightarrow> (Time \<times> string \<times> int) list \<Rightarrow> Bucket list \<Rightarrow> Bucket list" where
  "add_rows from width rows out = fold (\<lambda>(t, key, n). add_count from width t key n) rows out"

definition rollup_select :: "string \<Rightarrow> Query \<Rightarrow> Time \<Rightarrow> Time \<Rightarrow> statement" where
  "rollup_select keyCol q from to =
     (let conds = ''minute BETWEEN ? AND ?''; args = [ArgTime (time_truncate from Minute), ArgTime to];
          (conds, args) = (if q_Datacenter q \<noteq> [] then (conds @ '' AND dc = ?'', args @ [ArgStr (q_Datacenter q)]) else (conds, args));
          (conds, args) = fold (\<lambda>f (conds, args). case filterSQL f of (sqlf, fargs) \<Rightarrow> (conds @ '' AND '' @ sqlf, args @ fargs))
            (q_Filters q) (conds, args)
      in (''SELECT minute, '' @ keyCol @ '', SUM(n) FROM events_rollup WHERE '' @ conds @ '' GROUP BY minute, '' @ keyCol, args))"

definition sampled_select :: "string \<Rightarrow> Query \<Rightarrow> Time \<Rightarrow> Time \<Rightarrow> Duration \<Rightarrow> int \<Rightarrow> statement" where
  "sampled_select keyCol q now from width smp =
     (case buildWhere q now of (wh, args) \<Rightarrow>
       (''SELECT FLOOR((UNIX_TIMESTAMP(time) - ?) / ?) AS b, k, COUNT(*) FROM (SELECT time, '' @ keyCol @ '' AS k FROM events_v2 WHERE '' @ wh @
          '' ORDER BY time DESC LIMIT ?) t GROUP BY b, k'',
        [ArgInt (from div Second), ArgInt (i64_quot width Second)] @ args @ [ArgInt smp]))"

text \<open>The shape of the answer: window, width and the number of buckets.\<close>

definition mysql_window :: "Time \<Rightarrow> Query \<Rightarrow> Time \<times> Time" where
  "mysql_window now q = (case bounds q now of (from, to) \<Rightarrow> (if from = minTime then to - Hour else from, to))"

definition mysql_buckets :: "int \<Rightarrow> int" where
  "mysql_buckets buckets = (let b = (if buckets \<le> 0 then 60 else buckets) in if b > 500 then 500 else b)"

definition use_rollup :: "Query \<Rightarrow> Duration \<Rightarrow> bool" where
  "use_rollup q span \<longleftrightarrow> rollupFilters (q_Filters q) \<and> q_Text q = [] \<and> span \<ge> rollupMinRange"

definition mysql_width :: "bool \<Rightarrow> Duration \<Rightarrow> int \<Rightarrow> Duration" where
  "mysql_width rollup span buckets =
     (let width = hist_width span buckets
      in if rollup then (let w = dur_truncate width Minute in if w < Minute then Minute else w) else width)"

definition Mysql_Histogram ::
    "int \<Rightarrow> (string \<Rightarrow> sqlarg list \<Rightarrow> sqlarg list list option) \<Rightarrow> Time \<Rightarrow> Query \<Rightarrow> int \<Rightarrow> Split \<Rightarrow> mysql_error + (Bucket list \<times> bool)" where
  "Mysql_Histogram facetSample query now q buckets0 split =
     (case Query_Validate q of Some err \<Rightarrow> Inl (MyInvalid err) | None \<Rightarrow>
       (let (from, to) = mysql_window now q;
            buckets = mysql_buckets buckets0;
            span = time_sub to from
        in if span \<le> 0 then Inr ([], False)
           else
             let rollup = use_rollup q span;
                 keyCol = (if split = SplitDatacenter then ''dc'' else ''new_status'');
                 width = mysql_width rollup span buckets;
                 n = hist_count span width
             in if n < 0 then Inl MyPanic
                else
                  let out = map (\<lambda>i. \<lparr> bk_Start = from + wrap64 (int i * width), bk_Total = 0, bk_By = [] \<rparr>) [0..<nat n]
                  in if rollup then
                       (case rollup_select keyCol q from to of (sqlq, args) \<Rightarrow>
                          case query sqlq args of None \<Rightarrow> Inl MyQuery
                          | Some rows \<Rightarrow> (case all_some (map (rollup_row split) rows) of None \<Rightarrow> Inl MyScan
                             | Some counts \<Rightarrow> Inr (add_rows from width counts out, False)))
                     else
                       (case sampled_select keyCol q now from width (sample facetSample) of (sqlq, args) \<Rightarrow>
                          case query sqlq args of None \<Rightarrow> Inl MyQuery
                          | Some rows \<Rightarrow> (case all_some (map (sampled_row from width split) rows) of None \<Rightarrow> Inl MyScan
                             | Some counts \<Rightarrow> Inr (add_rows from width counts out, sum_list (map (\<lambda>(t, k, n). n) counts) \<ge> sample facetSample)))))"


section \<open>Facets\<close>

text \<open>The columns scanned for the facets, the tags only when they are asked for.\<close>

definition scan_facet :: "bool \<Rightarrow> sqlarg list \<Rightarrow> (Event \<times> Status) option" where
  "scan_facet wantTags r = do {
     (dc, r) \<leftarrow> get_str r;
     (k, r) \<leftarrow> get_int8 r;
     (headline, r) \<leftarrow> get_int8 r;
     (team, r) \<leftarrow> get_str r;
     (app, r) \<leftarrow> get_str r;
     (version, r) \<leftarrow> get_str r;
     (svc, r) \<leftarrow> get_str r;
     (node, r) \<leftarrow> get_str r;
     (cn, r) \<leftarrow> get_str r;
     (ct, r) \<leftarrow> get_str r;
     (tags, r) \<leftarrow> (if wantTags then get_str r else Some ([], r));
     if r \<noteq> [] then None
     else do {
       tags \<leftarrow> parseTags tags;
       Some (zero_event\<lparr> ev_Datacenter := dc, ev_Kind := k, ev_Team := team, ev_App := app, ev_Version := version,
         ev_ServiceName := svc, ev_NodeName := node, ev_CheckName := cn, ev_CheckType := ct, ev_Tags := tags \<rparr>, headline)
     }
   }"

definition count_row :: "Event \<times> Status \<Rightarrow> string \<Rightarrow> (string, int) gomap \<Rightarrow> (string, int) gomap" where
  "count_row = (\<lambda>(e, headline) field m.
     if field = FieldTo then map_incr m (Status_String headline)
     else fold (\<lambda>v m. map_incr m v) (FieldValues e field) m)"

definition topValues :: "(string, int) gomap \<Rightarrow> int \<Rightarrow> FacetValue list" where
  "topValues m limit =
     (let vals = sort_slice facet_less (map (\<lambda>(v, c). \<lparr> fv_Value = v, fv_Count = c \<rparr>) m)
      in if int (length vals) > limit then take (nat limit) vals else vals)"

definition Mysql_Facets ::
    "int \<Rightarrow> (string \<Rightarrow> sqlarg list \<Rightarrow> sqlarg list list option) \<Rightarrow> Time \<Rightarrow> Query \<Rightarrow> string list \<Rightarrow> int \<Rightarrow> mysql_error + Facets" where
  "Mysql_Facets facetSample query now q flds limit0 =
     (case Query_Validate q of Some err \<Rightarrow> Inl (MyInvalid err) | None \<Rightarrow>
      (case find (\<lambda>f. map_of columns f = None \<or> f = FieldFrom \<or> f = FieldHealthy) flds of Some f \<Rightarrow> Inl (MyNoFacet f) | None \<Rightarrow>
       (let limit = (if limit0 \<le> 0 then 10 else limit0);
            (wh, args) = buildWhere q now;
            smp = sample facetSample;
            wantTags = FieldTag \<in> set flds;
            cols = ''dc, kind, new_status, team, app, version, service_name, node_name, check_name, check_type'' @ (if wantTags then '', tags'' else [])
        in case query (''SELECT '' @ cols @ '' FROM events_v2 WHERE '' @ wh @ '' ORDER BY time DESC LIMIT ?'') (args @ [ArgInt smp]) of
             None \<Rightarrow> Inl MyQuery
           | Some rows \<Rightarrow>
               (case all_some (map (scan_facet wantTags) rows) of
                  None \<Rightarrow> Inl MyScan
                | Some es \<Rightarrow>
                    Inr \<lparr> fc_Values = fold (\<lambda>f vs. map_put vs f (topValues (fold (\<lambda>e. count_row e f) es []) limit)) flds [],
                          fc_SampleSize = int (length es), fc_Sampled = int (length es) \<ge> smp \<rparr>))))"


section \<open>Suggestions, instances, datacenters\<close>

definition suggest_statement :: "string \<Rightarrow> string \<Rightarrow> string \<Rightarrow> int \<Rightarrow> Time \<Rightarrow> statement option" where
  "suggest_statement dc field pre limit0 now =
     (let limit = (if limit0 \<le> 0 \<or> limit0 > 100 then 20 else limit0);
          pattern = escapeLike pre @ ''%'';
          dcArgs = (if dc = [] then [] else [ArgStr dc]);
          dcCond = (\<lambda>col. if dc = [] then [] else col @ '' = ? AND '')
      in if field \<in> {FieldService, FieldNode, FieldTeam, FieldApp} then
           let col = map_get [] columns field
           in Some (''SELECT DISTINCT '' @ col @ '' FROM instances WHERE '' @ dcCond ''dc'' @ col @ '' LIKE ? AND '' @ col @
                '' <> '' @ [CHR 0x27, CHR 0x27] @ '' ORDER BY '' @ col @ '' LIMIT ?'', dcArgs @ [ArgStr pattern, ArgInt limit])
         else if field = FieldCheck then
           Some (''SELECT DISTINCT check_name FROM events_v2 WHERE '' @ dcCond ''dc'' @ ''check_name LIKE ? AND time > ? ORDER BY check_name LIMIT ?'',
             dcArgs @ [ArgStr pattern, ArgTime (now - 24 * Hour), ArgInt limit])
         else if field = FieldDatacenter then
           Some (''SELECT DISTINCT dc FROM instances WHERE dc LIKE ? ORDER BY dc LIMIT ?'', [ArgStr pattern, ArgInt limit])
         else if field = FieldTag then
           Some (''SELECT DISTINCT jt.tag FROM instances i, JSON_TABLE(i.tags, '' @ [CHR 0x27] @ ''$[*]'' @ [CHR 0x27] @ '' COLUMNS (tag VARCHAR(255) PATH '' @
               [CHR 0x27] @ ''$'' @ [CHR 0x27] @ '')) jt WHERE '' @ dcCond ''i.dc'' @ ''i.tags IS NOT NULL AND jt.tag LIKE ? ORDER BY jt.tag LIMIT ?'',
             dcArgs @ [ArgStr pattern, ArgInt limit])
         else None)"

fun text_row :: "sqlarg list \<Rightarrow> string option" where
  "text_row [ArgStr v] = Some v"
| "text_row _ = None"

definition Mysql_Suggest ::
    "(string \<Rightarrow> sqlarg list \<Rightarrow> sqlarg list list option) \<Rightarrow> Time \<Rightarrow> string \<Rightarrow> string \<Rightarrow> string \<Rightarrow> int \<Rightarrow> mysql_error + string list" where
  "Mysql_Suggest query now dc field pre limit =
     (case suggest_statement dc field pre limit now of None \<Rightarrow> Inl (MyNoSuggest field)
      | Some (sqlq, args) \<Rightarrow>
          (case query sqlq args of None \<Rightarrow> Inl MyQuery
           | Some rows \<Rightarrow> (case all_some (map text_row rows) of None \<Rightarrow> Inl MyScan | Some out \<Rightarrow> Inr out)))"

fun get_null :: "sqlarg list \<Rightarrow> (string option \<times> sqlarg list) option" where
  "get_null (ArgNull # r) = Some (None, r)"
| "get_null (ArgStr s # r) = Some (Some s, r)"
| "get_null _ = None"

text \<open>A column that is null or malformed leaves the field empty.\<close>

definition scan_instance :: "sqlarg list \<Rightarrow> Instance option" where
  "scan_instance r = do {
     (dc, r) \<leftarrow> get_str r;
     (node, r) \<leftarrow> get_str r;
     (sid, r) \<leftarrow> get_str r;
     (svc, r) \<leftarrow> get_str r;
     (ip, r) \<leftarrow> get_str r;
     (address, r) \<leftarrow> get_str r;
     (port, r) \<leftarrow> get_int r;
     (team, r) \<leftarrow> get_str r;
     (app, r) \<leftarrow> get_str r;
     (version, r) \<leftarrow> get_str r;
     (tags, r) \<leftarrow> get_null r;
     (meta, r) \<leftarrow> get_null r;
     (nodeMeta, r) \<leftarrow> get_null r;
     (firstSeen, r) \<leftarrow> get_time r;
     (lastSeen, r) \<leftarrow> get_time r;
     if r \<noteq> [] then None
     else Some \<lparr> in_Datacenter = dc, in_NodeName = node, in_ServiceID = sid, in_ServiceName = svc, in_NodeIP = ip,
       in_Address = address, in_Port = port, in_Team = team, in_App = app, in_Version = version,
       in_Tags = (case Option.bind tags json_array of Some ts \<Rightarrow> ts | None \<Rightarrow> []),
       in_Meta = (case Option.bind meta json_object of Some m \<Rightarrow> m | None \<Rightarrow> []),
       in_NodeMeta = (case Option.bind nodeMeta json_object of Some m \<Rightarrow> m | None \<Rightarrow> []),
       in_FirstSeen = firstSeen, in_LastSeen = lastSeen \<rparr>
   }"

definition instance_cols :: string where
  "instance_cols = ''dc, node_name, service_id, service_name, node_ip, address, port, team, app, version, tags, meta, node_meta, first_seen, last_seen''"

definition Mysql_Instance ::
    "(string \<Rightarrow> sqlarg list \<Rightarrow> sqlarg list list option) \<Rightarrow> string \<Rightarrow> string \<Rightarrow> string \<Rightarrow> mysql_error + Instance option" where
  "Mysql_Instance query dc node serviceID =
     (case query (''SELECT '' @ instance_cols @ '' FROM instances WHERE dc = ? AND node_name = ? AND service_id = ?'')
          [ArgStr dc, ArgStr node, ArgStr serviceID] of
        None \<Rightarrow> Inl MyQuery
      | Some [] \<Rightarrow> Inr None
      | Some (row # rows) \<Rightarrow> (case scan_instance row of None \<Rightarrow> Inl MyScan | Some i \<Rightarrow> Inr (Some i)))"

definition Mysql_Datacenters ::
    "(string \<Rightarrow> sqlarg list \<Rightarrow> sqlarg list list option) \<Rightarrow> Time \<Rightarrow> mysql_error + string list" where
  "Mysql_Datacenters query now =
     (case query ''SELECT DISTINCT dc FROM instances UNION SELECT DISTINCT dc FROM events_rollup WHERE minute > ?'' [ArgTime (now - 24 * Hour)] of
        None \<Rightarrow> Inl MyQuery
      | Some rows \<Rightarrow>
          (case all_some (map text_row rows) of None \<Rightarrow> Inl MyScan
           | Some dcs \<Rightarrow> Inr (sort_Strings (snd (fold (\<lambda>dc (seen, out).
               if map_get False seen dc then (seen, out) else (map_put seen dc True, out @ [dc])) dcs ([], []))))))"

end
