(* ===== verification/MysqlTable.thy ===== *)
theory MysqlTable
  imports MysqlRead
begin

text \<open>
  What the statements of the reads mean. A WHERE clause is a conjunction of a few kinds of
  conditions (\<open>cond\<close>), and \<open>buildWhere\<close> writes the text of one; a database that evaluates those
  conditions as the manual of MySQL says (locale \<open>event_table\<close>) answers with the events the query
  selects. The contract covers ASCII text; names are compared by its equality of characters.
\<close>


section \<open>Conditions\<close>

datatype atom = Is string string | Like string string | TagLike string | TagHas string

datatype cond =
    TimeBetween Time Time
  | DcIs string
  | InList bool string "int list"
  | AnyOf bool "atom list"
  | TextLike string
  | BeforeRow Time int

fun atom_text :: "atom \<Rightarrow> string" where
  "atom_text (Is c v) = c @ '' = ?''"
| "atom_text (Like c p) = c @ '' LIKE ?''"
| "atom_text (TagLike p) = ''JSON_SEARCH(tags, '' @ [CHR 0x27] @ ''one'' @ [CHR 0x27] @ '', ?) IS NOT NULL''"
| "atom_text (TagHas v) = ''JSON_CONTAINS(tags, JSON_QUOTE(?))''"

fun atom_arg :: "atom \<Rightarrow> sqlarg" where
  "atom_arg (Is c v) = ArgStr v"
| "atom_arg (Like c p) = ArgStr p"
| "atom_arg (TagLike p) = ArgStr p"
| "atom_arg (TagHas v) = ArgStr v"

definition neg_text :: "bool \<Rightarrow> string" where
  "neg_text n = (if n then ''NOT '' else [])"

fun cond_text :: "cond \<Rightarrow> string" where
  "cond_text (TimeBetween a b) = ''time BETWEEN ? AND ?''"
| "cond_text (DcIs v) = ''dc = ?''"
| "cond_text (InList n c is) = neg_text n @ c @ '' IN ('' @ Join (map (\<lambda>i. ''?'') is) '','' @ '')''"
| "cond_text (AnyOf n atoms) = neg_text n @ ''('' @ Join (map atom_text atoms) '' OR '' @ '')''"
| "cond_text (TextLike p) = ''(check_output LIKE ? OR service_name LIKE ? OR node_name LIKE ? OR check_name LIKE ?)''"
| "cond_text (BeforeRow t i) = ''(time < ? OR (time = ? AND id < ?))''"

fun cond_args :: "cond \<Rightarrow> sqlarg list" where
  "cond_args (TimeBetween a b) = [ArgTime a, ArgTime b]"
| "cond_args (DcIs v) = [ArgStr v]"
| "cond_args (InList n c is) = map ArgInt is"
| "cond_args (AnyOf n atoms) = map atom_arg atoms"
| "cond_args (TextLike p) = [ArgStr p, ArgStr p, ArgStr p, ArgStr p]"
| "cond_args (BeforeRow t i) = [ArgTime t, ArgTime t, ArgInt i]"

text \<open>The conditions of a query.\<close>

definition value_atom :: "string \<Rightarrow> string \<Rightarrow> atom" where
  "value_atom field v =
     (let p = escapeLike (take (length v - 1) v) @ ''%''; col = map_get [] columns field
      in if field = FieldTag then (if HasSuffix v ''*'' then TagLike p else TagHas v)
         else if HasSuffix v ''*'' then Like col p else Is col v)"

definition filter_cond :: "Filter \<Rightarrow> cond" where
  "filter_cond f =
     (if f_Field f \<in> {FieldKind, FieldTo, FieldFrom, FieldHealthy}
      then InList (f_Not f) (map_get [] columns (f_Field f)) (map (enumValue (f_Field f)) (f_Values f))
      else AnyOf (f_Not f) (map (value_atom (f_Field f)) (f_Values f)))"

definition query_conds :: "Query \<Rightarrow> Time \<Rightarrow> cond list" where
  "query_conds q now =
     TimeBetween (fst (bounds q now)) (snd (bounds q now)) #
     (if q_Datacenter q \<noteq> [] then [DcIs (q_Datacenter q)] else []) @
     map filter_cond (q_Filters q) @
     (if q_Text q \<noteq> [] then [TextLike (''%'' @ escapeLike (q_Text q) @ ''%'')] else [])"

definition where_text :: "cond list \<Rightarrow> string" where
  "where_text cs = Join (map cond_text cs) '' AND ''"

definition where_args :: "cond list \<Rightarrow> sqlarg list" where
  "where_args cs = concat (map cond_args cs)"

lemma Join_snoc: "xs \<noteq> [] \<Longrightarrow> Join (xs @ [y]) sep = Join xs sep @ sep @ y"
  by (induction xs sep rule: Join.induct) simp_all

lemma filterSQL_cond: "filterSQL f = (cond_text (filter_cond f), cond_args (filter_cond f))"
proof (cases "f_Field f \<in> {FieldKind, FieldTo, FieldFrom, FieldHealthy}")
  case True
  then show ?thesis
    by (simp add: filterSQL_def filter_cond_def neg_text_def comp_def Let_def)
next
  case False
  have "atom_text (value_atom (f_Field f) v) =
      (if f_Field f = FieldTag
        then if HasSuffix v ''*'' then ''JSON_SEARCH(tags, '' @ [CHR 0x27] @ ''one'' @ [CHR 0x27] @ '', ?) IS NOT NULL''
          else ''JSON_CONTAINS(tags, JSON_QUOTE(?))''
        else if HasSuffix v ''*'' then map_get [] columns (f_Field f) @ '' LIKE ?'' else map_get [] columns (f_Field f) @ '' = ?'')"
    "atom_arg (value_atom (f_Field f) v) = ArgStr (if HasSuffix v ''*'' then escapeLike (take (length v - 1) v) @ ''%'' else v)" for v
    by (simp_all add: value_atom_def Let_def)
  then show ?thesis
    using False by (cases "f_Field f = FieldTag") (simp_all add: filterSQL_def filter_cond_def neg_text_def Let_def comp_def)
qed

lemma buildWhere_conds: "buildWhere q now = (where_text (query_conds q now), where_args (query_conds q now))"
proof -
  have f: "fold (\<lambda>f (conds, args). case filterSQL f of (sqlf, fargs) \<Rightarrow> (conds @ [sqlf], args @ fargs)) fs (map cond_text cs, where_args cs) =
      (map cond_text (cs @ map filter_cond fs), where_args (cs @ map filter_cond fs))" for fs cs
  proof (induction fs arbitrary: cs)
    case (Cons g fs)
    show ?case
      using Cons[of "cs @ [filter_cond g]"] by (simp add: filterSQL_cond where_args_def)
  qed simp
  obtain a b where ab: "bounds q now = (a, b)"
    by (metis surj_pair)
  show ?thesis
    using f[of _ "[TimeBetween a b]"] f[of _ "[TimeBetween a b, DcIs (q_Datacenter q)]"]
    by (cases "q_Datacenter q = []"; cases "q_Text q = []")
      (simp_all add: buildWhere_def ab query_conds_def where_text_def where_args_def Let_def)
qed


section \<open>LIKE\<close>

text \<open>
  The patterns of LIKE as the manual describes them, on ASCII text: a percent sign matches any
  text, a backslash makes the next character stand for itself, and every other character but the
  underscore matches one that the collation takes for equal.
\<close>

definition ascii :: "string \<Rightarrow> bool" where
  "ascii s \<longleftrightarrow> list_all (\<lambda>c. (of_char c :: nat) < 128) s"

lemma ascii_simps [simp]: "ascii []" "ascii (c # s) \<longleftrightarrow> (of_char c :: nat) < 128 \<and> ascii s" "ascii (s @ t) \<longleftrightarrow> ascii s \<and> ascii t"
  by (simp_all add: ascii_def)

locale like_patterns =
  fixes like :: "string \<Rightarrow> string \<Rightarrow> bool"
    and eqc :: "char \<Rightarrow> char \<Rightarrow> bool"
  assumes like_Nil: "ascii s \<Longrightarrow> like [] s \<longleftrightarrow> s = []"
    and like_percent: "ascii p \<Longrightarrow> ascii s \<Longrightarrow> like (CHR ''%'' # p) s \<longleftrightarrow> (\<exists>a b. s = a @ b \<and> like p b)"
    and like_escape: "ascii (c # p) \<Longrightarrow> ascii s \<Longrightarrow> like (backslash # c # p) s \<longleftrightarrow> (\<exists>d t. s = d # t \<and> eqc c d \<and> like p t)"
    and like_plain: "ascii (c # p) \<Longrightarrow> ascii s \<Longrightarrow> c \<notin> {backslash, CHR ''%'', CHR ''_''} \<Longrightarrow>
      like (c # p) s \<longleftrightarrow> (\<exists>d t. s = d # t \<and> eqc c d \<and> like p t)"
begin

text \<open>The escaped text matches itself, whatever wildcards it contains.\<close>

lemma like_escaped:
  "ascii v \<Longrightarrow> ascii p \<Longrightarrow> ascii s \<Longrightarrow>
   like (escapeLike v @ p) s \<longleftrightarrow> (\<exists>a b. s = a @ b \<and> list_all2 eqc v a \<and> like p b)"
proof (induction v arbitrary: s)
  case (Cons c v)
  have e: "ascii (escapeLike v)"
    using Cons.prems(1) by (induction v) (auto simp: escapeLike_def)
  have one: "like (escapeLike (c # v) @ p) s \<longleftrightarrow> (\<exists>d t. s = d # t \<and> eqc c d \<and> like (escapeLike v @ p) t)"
    using Cons.prems e like_escape[of c "escapeLike v @ p" s] like_plain[of c "escapeLike v @ p" s]
    by (auto simp: escapeLike_def)
  show ?case
  proof (cases s)
    case Nil
    then show ?thesis
      unfolding one by simp
  next
    case s: (Cons d t)
    have "like (escapeLike v @ p) t \<longleftrightarrow> (\<exists>a b. t = a @ b \<and> list_all2 eqc v a \<and> like p b)"
      using Cons.IH[of t] Cons.prems s by simp
    then have "like (escapeLike (c # v) @ p) s \<longleftrightarrow> eqc c d \<and> (\<exists>a b. t = a @ b \<and> list_all2 eqc v a \<and> like p b)"
      unfolding one by (simp add: s)
    also have "\<dots> \<longleftrightarrow> (\<exists>a b. s = a @ b \<and> list_all2 eqc (c # v) a \<and> like p b)"
      by (auto simp: s list_all2_Cons1 Cons_eq_append_conv)
    finally show ?thesis .
  qed
qed (simp add: escapeLike_def)

lemma like_rest: "ascii b \<Longrightarrow> like ''%'' b"
  using like_percent[of "[]" b] like_Nil[of "[]"] by (metis append_Nil2 ascii_simps(1))

lemma like_prefix:
  assumes "ascii v" "ascii s"
  shows "like (escapeLike v @ ''%'') s \<longleftrightarrow> (\<exists>a b. s = a @ b \<and> list_all2 eqc v a)"
proof -
  have "ascii ''%''"
    by simp
  then have "like (escapeLike v @ ''%'') s \<longleftrightarrow> (\<exists>a b. s = a @ b \<and> list_all2 eqc v a \<and> like ''%'' b)"
    using like_escaped assms by blast
  moreover have "like ''%'' b" if "s = a @ b" for a b
    using that assms(2) like_rest by simp
  ultimately show ?thesis
    by blast
qed

lemma like_infix:
  assumes "ascii v" "ascii s"
  shows "like (''%'' @ escapeLike v @ ''%'') s \<longleftrightarrow> (\<exists>x a y. s = x @ a @ y \<and> list_all2 eqc v a)"
proof -
  have "ascii (escapeLike v @ ''%'')"
    using assms(1) by (induction v) (auto simp: escapeLike_def)
  then have "like (''%'' @ escapeLike v @ ''%'') s \<longleftrightarrow> (\<exists>x z. s = x @ z \<and> like (escapeLike v @ ''%'') z)"
    using like_percent[of "escapeLike v @ ''%''" s] assms(2) by simp
  also have "\<dots> \<longleftrightarrow> (\<exists>x z. s = x @ z \<and> (\<exists>a b. z = a @ b \<and> list_all2 eqc v a))"
    using like_prefix[OF assms(1)] assms(2) by (metis ascii_simps(3))
  finally show ?thesis
    by blast
qed

end

text \<open>An executable matcher over a key of characters: it provides the contract for every key.\<close>

fun sql_like :: "(char \<Rightarrow> char) \<Rightarrow> string \<Rightarrow> string \<Rightarrow> bool" where
  "sql_like key [] s \<longleftrightarrow> s = []"
| "sql_like key (c # p) [] \<longleftrightarrow> c = CHR ''%'' \<and> sql_like key p []"
| "sql_like key (c # p) (d # t) \<longleftrightarrow>
     (if c = CHR ''%'' then sql_like key p (d # t) \<or> sql_like key (c # p) t
      else if c = CHR ''_'' then sql_like key p t
      else if c = backslash then (case p of [] \<Rightarrow> d = backslash \<and> t = [] | e # q \<Rightarrow> key e = key d \<and> sql_like key q t)
      else key c = key d \<and> sql_like key p t)"

lemma sql_like_percent: "sql_like key (CHR ''%'' # p) s \<longleftrightarrow> (\<exists>a b. s = a @ b \<and> sql_like key p b)"
proof (induction s)
  case (Cons d t)
  then show ?case
    by (auto simp: Cons_eq_append_conv)
qed simp

interpretation any_case: like_patterns "sql_like lower_char" "\<lambda>c d. lower_char c = lower_char d"
proof unfold_locales
  fix p s :: string
  show "sql_like lower_char (CHR ''%'' # p) s \<longleftrightarrow> (\<exists>a b. s = a @ b \<and> sql_like lower_char p b)"
    by (rule sql_like_percent)
  show "sql_like lower_char (backslash # c # p) s \<longleftrightarrow> (\<exists>d t. s = d # t \<and> lower_char c = lower_char d \<and> sql_like lower_char p t)" for c
    by (cases s) simp_all
  show "c \<notin> {backslash, CHR ''%'', CHR ''_''} \<Longrightarrow> sql_like lower_char (c # p) s \<longleftrightarrow>
      (\<exists>d t. s = d # t \<and> lower_char c = lower_char d \<and> sql_like lower_char p t)" for c
    by (cases s) simp_all
qed simp

interpretation binary: like_patterns "sql_like (\<lambda>c. c)" "(=)"
proof unfold_locales
  fix p s :: string
  show "sql_like (\<lambda>c. c) (CHR ''%'' # p) s \<longleftrightarrow> (\<exists>a b. s = a @ b \<and> sql_like (\<lambda>c. c) p b)"
    by (rule sql_like_percent)
  show "sql_like (\<lambda>c. c) (backslash # c # p) s \<longleftrightarrow> (\<exists>d t. s = d # t \<and> c = d \<and> sql_like (\<lambda>c. c) p t)" for c
    by (cases s) simp_all
  show "c \<notin> {backslash, CHR ''%'', CHR ''_''} \<Longrightarrow> sql_like (\<lambda>c. c) (c # p) s \<longleftrightarrow>
      (\<exists>d t. s = d # t \<and> c = d \<and> sql_like (\<lambda>c. c) p t)" for c
    by (cases s) simp_all
qed simp

end
