(* ===== verification/MysqlSelect.thy ===== *)
theory MysqlSelect
  imports MysqlTable
begin

text \<open>
  The contract of the event table and what \<open>Events\<close> returns over it: the newest selected events
  after the cursor, exactly as the in-memory storage returns them. A table in memory provides the
  contract: it reads the conditions back from the text of the statement.
\<close>


section \<open>What a condition means\<close>

type_synonym row = "string \<Rightarrow> sqlarg option"

text \<open>
  The functions of the server: equality and LIKE of the names' collation, LIKE of the strings of
  a JSON column, and the value a time has when it arrives, whose fraction is rounded or cut to
  microseconds.
\<close>

record Dialect =
  d_same :: "string \<Rightarrow> string \<Rightarrow> bool"
  d_like :: "string \<Rightarrow> string \<Rightarrow> bool"
  d_tag_like :: "string \<Rightarrow> string \<Rightarrow> bool"
  d_sent :: "Time \<Rightarrow> Time"

definition text_col :: "row \<Rightarrow> string \<Rightarrow> string" where
  "text_col r c = (case r c of Some (ArgStr s) \<Rightarrow> s | _ \<Rightarrow> [])"

definition int_col :: "row \<Rightarrow> string \<Rightarrow> int" where
  "int_col r c = (case r c of Some (ArgInt i) \<Rightarrow> i | _ \<Rightarrow> 0)"

definition time_col :: "row \<Rightarrow> Time" where
  "time_col r = (case r ''time'' of Some (ArgTime t) \<Rightarrow> t | _ \<Rightarrow> zero_time)"

definition row_tags :: "row \<Rightarrow> string list" where
  "row_tags r = (case json_array (text_col r ''tags'') of Some ts \<Rightarrow> ts | None \<Rightarrow> [])"

fun atom_holds :: "Dialect \<Rightarrow> row \<Rightarrow> atom \<Rightarrow> bool" where
  "atom_holds d r (Is c v) \<longleftrightarrow> d_same d (text_col r c) v"
| "atom_holds d r (Like c p) \<longleftrightarrow> d_like d p (text_col r c)"
| "atom_holds d r (TagLike p) \<longleftrightarrow> list_ex (d_tag_like d p) (row_tags r)"
| "atom_holds d r (TagHas v) \<longleftrightarrow> v \<in> set (row_tags r)"

fun cond_holds :: "Dialect \<Rightarrow> row \<Rightarrow> cond \<Rightarrow> bool" where
  "cond_holds d r (TimeBetween a b) \<longleftrightarrow> d_sent d a \<le> time_col r \<and> time_col r \<le> d_sent d b"
| "cond_holds d r (DcIs v) \<longleftrightarrow> d_same d (text_col r ''dc'') v"
| "cond_holds d r (InList n c is) \<longleftrightarrow> (int_col r c \<in> set is) \<noteq> n"
| "cond_holds d r (AnyOf n atoms) \<longleftrightarrow> list_ex (atom_holds d r) atoms \<noteq> n"
| "cond_holds d r (TextLike p) \<longleftrightarrow> d_like d p (text_col r ''check_output'') \<or> d_like d p (text_col r ''service_name'') \<or>
     d_like d p (text_col r ''node_name'') \<or> d_like d p (text_col r ''check_name'')"
| "cond_holds d r (BeforeRow t i) \<longleftrightarrow> time_col r < d_sent d t \<or> (time_col r = d_sent d t \<and> int_col r ''id'' < i)"

definition row_pos :: "row \<Rightarrow> Cursor" where
  "row_pos r = Cursor (time_col r) (int_col r ''id'')"

text \<open>Text the contract speaks about: ASCII, and not ending in a space, which some collations ignore.\<close>

definition plain :: "string \<Rightarrow> bool" where
  "plain s \<longleftrightarrow> ascii s \<and> (s = [] \<or> last s \<noteq> CHR '' '')"

definition atom_wf :: "atom \<Rightarrow> bool" where
  "atom_wf a = (case a of Is c v \<Rightarrow> c \<in> {''dc'', ''service_name'', ''node_name'', ''check_name'', ''team'', ''app'', ''version'', ''check_type''}
     | Like c p \<Rightarrow> c \<in> {''dc'', ''service_name'', ''node_name'', ''check_name'', ''team'', ''app'', ''version'', ''check_type''}
     | _ \<Rightarrow> True)"

definition cond_wf :: "cond \<Rightarrow> bool" where
  "cond_wf c = (case c of InList n col is \<Rightarrow> col \<in> {''kind'', ''new_status'', ''old_status'', ''new_healthy''} \<and> is \<noteq> []
     | AnyOf n atoms \<Rightarrow> atoms \<noteq> [] \<and> list_all atom_wf atoms | _ \<Rightarrow> True)"

abbreviation Microsecond :: Duration where "Microsecond \<equiv> 1000"

text \<open>
  The contract: the answer to a statement that \<open>Events\<close> sends is the selected columns of the rows
  the conditions hold for, by falling time and identifier, at most as many as the limit.
\<close>

definition events_select :: "string \<Rightarrow> string" where
  "events_select wh = ''SELECT '' @ selectCols @ '' FROM events_v2 WHERE '' @ wh @ '' ORDER BY time DESC, id DESC LIMIT ?''"

locale event_table = names: like_patterns "d_like d" eqc + tags: like_patterns "d_tag_like d" "(=)"
    for d :: Dialect and eqc :: "char \<Rightarrow> char \<Rightarrow> bool" +
  fixes query :: "string \<Rightarrow> sqlarg list \<Rightarrow> sqlarg list list option"
    and rows :: "row list"
  assumes same: "plain a \<Longrightarrow> plain b \<Longrightarrow> d_same d a b \<longleftrightarrow> list_all2 eqc a b"
    and sent: "d_sent d t mod Microsecond = 0 \<and> t - Microsecond < d_sent d t \<and> d_sent d t < t + Microsecond"
    and select: "cs \<noteq> [] \<Longrightarrow> list_all cond_wf cs \<Longrightarrow>
      query (events_select (where_text cs)) (where_args cs @ [ArgInt n]) = Some rs \<Longrightarrow>
      rs = map (select_row selectCols) (take (nat n) (sort_key row_pos (filter (\<lambda>r. list_all (cond_holds d r) cs) rows)))"


section \<open>The rows of stored events\<close>

definition row_of :: "Event \<Rightarrow> row" where
  "row_of e = stored_row (ev_ID e) (event_args e)"

text \<open>An event as the table can hold it, of the time a query without bounds covers.\<close>

definition stored_event :: "Event \<Rightarrow> bool" where
  "stored_event e \<longleftrightarrow>
     list_all plain [ev_Datacenter e, ev_ServiceName e, ev_NodeName e, ev_CheckName e, ev_Team e, ev_App e, ev_Version e, ev_CheckType e] \<and>
     list_all (\<lambda>t. utf8_ok t \<and> ascii t) (ev_Tags e) \<and> ascii (ev_CheckOutput e) \<and> length (ev_CheckOutput e) \<le> maxOutput \<and>
     ev_Time e mod Millisecond = 0 \<and> minTime \<le> ev_Time e \<and>
     0 \<le> sint (ev_Kind e) \<and> sint (ev_Kind e) < 4 \<and>
     0 \<le> sint (OldStatus e) \<and> sint (OldStatus e) < 6 \<and> 0 \<le> sint (NewStatus e) \<and> sint (NewStatus e) < 6"

lemma row_of_cols:
  "text_col (row_of e) ''dc'' = ev_Datacenter e" "text_col (row_of e) ''service_name'' = ev_ServiceName e"
  "text_col (row_of e) ''node_name'' = ev_NodeName e" "text_col (row_of e) ''check_name'' = ev_CheckName e"
  "text_col (row_of e) ''team'' = ev_Team e" "text_col (row_of e) ''app'' = ev_App e"
  "text_col (row_of e) ''version'' = ev_Version e" "text_col (row_of e) ''check_type'' = ev_CheckType e"
  "text_col (row_of e) ''tags'' = tagsJSON (ev_Tags e)"
  "text_col (row_of e) ''check_output'' = truncate_output (ev_CheckOutput e)"
  "int_col (row_of e) ''kind'' = sint (ev_Kind e)" "int_col (row_of e) ''new_status'' = sint (NewStatus e)"
  "int_col (row_of e) ''old_status'' = sint (OldStatus e)" "int_col (row_of e) ''new_healthy'' = ev_NewHealthy e"
  "int_col (row_of e) ''id'' = ev_ID e" "time_col (row_of e) = ev_Time e"
  by (simp_all add: row_of_def stored_row_def insert_columns event_args_def text_col_def int_col_def time_col_def)

lemma row_of_pos [simp]: "row_pos (row_of e) = event_pos e"
  by (simp add: row_pos_def row_of_cols event_pos_def)

lemma row_of_tags: "list_all utf8_ok (ev_Tags e) \<Longrightarrow> row_tags (row_of e) = ev_Tags e"
  using json_array_strings[of "ev_Tags e"] json_array_strings[of "[]"]
  by (cases "ev_Tags e") (simp_all add: row_tags_def row_of_cols tagsJSON_def json_strings_def)

lemma scan_row_of:
  assumes "stored_event e"
  shows "scanEvent (select_row selectCols (row_of e)) = Some e"
proof -
  have "list_all utf8_ok (ev_Tags e)" "truncate_output (ev_CheckOutput e) = ev_CheckOutput e"
    using assms by (auto simp: stored_event_def truncate_output_def list_all_iff)
  then show ?thesis
    using scan_stored_row[of e "ev_ID e"] by (cases e) (simp add: row_of_def)
qed


section \<open>The conditions select what Match selects\<close>

text \<open>Names without their case, as the collation sees them; tags keep it.\<close>

definition fold_event :: "Event \<Rightarrow> Event" where
  "fold_event e = e\<lparr> ev_Datacenter := ToLower (ev_Datacenter e), ev_ServiceName := ToLower (ev_ServiceName e),
     ev_NodeName := ToLower (ev_NodeName e), ev_CheckName := ToLower (ev_CheckName e), ev_Team := ToLower (ev_Team e),
     ev_App := ToLower (ev_App e), ev_Version := ToLower (ev_Version e), ev_CheckType := ToLower (ev_CheckType e) \<rparr>"

definition name_fields :: "string set" where
  "name_fields = {FieldDatacenter, FieldService, FieldNode, FieldCheck, FieldTeam, FieldApp, FieldVersion, FieldCheckType}"

definition fold_filter :: "Filter \<Rightarrow> Filter" where
  "fold_filter f = (if f_Field f \<in> name_fields then f\<lparr> f_Values := map ToLower (f_Values f) \<rparr> else f)"

definition fold_query :: "Query \<Rightarrow> Query" where
  "fold_query q = q\<lparr> q_Datacenter := ToLower (q_Datacenter q), q_Filters := map fold_filter (q_Filters q) \<rparr>"

text \<open>A query of plain text; the check type is compared whole by \<open>Match\<close>, so it asks for no prefix.\<close>

definition plain_query :: "Query \<Rightarrow> bool" where
  "plain_query q \<longleftrightarrow> plain (q_Datacenter q) \<and> ascii (q_Text q) \<and>
     list_all (\<lambda>f. list_all plain (f_Values f) \<and> (f_Field f = FieldCheckType \<longrightarrow> list_all (\<lambda>v. \<not> HasSuffix v ''*'') (f_Values f))) (q_Filters q) \<and>
     q_From q mod Microsecond = 0 \<and> q_To q mod Microsecond = 0 \<and> cur_Time (q_Cursor q) mod Microsecond = 0"

lemma list_all2_key: "list_all2 (\<lambda>c d. f c = f d) a b \<longleftrightarrow> map f a = map f b"
  by (simp add: list.rel_eq[symmetric] list_all2_map1 list_all2_map2)

lemma lower_star: "lower_char c = CHR ''*'' \<longleftrightarrow> c = CHR ''*''"
proof
  assume l: "lower_char c = CHR ''*''"
  show "c = CHR ''*''"
  proof (cases "65 \<le> (of_char c :: nat) \<and> (of_char c :: nat) \<le> 90")
    case True
    then have "(of_char (lower_char c) :: nat) = of_char c + 32"
      by (simp add: lower_char_def)
    then show ?thesis
      using l True by simp
  qed (use l in \<open>auto simp: lower_char_def split: if_splits\<close>)
qed (simp add: lower_char_def)

lemma star_suffix: "HasSuffix v ''*'' \<longleftrightarrow> v \<noteq> [] \<and> last v = CHR ''*''"
  by (cases v rule: rev_cases) (auto simp: HasSuffix_iff)

lemma ToLower_star [simp]: "HasSuffix (ToLower v) ''*'' \<longleftrightarrow> HasSuffix v ''*''"
  unfolding star_suffix by (cases v rule: rev_cases) (simp_all add: ToLower_def lower_star)

lemma ToLower_eq_Nil [simp]: "ToLower s = [] \<longleftrightarrow> s = []"
  by (simp add: ToLower_def)

lemma HasPrefix_lower: "HasPrefix (ToLower s) (ToLower p) \<longleftrightarrow> (\<exists>a b. s = a @ b \<and> ToLower p = ToLower a)"
  unfolding HasPrefix_iff ToLower_def by (auto simp: map_eq_append_conv)

lemma Contains_lower: "Contains (ToLower s) (ToLower t) \<longleftrightarrow> (\<exists>x a y. s = x @ a @ y \<and> ToLower t = ToLower a)"
proof
  assume "Contains (ToLower s) (ToLower t)"
  then obtain x y where "map lower_char s = x @ map lower_char t @ y"
    by (auto simp: Contains_iff ToLower_def)
  then obtain u r where "s = u @ r" "map lower_char r = map lower_char t @ y"
    by (metis map_eq_append_conv)
  then obtain v w where "s = u @ v @ w" "map lower_char v = map lower_char t"
    by (metis map_eq_append_conv)
  then show "\<exists>x a y. s = x @ a @ y \<and> ToLower t = ToLower a"
    unfolding ToLower_def by metis
next
  assume "\<exists>x a y. s = x @ a @ y \<and> ToLower t = ToLower a"
  then show "Contains (ToLower s) (ToLower t)"
    unfolding Contains_iff ToLower_def by (metis map_append)
qed

lemma MatchName_lower:
  "MatchName (ToLower s) (ToLower v) \<longleftrightarrow>
     (if HasSuffix v ''*'' then (\<exists>a b. s = a @ b \<and> ToLower (take (length v - 1) v) = ToLower a) else ToLower s = ToLower v)"
proof -
  have "take (length (ToLower v) - 1) (ToLower v) = ToLower (take (length v - 1) v)"
    by (simp add: ToLower_def take_map)
  then show ?thesis
    unfolding MatchName_def ToLower_star by (simp add: HasPrefix_lower)
qed

lemma ascii_take: "ascii s \<Longrightarrow> ascii (take n s)"
  unfolding ascii_def list_all_iff by (meson in_set_takeD)

lemma plain_ascii: "plain s \<Longrightarrow> ascii s"
  by (simp add: plain_def)

lemma sint_inj: "sint a = sint b \<longleftrightarrow> a = b" for a b :: "8 word"
proof
  assume "sint a = sint b"
  then have "word_of_int (sint a) = (word_of_int (sint b) :: 8 word)"
    by (rule arg_cong)
  then show "a = b"
    by simp
qed simp

lemma enum_member:
  "v \<in> set kindNames \<Longrightarrow> 0 \<le> sint k \<Longrightarrow> sint k < 4 \<Longrightarrow> sint k = sint (fst (ParseKind v)) \<longleftrightarrow> Kind_String k = v"
  "v \<in> set statusNames \<Longrightarrow> 0 \<le> sint s \<Longrightarrow> sint s < 6 \<Longrightarrow> sint s = sint (fst (ParseStatus v)) \<longleftrightarrow> Status_String s = v"
  unfolding sint_inj
  using ParseKind_String[of k] Kind_String_Parse(2)[of v] ParseStatus_String[of s] Status_String_Parse(2)[of v]
  by auto

text \<open>The columns of the name fields.\<close>

lemma name_columns:
  "field \<in> name_fields \<Longrightarrow> map_get [] columns field \<in>
     {''dc'', ''service_name'', ''node_name'', ''check_name'', ''team'', ''app'', ''version'', ''check_type''}"
  by (auto simp: name_fields_def columns_def map_get_def)

lemma fold_matchOne:
  assumes "field \<in> name_fields" "field \<noteq> FieldCheckType \<or> \<not> HasSuffix v ''*''"
  shows "matchOne field (fold_event e) (ToLower v) \<longleftrightarrow>
    MatchName (ToLower (text_col (row_of e) (map_get [] columns field))) (ToLower v)"
  using assms by (auto simp: name_fields_def columns_def map_get_def matchOne_def fold_event_def row_of_cols MatchName_plain)

lemma stored_name:
  assumes "stored_event e" "field \<in> name_fields"
  shows "plain (text_col (row_of e) (map_get [] columns field))"
  using assms by (auto simp: name_fields_def columns_def map_get_def row_of_cols stored_event_def)

lemma less_1000: "a mod 1000 = 0 \<Longrightarrow> b mod 1000 = 0 \<Longrightarrow> a < b \<Longrightarrow> a + 1000 \<le> b" for a b :: int
proof (rule ccontr)
  assume "a mod 1000 = 0" "b mod 1000 = 0" "a < b" "\<not> a + 1000 \<le> b"
  moreover from this have "1000 dvd b - a"
    by (intro dvd_diff) (simp_all add: mod_eq_0_iff_dvd)
  ultimately show False
    using zdvd_not_zless[of "b - a" 1000] by linarith
qed

lemma whole_millisecond: "t mod Millisecond = 0 \<Longrightarrow> t mod Microsecond = 0" for t :: int
  by (rule dvd_imp_mod_0[OF dvd_trans[of _ Millisecond]]) (simp_all add: mod_eq_0_iff_dvd)

context event_table
begin

lemma atom_name:
  assumes "\<And>c d. eqc c d \<longleftrightarrow> lower_char c = lower_char d"
    and "stored_event e" "field \<in> name_fields" "plain v" "field \<noteq> FieldCheckType \<or> \<not> HasSuffix v ''*''"
  shows "atom_holds d (row_of e) (value_atom field v) \<longleftrightarrow> matchOne field (fold_event e) (ToLower v)"
proof -
  let ?s = "text_col (row_of e) (map_get [] columns field)"
  have s: "plain ?s"
    using assms(2,3) by (rule stored_name)
  have key: "list_all2 eqc a b \<longleftrightarrow> ToLower a = ToLower b" for a b
    unfolding assms(1)[abs_def] ToLower_def by (rule list_all2_key)
  have "field \<noteq> FieldTag"
    using assms(3) by (auto simp: name_fields_def)
  then have "atom_holds d (row_of e) (value_atom field v) \<longleftrightarrow>
      (if HasSuffix v ''*'' then d_like d (escapeLike (take (length v - 1) v) @ ''%'') ?s else d_same d ?s v)"
    by (simp add: value_atom_def Let_def)
  also have "\<dots> \<longleftrightarrow> MatchName (ToLower ?s) (ToLower v)"
    unfolding MatchName_lower
    using same[OF s assms(4)] names.like_prefix[OF ascii_take[OF plain_ascii[OF assms(4)]] plain_ascii[OF s]] key by auto
  also have "\<dots> \<longleftrightarrow> matchOne field (fold_event e) (ToLower v)"
    using fold_matchOne[OF assms(3,5)] by simp
  finally show ?thesis .
qed

lemma atom_tag:
  assumes "stored_event e" "plain v"
  shows "atom_holds d (row_of e) (value_atom FieldTag v) \<longleftrightarrow> matchOne FieldTag e v"
proof -
  have tags: "row_tags (row_of e) = ev_Tags e" "list_all ascii (ev_Tags e)"
    using assms(1) row_of_tags[of e] by (auto simp: stored_event_def list_all_iff)
  have "d_tag_like d (escapeLike (take (length v - 1) v) @ ''%'') t \<longleftrightarrow> HasPrefix t (take (length v - 1) v)" if "t \<in> set (ev_Tags e)" for t
    using tags.like_prefix[OF ascii_take[OF plain_ascii[OF assms(2)]], of t] tags(2) that
    by (auto simp: HasPrefix_iff list_all_iff list.rel_eq)
  then show ?thesis
    by (auto simp: value_atom_def Let_def matchOne_def tags MatchName_def list_ex_iff)
qed

lemma filter_holds:
  assumes "\<And>c d. eqc c d \<longleftrightarrow> lower_char c = lower_char d"
    and "stored_event e" "Filter_Validate f = None" "list_all plain (f_Values f)"
    and "f_Field f = FieldCheckType \<longrightarrow> list_all (\<lambda>v. \<not> HasSuffix v ''*'') (f_Values f)"
  shows "cond_holds d (row_of e) (filter_cond f) \<longleftrightarrow> Filter_match (fold_filter f) (fold_event e) \<noteq> f_Not f"
proof -
  have vals: "f_Field f \<in> set Fields" "\<And>v. v \<in> set (f_Values f) \<Longrightarrow> value_ok (f_Field f) v"
    using assms(3) by (auto simp: Filter_Validate_value_ok list_all_iff)
  have e: "0 \<le> sint (ev_Kind e)" "sint (ev_Kind e) < 4" "0 \<le> sint (OldStatus e)" "sint (OldStatus e) < 6"
    "0 \<le> sint (NewStatus e)" "sint (NewStatus e) < 6"
    using assms(2) by (simp_all add: stored_event_def)
  have same_status: "NewStatus (fold_event e) = NewStatus e" "OldStatus (fold_event e) = OldStatus e"
    by (simp_all add: fold_event_def NewStatus_def OldStatus_def)
  consider (enum) "f_Field f \<in> {FieldKind, FieldTo, FieldFrom, FieldHealthy}" | (tag) "f_Field f = FieldTag"
    | (name) "f_Field f \<in> name_fields"
    using vals(1) by (auto simp: Fields_def name_fields_def)
  then show ?thesis
  proof cases
    case enum
    then have fold: "fold_filter f = f"
      by (auto simp: fold_filter_def name_fields_def)
    have one: "int_col (row_of e) (map_get [] columns (f_Field f)) = enumValue (f_Field f) v \<longleftrightarrow> matchOne (f_Field f) (fold_event e) v"
      if "v \<in> set (f_Values f)" for v
      using enum vals(2)[OF that] enum_member(1)[of v "ev_Kind e"] enum_member(2)[of v "OldStatus e"] enum_member(2)[of v "NewStatus e"] e
      by (auto simp: columns_def map_get_def row_of_cols enumValue_def matchOne_def value_ok_def same_status)
        (auto simp: fold_event_def split: option.splits)
    have "int_col (row_of e) (map_get [] columns (f_Field f)) \<in> enumValue (f_Field f) ` set (f_Values f) \<longleftrightarrow>
        list_ex (matchOne (f_Field f) (fold_event e)) (f_Values f)"
      using one by (auto simp: list_ex_iff)
    then show ?thesis
      using enum by (auto simp: filter_cond_def Filter_match_def fold)
  next
    case tag
    have "list_ex (atom_holds d (row_of e)) (map (value_atom FieldTag) (f_Values f)) \<longleftrightarrow> list_ex (matchOne FieldTag (fold_event e)) (f_Values f)"
      using atom_tag[OF assms(2)] assms(4) by (auto simp: list_ex_iff list_all_iff matchOne_def fold_event_def)
    then show ?thesis
      using tag by (simp add: filter_cond_def Filter_match_def fold_filter_def name_fields_def)
  next
    case name
    then have "f_Field f \<notin> {FieldKind, FieldTo, FieldFrom, FieldHealthy}"
      by (auto simp: name_fields_def)
    moreover have "list_ex (atom_holds d (row_of e)) (map (value_atom (f_Field f)) (f_Values f)) \<longleftrightarrow>
        list_ex (matchOne (f_Field f) (fold_event e)) (map ToLower (f_Values f))"
      using atom_name[OF assms(1,2) name] assms(4,5) by (auto simp: list_ex_iff list_all_iff)
    ultimately show ?thesis
      using name by (simp add: filter_cond_def Filter_match_def fold_filter_def)
  qed
qed

lemma text_holds:
  assumes "\<And>c d. eqc c d \<longleftrightarrow> lower_char c = lower_char d" "stored_event e" "ascii t"
  shows "cond_holds d (row_of e) (TextLike (''%'' @ escapeLike t @ ''%'')) \<longleftrightarrow> match_text (fold_event e) t"
proof -
  have key: "list_all2 eqc a b \<longleftrightarrow> ToLower a = ToLower b" for a b
    unfolding assms(1)[abs_def] ToLower_def by (rule list_all2_key)
  have like: "d_like d (''%'' @ escapeLike t @ ''%'') s \<longleftrightarrow> Contains (ToLower s) (ToLower t)" if "ascii s" for s
    using names.like_infix[OF assms(3) that] by (simp only: key Contains_lower)
  have "ascii (ev_CheckOutput e)" "ascii (ev_ServiceName e)" "ascii (ev_NodeName e)" "ascii (ev_CheckName e)"
    and cut: "truncate_output (ev_CheckOutput e) = ev_CheckOutput e"
    using assms(2) by (auto simp: stored_event_def truncate_output_def plain_def)
  then show ?thesis
    unfolding cond_holds.simps row_of_cols cut
    by (simp only: like) (simp add: match_text_def fold_event_def Let_def)
qed

lemma time_sent:
  assumes "t mod Microsecond = 0"
  shows "d_sent d t = t"
proof -
  have "d_sent d t mod 1000 = 0" "t - 1000 < d_sent d t" "d_sent d t < t + 1000"
    using sent[of t] by simp_all
  then show ?thesis
    using assms less_1000[of t "d_sent d t"] less_1000[of "d_sent d t" t] by linarith
qed

text \<open>A time of whole microseconds that is not later than \<open>b\<close> is not later than what is sent.\<close>

lemma time_before_sent: "t mod Microsecond = 0 \<Longrightarrow> t \<le> b \<Longrightarrow> t \<le> d_sent d b"
proof -
  assume "t mod Microsecond = 0" "t \<le> b"
  moreover have "d_sent d b mod 1000 = 0" "b - 1000 < d_sent d b"
    using sent[of b] by simp_all
  ultimately show ?thesis
    using less_1000[of "d_sent d b" t] by linarith
qed

lemma bounds_hold:
  assumes "stored_event e" "q_From q mod Microsecond = 0" "q_To q mod Microsecond = 0" "IsZero (q_To q) \<Longrightarrow> ev_Time e \<le> now"
  shows "cond_holds d (row_of e) (TimeBetween (fst (bounds q now)) (snd (bounds q now))) \<longleftrightarrow>
    (IsZero (q_From q) \<or> q_From q \<le> ev_Time e) \<and> (IsZero (q_To q) \<or> ev_Time e \<le> q_To q)"
proof -
  have e: "ev_Time e mod Millisecond = 0" "minTime \<le> ev_Time e"
    using assms(1) by (simp_all add: stored_event_def)
  have micro: "ev_Time e mod Microsecond = 0"
    by (rule whole_millisecond[OF e(1)])
  have zero: "zero_time < minTime" "minTime mod Microsecond = 0"
    by (simp_all add: minTime_def Date_def date_days_def year_start_def epoch_days_def zero_time_def)
  have low: "d_sent d (fst (bounds q now)) \<le> ev_Time e \<longleftrightarrow> IsZero (q_From q) \<or> q_From q \<le> ev_Time e"
    using e(2) zero assms(2) time_sent[of "q_From q"] time_sent[of minTime]
    by (auto simp: bounds_def Let_def IsZero_def)
  have high: "ev_Time e \<le> d_sent d (snd (bounds q now)) \<longleftrightarrow> IsZero (q_To q) \<or> ev_Time e \<le> q_To q"
    using time_before_sent[OF micro] assms(4) time_sent[OF assms(3)] by (auto simp: bounds_def Let_def)
  show ?thesis
    unfolding cond_holds.simps row_of_cols low high ..
qed

lemma query_holds:
  assumes "\<And>c d. eqc c d \<longleftrightarrow> lower_char c = lower_char d"
    and "stored_event e" "Query_Validate q = None" "plain_query q" "IsZero (q_To q) \<Longrightarrow> ev_Time e \<le> now"
  shows "list_all (cond_holds d (row_of e)) (query_conds q now) \<longleftrightarrow> Match (fold_event e) (fold_query q)"
proof -
  have q: "plain (q_Datacenter q)" "ascii (q_Text q)" "q_From q mod Microsecond = 0" "q_To q mod Microsecond = 0"
    using assms(4) by (simp_all add: plain_query_def)
  have dc: "cond_holds d (row_of e) (DcIs (q_Datacenter q)) \<longleftrightarrow> ToLower (ev_Datacenter e) = ToLower (q_Datacenter q)"
    using same[of "ev_Datacenter e" "q_Datacenter q"] q(1) assms(2)
    unfolding assms(1)[abs_def] list_all2_key by (simp add: row_of_cols stored_event_def ToLower_def)
  have fs: "list_all (cond_holds d (row_of e)) (map filter_cond (q_Filters q)) \<longleftrightarrow>
      list_all (\<lambda>f. Filter_match f (fold_event e) \<noteq> f_Not f) (map fold_filter (q_Filters q))"
    using filter_holds[OF assms(1,2)] assms(3,4)
    by (auto simp: list_all_iff Query_Validate_None_iff plain_query_def fold_filter_def)
  have e: "ev_Datacenter (fold_event e) = ToLower (ev_Datacenter e)" "ev_Time (fold_event e) = ev_Time e"
    by (simp_all add: fold_event_def)
  have "list_all (cond_holds d (row_of e)) (query_conds q now) \<longleftrightarrow>
      cond_holds d (row_of e) (TimeBetween (fst (bounds q now)) (snd (bounds q now))) \<and>
      (q_Datacenter q = [] \<or> cond_holds d (row_of e) (DcIs (q_Datacenter q))) \<and>
      list_all (cond_holds d (row_of e)) (map filter_cond (q_Filters q)) \<and>
      (q_Text q = [] \<or> cond_holds d (row_of e) (TextLike (''%'' @ escapeLike (q_Text q) @ ''%'')))"
    unfolding query_conds_def list_all_append list.pred_inject
    by (cases "q_Datacenter q = []"; cases "q_Text q = []") (simp_all del: cond_holds.simps)
  also have "\<dots> \<longleftrightarrow>
      ((IsZero (q_From q) \<or> q_From q \<le> ev_Time e) \<and> (IsZero (q_To q) \<or> ev_Time e \<le> q_To q)) \<and>
      (q_Datacenter q = [] \<or> ToLower (ev_Datacenter e) = ToLower (q_Datacenter q)) \<and>
      list_all (\<lambda>f. Filter_match f (fold_event e) \<noteq> f_Not f) (map fold_filter (q_Filters q)) \<and>
      (q_Text q = [] \<or> match_text (fold_event e) (q_Text q))"
    using bounds_hold[OF assms(2) q(3,4) assms(5)] dc fs text_holds[OF assms(1,2) q(2)] by (simp only: simp_thms)
  also have "\<dots> \<longleftrightarrow> Match (fold_event e) (fold_query q)"
    unfolding Match_iff e fold_query_def by (simp add: conj_ac)
  finally show ?thesis .
qed

end


section \<open>The page\<close>

lemma insort_key_map: "insort_key f (g x) (map g xs) = map g (insort_key (\<lambda>x. f (g x)) x xs)"
  by (induction xs) simp_all

lemma sort_key_map: "sort_key f (map g xs) = map g (sort_key (\<lambda>x. f (g x)) xs)"
  by (induction xs) (simp_all add: insort_key_map)

lemma query_conds_wf:
  assumes "Query_Validate q = None"
  shows "list_all cond_wf (query_conds q now)"
proof -
  have "cond_wf (filter_cond f)" if f: "Filter_Validate f = None" for f
  proof -
    have vals: "f_Field f \<in> set Fields" "f_Values f \<noteq> []"
      using f by (auto simp: Filter_Validate_value_ok)
    consider (enum) "f_Field f \<in> {FieldKind, FieldTo, FieldFrom, FieldHealthy}" | (tag) "f_Field f = FieldTag"
      | (name) "f_Field f \<in> name_fields"
      using vals(1) by (auto simp: Fields_def name_fields_def)
    then show ?thesis
    proof cases
      case enum
      then show ?thesis
        using vals(2) by (auto simp: filter_cond_def cond_wf_def columns_def map_get_def)
    next
      case tag
      then show ?thesis
        using vals(2) by (auto simp: filter_cond_def cond_wf_def value_atom_def Let_def atom_wf_def list_all_iff)
    next
      case name
      then have "f_Field f \<notin> {FieldKind, FieldTo, FieldFrom, FieldHealthy, FieldTag}"
        by (auto simp: name_fields_def)
      moreover have "atom_wf (value_atom (f_Field f) v)" for v
        using name_columns[OF name] calculation by (simp add: value_atom_def Let_def atom_wf_def)
      ultimately show ?thesis
        using vals(2) by (simp add: filter_cond_def cond_wf_def list_all_iff)
    qed
  qed
  then have "list_all cond_wf (map filter_cond (q_Filters q))"
    using assms by (simp add: Query_Validate_None_iff list_all_iff)
  then show ?thesis
    by (simp add: query_conds_def cond_wf_def)
qed

text \<open>The events a query selects after its cursor, newest first.\<close>

definition selected :: "Query \<Rightarrow> Event list \<Rightarrow> Event list" where
  "selected q es = sort_key event_pos
     (filter (\<lambda>e. Match (fold_event e) (fold_query q) \<and> (Cursor_IsZero (q_Cursor q) \<or> q_Cursor q < event_pos e)) es)"

definition page_of :: "nat \<Rightarrow> Event list \<Rightarrow> Page" where
  "page_of n rest =
     (if length rest > n then \<lparr> pg_Events = take n rest, pg_Next = event_pos (rest ! (n - 1)), pg_HasMore = True \<rparr>
      else \<lparr> pg_Events = rest, pg_Next = zero_cursor, pg_HasMore = False \<rparr>)"

lemma scan_stored_rows: "list_all stored_event es \<Longrightarrow> scan_rows (map (select_row selectCols) (map row_of es)) = Some es"
proof -
  assume "list_all stored_event es"
  then have "map scanEvent (map (select_row selectCols) (map row_of es)) = map Some es"
    by (auto simp: list_all_iff scan_row_of)
  moreover have "all_some (map Some es) = Some es"
    by (induction es) simp_all
  ultimately show ?thesis
    by (simp only: scan_rows_def)
qed

text \<open>The conditions of the statement of a page.\<close>

definition page_conds :: "Query \<Rightarrow> Time \<Rightarrow> cond list" where
  "page_conds q now = query_conds q now @
     (if Cursor_IsZero (q_Cursor q) then [] else [BeforeRow (cur_Time (q_Cursor q)) (cur_ID (q_Cursor q))])"

lemma page_conds_wf: "Query_Validate q = None \<Longrightarrow> page_conds q now \<noteq> [] \<and> list_all cond_wf (page_conds q now)"
  using query_conds_wf by (auto simp: page_conds_def query_conds_def cond_wf_def)

lemma Mysql_Events_eq:
  assumes "Query_Validate q = None"
  shows "Mysql_Events query now q =
    (let limit = clampLimit (q_Limit q)
     in case query (events_select (where_text (page_conds q now))) (where_args (page_conds q now) @ [ArgInt (limit + 1)]) of
       None \<Rightarrow> Inl MyQuery
     | Some rows \<Rightarrow> (case scan_rows rows of None \<Rightarrow> Inl MyScan | Some events \<Rightarrow> Inr (page_of (nat limit) events)))"
proof -
  let ?c = "q_Cursor q"
  have "map cond_text (query_conds q now) \<noteq> []"
    by (simp add: query_conds_def)
  then have sql: "(if \<not> Cursor_IsZero ?c then (where_text (query_conds q now) @ '' AND (time < ? OR (time = ? AND id < ?))'',
        where_args (query_conds q now) @ [ArgTime (cur_Time ?c), ArgTime (cur_Time ?c), ArgInt (cur_ID ?c)])
      else (where_text (query_conds q now), where_args (query_conds q now))) =
    (where_text (page_conds q now), where_args (page_conds q now))"
    by (simp add: page_conds_def where_text_def where_args_def Join_snoc)
  have n: "0 < clampLimit (q_Limit q)"
    by (simp add: clampLimit_def defaultLimit_def maxLimit_def)
  have cut: "(if int (length events) > limit then let events = take (nat limit) events; lst = events ! nat (limit - 1)
        in Inr \<lparr> pg_Events = events, pg_Next = Cursor (ev_Time lst) (ev_ID lst), pg_HasMore = True \<rparr>
      else Inr \<lparr> pg_Events = events, pg_Next = zero_cursor, pg_HasMore = False \<rparr>) = Inr (page_of (nat limit) events)"
    if "0 < limit" for limit and events :: "Event list"
    using that by (auto simp: page_of_def event_pos_def Let_def nat_diff_distrib)
  show ?thesis
    unfolding Mysql_Events_def assms option.case buildWhere_conds Let_def[of "q_Cursor q"] Let_def[of "clampLimit (q_Limit q)"]
      Let_def[of "(_, _)"] prod.case sql events_select_def[symmetric] cut[OF n] ..
qed

context event_table
begin

lemma events_page:
  assumes "\<And>c d. eqc c d \<longleftrightarrow> lower_char c = lower_char d" "rows = map row_of es" "list_all stored_event es"
    and "Query_Validate q = None" "plain_query q" "\<And>e. IsZero (q_To q) \<Longrightarrow> e \<in> set es \<Longrightarrow> ev_Time e \<le> now"
    and "Mysql_Events query now q = r"
  shows "r = Inl MyQuery \<or> r = Inr (page_of (nat (clampLimit (q_Limit q))) (selected q es))"
proof -
  let ?c = "q_Cursor q" and ?n = "clampLimit (q_Limit q)"
  define cs where "cs = page_conds q now"
  have n: "0 < ?n"
    by (simp add: clampLimit_def defaultLimit_def maxLimit_def)
  have wf: "cs \<noteq> []" "list_all cond_wf cs"
    using page_conds_wf[OF assms(4)] by (simp_all add: cs_def)
  note page = Mysql_Events_eq[OF assms(4), of query now, folded cs_def]
  have holds: "list_all (cond_holds d (row_of e)) cs \<longleftrightarrow> Match (fold_event e) (fold_query q) \<and> (Cursor_IsZero ?c \<or> ?c < event_pos e)"
    if e: "e \<in> set es" for e
  proof -
    have "cond_holds d (row_of e) (BeforeRow (cur_Time ?c) (cur_ID ?c)) \<longleftrightarrow> ?c < event_pos e"
      using time_sent[of "cur_Time ?c"] assms(5) by (auto simp: plain_query_def row_of_cols less_Cursor_def event_pos_def)
    moreover have "list_all (cond_holds d (row_of e)) (query_conds q now) \<longleftrightarrow> Match (fold_event e) (fold_query q)"
      using query_holds[OF assms(1) _ assms(4,5)] e assms(3,6) by (simp add: list_all_iff)
    ultimately show ?thesis
      by (simp add: cs_def page_conds_def del: cond_holds.simps)
  qed
  show ?thesis
  proof (cases "query (events_select (where_text cs)) (where_args cs @ [ArgInt (?n + 1)])")
    case None
    then show ?thesis
      using assms(7) page by (simp add: Let_def)
  next
    case (Some rs)
    have "filter (\<lambda>r. list_all (cond_holds d r) cs) rows = map row_of
        (filter (\<lambda>e. Match (fold_event e) (fold_query q) \<and> (Cursor_IsZero ?c \<or> ?c < event_pos e)) es)"
      unfolding assms(2) filter_map comp_def by (intro arg_cong[of _ _ "map row_of"] filter_cong refl holds)
    then have "sort_key row_pos (filter (\<lambda>r. list_all (cond_holds d r) cs) rows) = map row_of (selected q es)"
      by (simp add: sort_key_map selected_def)
    then have "rs = map (select_row selectCols) (map row_of (take (nat (?n + 1)) (selected q es)))"
      using select[OF wf Some] by (simp add: take_map)
    moreover have "list_all stored_event (take (nat (?n + 1)) (selected q es))"
      using assms(3) by (auto simp: list_all_iff selected_def dest!: in_set_takeD)
    ultimately have scan: "scan_rows rs = Some (take (nat (?n + 1)) (selected q es))"
      using scan_stored_rows by simp
    have "page_of (nat ?n) (take (nat (?n + 1)) xs) = page_of (nat ?n) xs" for xs
      using n by (auto simp: page_of_def min_def nat_add_distrib)
    then show ?thesis
      using assms(7) page by (simp add: Let_def Some scan)
  qed
qed

end

end
