(* ===== verification/MysqlServer.thy ===== *)
theory MysqlServer
  imports MysqlSelect
begin

text \<open>
  A server in memory: it reads the conditions back from the text of a statement and its
  arguments, so a clause the program writes has one meaning, and it provides the contract of the
  event table. The properties of the reads of \<open>storage/mysql\<close> are here.
\<close>


section \<open>Reading a clause\<close>

fun eat :: "string \<Rightarrow> string \<Rightarrow> string option" where
  "eat [] s = Some s"
| "eat (c # p) [] = None"
| "eat (c # p) (d # s) = (if c = d then eat p s else None)"

lemma eat_append [simp]: "eat p (p @ s) = Some s"
  by (induction p) simp_all

definition name_columns_list :: "string list" where
  "name_columns_list = [''dc'', ''service_name'', ''node_name'', ''check_name'', ''team'', ''app'', ''version'', ''check_type'']"

definition int_columns_list :: "string list" where
  "int_columns_list = [''kind'', ''new_status'', ''old_status'', ''new_healthy'']"

fun read_column :: "string list \<Rightarrow> string \<Rightarrow> string \<Rightarrow> (atom \<times> string) option" where
  "read_column [] s v = None"
| "read_column (c # cs) s v =
     (case eat (c @ '' = ?'') s of
        Some r \<Rightarrow> Some (Is c v, r)
      | None \<Rightarrow> (case eat (c @ '' LIKE ?'') s of Some r \<Rightarrow> Some (Like c v, r) | None \<Rightarrow> read_column cs s v))"

definition read_atom :: "string \<Rightarrow> string \<Rightarrow> (atom \<times> string) option" where
  "read_atom s v =
     (case eat (atom_text (TagLike v)) s of
        Some r \<Rightarrow> Some (TagLike v, r)
      | None \<Rightarrow> (case eat (atom_text (TagHas v)) s of Some r \<Rightarrow> Some (TagHas v, r) | None \<Rightarrow> read_column name_columns_list s v))"

fun read_atoms :: "string \<Rightarrow> sqlarg list \<Rightarrow> (atom list \<times> string \<times> sqlarg list) option" where
  "read_atoms s (ArgStr v # args) =
     (case read_atom s v of
        None \<Rightarrow> None
      | Some (a, r) \<Rightarrow>
          (case eat '' OR '' r of
             Some r \<Rightarrow> map_option (\<lambda>(atoms, r, args). (a # atoms, r, args)) (read_atoms r args)
           | None \<Rightarrow> (case eat '')'' r of Some r \<Rightarrow> Some ([a], r, args) | None \<Rightarrow> None)))"
| "read_atoms s _ = None"

fun read_ints :: "string \<Rightarrow> sqlarg list \<Rightarrow> (int list \<times> string \<times> sqlarg list) option" where
  "read_ints s (ArgInt i # args) =
     (case eat ''?,'' s of
        Some r \<Rightarrow> map_option (\<lambda>(is, r, args). (i # is, r, args)) (read_ints r args)
      | None \<Rightarrow> (case eat ''?)'' s of Some r \<Rightarrow> Some ([i], r, args) | None \<Rightarrow> None))"
| "read_ints s _ = None"

fun read_in :: "string list \<Rightarrow> bool \<Rightarrow> string \<Rightarrow> sqlarg list \<Rightarrow> (cond \<times> string \<times> sqlarg list) option" where
  "read_in [] n s args = None"
| "read_in (c # cs) n s args =
     (case eat (c @ '' IN ('') s of
        Some r \<Rightarrow> map_option (\<lambda>(is, r, args). (InList n c is, r, args)) (read_ints r args)
      | None \<Rightarrow> read_in cs n s args)"

definition read_group :: "bool \<Rightarrow> string \<Rightarrow> sqlarg list \<Rightarrow> (cond \<times> string \<times> sqlarg list) option" where
  "read_group n s args =
     (case eat ''('' s of
        Some r \<Rightarrow> map_option (\<lambda>(atoms, r, args). (AnyOf n atoms, r, args)) (read_atoms r args)
      | None \<Rightarrow> read_in int_columns_list n s args)"

definition read_cond :: "string \<Rightarrow> sqlarg list \<Rightarrow> (cond \<times> string \<times> sqlarg list) option" where
  "read_cond s args =
     (case eat (cond_text (TimeBetween 0 0)) s of
        Some r \<Rightarrow> (case args of ArgTime a # ArgTime b # args \<Rightarrow> Some (TimeBetween a b, r, args) | _ \<Rightarrow> None)
      | None \<Rightarrow>
      (case eat (cond_text (DcIs [])) s of
        Some r \<Rightarrow> (case args of ArgStr v # args \<Rightarrow> Some (DcIs v, r, args) | _ \<Rightarrow> None)
      | None \<Rightarrow>
      (case eat (cond_text (TextLike [])) s of
        Some r \<Rightarrow> (case args of ArgStr p # _ # _ # _ # args \<Rightarrow> Some (TextLike p, r, args) | _ \<Rightarrow> None)
      | None \<Rightarrow>
      (case eat (cond_text (BeforeRow 0 0)) s of
        Some r \<Rightarrow> (case args of ArgTime t # _ # ArgInt i # args \<Rightarrow> Some (BeforeRow t i, r, args) | _ \<Rightarrow> None)
      | None \<Rightarrow>
      (case eat ''NOT '' s of Some r \<Rightarrow> read_group True r args | None \<Rightarrow> read_group False s args)))))"

fun read_conds :: "nat \<Rightarrow> string \<Rightarrow> sqlarg list \<Rightarrow> (cond list \<times> string \<times> sqlarg list) option" where
  "read_conds 0 s args = None"
| "read_conds (Suc n) s args =
     (case read_cond s args of
        None \<Rightarrow> None
      | Some (c, r, args) \<Rightarrow>
          (case eat '' AND '' r of
             Some r \<Rightarrow> map_option (\<lambda>(cs, r, args). (c # cs, r, args)) (read_conds n r args)
           | None \<Rightarrow> Some ([c], r, args)))"


section \<open>What is written is read back\<close>

lemma read_atom_text:
  assumes "atom_wf a"
  shows "\<exists>v. atom_arg a = ArgStr v \<and> read_atom (atom_text a @ r) v = Some (a, r)"
proof (cases a)
  case (Is c v)
  then have "c \<in> set name_columns_list"
    using assms by (auto simp: atom_wf_def name_columns_list_def)
  then show ?thesis
    by (auto simp: Is read_atom_def name_columns_list_def)
next
  case (Like c v)
  then have "c \<in> set name_columns_list"
    using assms by (auto simp: atom_wf_def name_columns_list_def)
  then show ?thesis
    by (auto simp: Like read_atom_def name_columns_list_def)
qed (simp_all add: read_atom_def)

lemma read_atoms_text:
  "atoms \<noteq> [] \<Longrightarrow> list_all atom_wf atoms \<Longrightarrow>
   read_atoms (Join (map atom_text atoms) '' OR '' @ '')'' @ r) (map atom_arg atoms @ args) = Some (atoms, r, args)"
proof (induction atoms rule: induct_list012)
  case (2 a)
  then obtain v where "atom_arg a = ArgStr v" "read_atom (atom_text a @ CHR '')'' # r) v = Some (a, CHR '')'' # r)"
    using read_atom_text[of a "CHR '')'' # r"] by auto
  then show ?case
    by simp
next
  case (3 a b atoms)
  let ?rest = "'' OR '' @ Join (map atom_text (b # atoms)) '' OR '' @ '')'' @ r"
  obtain v where "atom_arg a = ArgStr v" "read_atom (atom_text a @ ?rest) v = Some (a, ?rest)"
    using read_atom_text[of a ?rest] 3 by auto
  then show ?case
    using 3 by simp
qed simp

lemma read_ints_text:
  "is \<noteq> [] \<Longrightarrow> read_ints (Join (map (\<lambda>i. ''?'') is) '','' @ '')'' @ r) (map ArgInt is @ args) = Some (is, r, args)"
  by (induction "is" rule: induct_list012) simp_all

lemma read_in_text:
  "c \<in> set int_columns_list \<Longrightarrow> is \<noteq> [] \<Longrightarrow>
   read_in int_columns_list n (c @ '' IN ('' @ Join (map (\<lambda>i. ''?'') is) '','' @ '')'' @ r) (map ArgInt is @ args) = Some (InList n c is, r, args)"
  using read_ints_text[of "is" r args] by (auto simp: int_columns_list_def)

lemma read_group_any:
  "atoms \<noteq> [] \<Longrightarrow> list_all atom_wf atoms \<Longrightarrow>
   read_group n (''('' @ Join (map atom_text atoms) '' OR '' @ '')'' @ r) (map atom_arg atoms @ args) = Some (AnyOf n atoms, r, args)"
  using read_atoms_text[of atoms r args] by (simp add: read_group_def)

lemma read_group_in:
  "c \<in> set int_columns_list \<Longrightarrow> is \<noteq> [] \<Longrightarrow>
   read_group n (c @ '' IN ('' @ Join (map (\<lambda>i. ''?'') is) '','' @ '')'' @ r) (map ArgInt is @ args) = Some (InList n c is, r, args)"
  using read_in_text[of c "is" n r args] by (auto simp: read_group_def int_columns_list_def)

lemma Join_Cons: "\<exists>t. Join (x # xs) sep = x @ t"
  by (cases xs) auto

lemma group_no_other:
  assumes "atoms \<noteq> []" "list_all atom_wf atoms"
  shows "eat (cond_text (TextLike [])) (''('' @ Join (map atom_text atoms) '' OR '' @ r) = None"
    "eat (cond_text (BeforeRow 0 0)) (''('' @ Join (map atom_text atoms) '' OR '' @ r) = None"
proof -
  obtain a as where atoms: "atoms = a # as" and a: "atom_wf a"
    using assms by (cases atoms) auto
  obtain t where t: "Join (map atom_text atoms) '' OR '' = atom_text a @ t"
    using Join_Cons[of "atom_text a" "map atom_text as"] atoms by auto
  have "eat (cond_text (TextLike [])) (''('' @ atom_text a @ u) = None \<and> eat (cond_text (BeforeRow 0 0)) (''('' @ atom_text a @ u) = None" for u
    using a by (cases a) (auto simp: atom_wf_def)
  then show "eat (cond_text (TextLike [])) (''('' @ Join (map atom_text atoms) '' OR '' @ r) = None"
    "eat (cond_text (BeforeRow 0 0)) (''('' @ Join (map atom_text atoms) '' OR '' @ r) = None"
    unfolding t append_assoc by blast+
qed

lemma read_cond_group:
  assumes "eat (cond_text (TimeBetween 0 0)) s = None" "eat (cond_text (DcIs [])) s = None"
    "eat (cond_text (TextLike [])) s = None" "eat (cond_text (BeforeRow 0 0)) s = None" "eat ''NOT '' s = None"
  shows "read_cond (neg_text n @ s) args = read_group n s args"
proof (cases n)
  case True
  have "eat (cond_text c) (''NOT '' @ s) = None" if "c \<in> {TimeBetween 0 0, DcIs [], TextLike [], BeforeRow 0 0}" for c
    using that by auto
  then show ?thesis
    unfolding read_cond_def neg_text_def by (simp add: True del: cond_text.simps append_Cons)
next
  case False
  then show ?thesis
    using assms by (simp add: read_cond_def neg_text_def del: cond_text.simps)
qed

lemma read_cond_text:
  assumes "cond_wf c"
  shows "read_cond (cond_text c @ r) (cond_args c @ args) = Some (c, r, args)"
proof (cases c)
  case (InList n col "is")
  then have wf: "col \<in> set int_columns_list" "is \<noteq> []"
    using assms by (auto simp: cond_wf_def int_columns_list_def)
  let ?s = "col @ '' IN ('' @ Join (map (\<lambda>i. ''?'') is) '','' @ '')'' @ r"
  have "eat p (col @ u) = None" if "p \<in> {cond_text (TimeBetween 0 0), cond_text (DcIs []), cond_text (TextLike []), cond_text (BeforeRow 0 0), ''NOT ''}" for p u
    using that wf(1) by (auto simp: int_columns_list_def)
  then have "read_cond (neg_text n @ ?s) (map ArgInt is @ args) = read_group n ?s (map ArgInt is @ args)"
    by (intro read_cond_group) blast+
  then show ?thesis
    using read_group_in[OF wf, of n r args] by (simp add: InList)
next
  case (AnyOf n atoms)
  then have wf: "atoms \<noteq> []" "list_all atom_wf atoms"
    using assms by (auto simp: cond_wf_def)
  let ?s = "''('' @ Join (map atom_text atoms) '' OR '' @ '')'' @ r"
  have "read_cond (neg_text n @ ?s) (map atom_arg atoms @ args) = read_group n ?s (map atom_arg atoms @ args)"
    using group_no_other[OF wf] by (intro read_cond_group) simp_all
  then show ?thesis
    using read_group_any[OF wf, of n r args] by (simp add: AnyOf)
qed (simp_all add: read_cond_def)

lemma read_conds_text:
  "cs \<noteq> [] \<Longrightarrow> list_all cond_wf cs \<Longrightarrow> length cs \<le> n \<Longrightarrow> eat '' AND '' r = None \<Longrightarrow>
   read_conds n (where_text cs @ r) (where_args cs @ args) = Some (cs, r, args)"
proof (induction cs arbitrary: n rule: induct_list012)
  case (2 c)
  then obtain m where "n = Suc m"
    by (cases n) auto
  then show ?case
    using 2 read_cond_text[of c r args] by (simp add: where_text_def where_args_def)
next
  case (3 c c' cs)
  then obtain m where n: "n = Suc m"
    by (cases n) auto
  have "where_text (c # c' # cs) @ r = cond_text c @ '' AND '' @ where_text (c' # cs) @ r"
    "where_args (c # c' # cs) @ args = cond_args c @ where_args (c' # cs) @ args"
    by (simp_all add: where_text_def where_args_def)
  then show ?case
    using 3 n read_cond_text[of c "'' AND '' @ where_text (c' # cs) @ r" "where_args (c' # cs) @ args"] by simp
qed simp

lemma where_text_long: "length cs \<le> length (where_text cs @ r)"
proof -
  have one: "0 < length (cond_text c)" for c
    by (cases c) simp_all
  have "length cs \<le> length (where_text cs)"
  proof (induction cs rule: induct_list012)
    case (2 c)
    then show ?case
      using one[of c] by (cases "cond_text c") (simp_all add: where_text_def)
  next
    case (3 c c' cs)
    then show ?case
      by (simp add: where_text_def)
  qed simp
  then show ?thesis
    by simp
qed


section \<open>The server\<close>

definition list_query :: "Dialect \<Rightarrow> row list \<Rightarrow> string \<Rightarrow> sqlarg list \<Rightarrow> sqlarg list list option" where
  "list_query d rows sql args =
     (case eat (''SELECT '' @ selectCols @ '' FROM events_v2 WHERE '') sql of
        None \<Rightarrow> None
      | Some r \<Rightarrow>
          (case read_conds (length r) r args of
             Some (cs, rest, [ArgInt n]) \<Rightarrow>
               if rest = '' ORDER BY time DESC, id DESC LIMIT ?'' then
                 Some (map (select_row selectCols) (take (nat n) (sort_key row_pos (filter (\<lambda>r. list_all (cond_holds d r) cs) rows))))
               else None
           | _ \<Rightarrow> None))"

text \<open>Trailing spaces are ignored by the equality, as in the collations of MariaDB.\<close>

definition trim_right :: "string \<Rightarrow> string" where
  "trim_right s = rev (dropWhile (\<lambda>c. c = CHR '' '') (rev s))"

definition general_ci :: Dialect where
  "general_ci = \<lparr> d_same = (\<lambda>a b. ToLower (trim_right a) = ToLower (trim_right b)), d_like = sql_like lower_char,
     d_tag_like = sql_like (\<lambda>c. c), d_sent = (\<lambda>t. t - t mod Microsecond) \<rparr>"

lemma trim_plain: "plain s \<Longrightarrow> trim_right s = s"
  by (cases s rule: rev_cases) (simp_all add: plain_def trim_right_def)

lemma list_query_select:
  assumes "cs \<noteq> []" "list_all cond_wf cs"
  shows "list_query d rows (events_select (where_text cs)) (where_args cs @ [ArgInt n]) =
    Some (map (select_row selectCols) (take (nat n) (sort_key row_pos (filter (\<lambda>r. list_all (cond_holds d r) cs) rows))))"
proof -
  let ?rest = "'' ORDER BY time DESC, id DESC LIMIT ?''"
  have "events_select (where_text cs) = (''SELECT '' @ selectCols @ '' FROM events_v2 WHERE '') @ where_text cs @ ?rest"
    unfolding events_select_def append_assoc ..
  then have "eat (''SELECT '' @ selectCols @ '' FROM events_v2 WHERE '') (events_select (where_text cs)) = Some (where_text cs @ ?rest)"
    by (simp only: eat_append)
  moreover have "read_conds (length (where_text cs @ ?rest)) (where_text cs @ ?rest) (where_args cs @ [ArgInt n]) = Some (cs, ?rest, [ArgInt n])"
    by (rule read_conds_text[OF assms where_text_long]) simp
  ultimately show ?thesis
    unfolding list_query_def by (simp only: option.case prod.case list.case sqlarg.case if_True simp_thms)
qed

interpretation server: event_table general_ci "\<lambda>c d. lower_char c = lower_char d" "list_query general_ci rows" rows
  for rows
proof (intro event_table.intro event_table_axioms.intro)
  show "like_patterns (d_like general_ci) (\<lambda>c d. lower_char c = lower_char d)" "like_patterns (d_tag_like general_ci) (=)"
    using any_case.like_patterns_axioms binary.like_patterns_axioms by (simp_all add: general_ci_def)
next
  fix a b :: string
  assume "plain a" "plain b"
  then show "d_same general_ci a b \<longleftrightarrow> list_all2 (\<lambda>c d. lower_char c = lower_char d) a b"
    unfolding list_all2_key by (simp add: general_ci_def trim_plain ToLower_def)
next
  fix t :: Time
  show "d_sent general_ci t mod Microsecond = 0 \<and> t - Microsecond < d_sent general_ci t \<and> d_sent general_ci t < t + Microsecond"
    using pos_mod_bound[of 1000 t] pos_mod_sign[of 1000 t] by (simp add: general_ci_def mod_diff_right_eq)
qed (simp_all add: list_query_select)


section \<open>The same answer as the in-memory storage\<close>

lemma page_limit_clamp: "q_Limit q \<le> 1000 \<Longrightarrow> nat (clampLimit (q_Limit q)) = page_limit q"
  by (simp add: clampLimit_def page_limit_def defaultLimit_def maxLimit_def)

lemma selected_rest:
  assumes "mem_ok s" "mset es = mset (ring_log s)" "\<And>e. e \<in> set es \<Longrightarrow> fold_event e = e" "fold_query q = q"
  shows "selected q es = rest_from s q"
proof -
  have m: "matching s q = sort_key event_pos (filter (\<lambda>e. Match e q) es)"
    using assms(2) by (intro matching_unique[OF assms(1)])
      (simp, simp add: sorted_wrt_map[symmetric] not_less sorted_sort_key[unfolded sorted_map])
  have "filter (\<lambda>e. Match (fold_event e) (fold_query q) \<and> (Cursor_IsZero (q_Cursor q) \<or> q_Cursor q < event_pos e)) es =
      filter (\<lambda>e. Cursor_IsZero (q_Cursor q) \<or> q_Cursor q < event_pos e) (filter (\<lambda>e. Match e q) es)"
    using assms(3) by (auto simp: assms(4) intro!: filter_cong)
  then show ?thesis
    by (simp add: selected_def rest_from_def m filter_sort)
qed

lemma Memory_Events_page:
  assumes "mem_ok s" "Query_Validate q = None"
  shows "Memory_Events s q = Inr (page_of (page_limit q) (rest_from s q))"
  using Memory_Events_eq[OF assms] by (simp add: page_of_def Let_def)


section \<open>Properties\<close>

text \<open>
  C9: What \<open>Events\<close> of \<open>storage/mysql\<close> returns. Over every server that honours the contract of the
  event table with a collation that ignores the case of names, a valid query is answered, unless
  the statement fails, with the newest events it selects after its cursor: those \<open>Match\<close> accepts
  once names are compared without case, whatever wildcards, quotes or backslashes the values and
  the text contain. The page has the requested size, 100 by default and 1000 at most, and its
  cursor is the last event shown.
\<close>

theorem mysql_events_exact:
  assumes "event_table d eqc query (map row_of es)" "\<And>c d. eqc c d \<longleftrightarrow> lower_char c = lower_char d"
    and "list_all stored_event es" "Query_Validate q = None" "plain_query q"
    and "\<And>e. IsZero (q_To q) \<Longrightarrow> e \<in> set es \<Longrightarrow> ev_Time e \<le> now"
  shows "Mysql_Events query now q \<in> {Inl MyQuery, Inr (page_of (nat (clampLimit (q_Limit q))) (selected q es))}"
  using event_table.events_page[OF assms(1,2) refl assms(3-6) refl] by simp




section \<open>Witnesses\<close>

text \<open>Two events of a service, stored with a name in capitals, and a query for it in lower case.\<close>

definition shop_event :: "Time \<Rightarrow> string \<Rightarrow> Event" where
  "shop_event t name = zero_event\<lparr> ev_Time := t, ev_Kind := KindNode, ev_ServiceName := name \<rparr>"

definition shop_query :: Query where
  "shop_query = zero_query\<lparr> q_Filters := [\<lparr> f_Field = FieldService, f_Values = [''web''], f_Not = False \<rparr>], q_Limit := 1 \<rparr>"

lemma minTime_value: "minTime = 946684800000000000"
  by (simp add: minTime_def Date_def date_days_def year_start_def epoch_days_def)

lemma plain_web [simp]: "plain ''web''" "plain ''Web''" "plain []"
  by (simp_all add: plain_def)

lemma shop_stored: "t mod Millisecond = 0 \<Longrightarrow> minTime \<le> t \<Longrightarrow> plain name \<Longrightarrow> stored_event (shop_event t name)"
  by (simp add: stored_event_def shop_event_def zero_event_def maxOutput_def OldStatus_def NewStatus_def kind_consts status_consts)

lemma shop_valid: "Query_Validate shop_query = None" "plain_query shop_query"
  by (simp_all add: shop_query_def zero_query_def Query_Validate_def Filter_Validate_def plain_query_def zero_cursor_def zero_time_def)

theorem mysql_events_exact_witness:
  "Mysql_Events (list_query general_ci (map row_of [shop_event 1000000000000000000 ''Web''])) 1000000000000000000 shop_query
     \<in> {Inl MyQuery, Inr (page_of 1 (selected shop_query [shop_event 1000000000000000000 ''Web'']))}"
proof -
  have "nat (clampLimit (q_Limit shop_query)) = 1"
    by (simp add: shop_query_def clampLimit_def maxLimit_def)
  moreover have "list_all stored_event [shop_event 1000000000000000000 ''Web'']"
    by (simp add: shop_stored minTime_value)
  ultimately show ?thesis
    using mysql_events_exact[OF server.event_table_axioms refl _ shop_valid,
        where es = "[shop_event 1000000000000000000 ''Web'']" and now = 1000000000000000000]
    by (simp add: shop_event_def)
qed

text \<open>The server in memory never fails a page of a valid query.\<close>

lemma server_answers:
  assumes "Query_Validate q = None" "list_all stored_event es"
  shows "\<exists>p. Mysql_Events (list_query general_ci (map row_of es)) now q = Inr p"
proof -
  let ?rows = "sort_key row_pos (filter (\<lambda>r. list_all (cond_holds general_ci r) (page_conds q now)) (map row_of es))"
  have "?rows = map row_of (sort_key event_pos (filter (\<lambda>e. list_all (cond_holds general_ci (row_of e)) (page_conds q now)) es))"
    by (simp add: filter_map comp_def sort_key_map)
  then obtain xs where xs: "?rows = map row_of xs" "set xs \<subseteq> set es"
    by (metis (no_types, lifting) filter_is_subset set_sort)
  then have "list_all stored_event (take m xs)" for m
    using assms(2) by (auto simp: list_all_iff dest!: in_set_takeD)
  then have "scan_rows (map (select_row selectCols) (take m ?rows)) = Some (take m xs)" for m
    unfolding xs(1) take_map by (rule scan_stored_rows)
  then show ?thesis
    using list_query_select page_conds_wf[OF assms(1), of now] by (simp add: Mysql_Events_eq[OF assms(1)] Let_def)
qed



end
