(* ===== verification/MysqlRegistry.thy ===== *)
theory MysqlRegistry
  imports MysqlServer MemoryStats
begin

text \<open>
  The instance registry in MySQL: the tables \<open>instances\<close> and \<open>events_rollup\<close> of \<open>schema.go\<close>, the
  contract of the statement that upserts instances and of the one that reads one, and the proof
  that the registry answers as the in-memory storage does, retries of half-written batches
  included.
\<close>


section \<open>Tables\<close>

text \<open>Name, type, and whether the column may be null.\<close>

definition instances_columns :: "(string \<times> sqltype \<times> bool) list" where
  "instances_columns =
     [(''dc'', VARCHAR 32, False), (''node_name'', VARCHAR 255, False), (''service_id'', VARCHAR 255, False),
      (''service_name'', VARCHAR 255, False), (''node_ip'', VARCHAR 45, False), (''address'', VARCHAR 255, False),
      (''port'', INTEGER, False), (''team'', VARCHAR 128, False), (''app'', VARCHAR 255, False), (''version'', VARCHAR 64, False),
      (''tags'', JSON, True), (''meta'', JSON, True), (''node_meta'', JSON, True),
      (''first_seen'', DATETIME_3, False), (''last_seen'', DATETIME_3, False)]"

definition instances_key :: "string list" where
  "instances_key = [''dc'', ''node_name'', ''service_id'']"

text \<open>
  Which values a column holds unchanged: those of its type, times of whole milliseconds, JSON
  arrays and objects of strings.
\<close>

fun holds_exactly :: "sqltype \<times> bool \<Rightarrow> sqlarg \<Rightarrow> bool" where
  "holds_exactly (ty, nullable) ArgNull = nullable"
| "holds_exactly (JSON, nullable) (ArgStr s) = (json_array s \<noteq> None \<or> json_object s \<noteq> None)"
| "holds_exactly (DATETIME_3, nullable) (ArgTime t) = (conforms DATETIME_3 (ArgTime t) \<and> t mod Millisecond = 0)"
| "holds_exactly (ty, nullable) a = conforms ty a"

definition row_fits :: "string list \<Rightarrow> sqlarg list \<Rightarrow> bool" where
  "row_fits cols args \<longleftrightarrow>
     list_all2 (\<lambda>c a. case map_of instances_columns c of Some ty \<Rightarrow> holds_exactly ty a | None \<Rightarrow> False) cols args"


section \<open>The contract\<close>

text \<open>
  An upsert of rows of some columns that on a duplicate key takes over some of them, and the
  table after it. Names are compared as the collation compares them: by their images.
\<close>

definition listed :: "string list \<Rightarrow> string" where
  "listed cs = (case cs of [] \<Rightarrow> [] | c # r \<Rightarrow> c @ concat (map (\<lambda>d. '', '' @ d) r))"

definition upsert_text :: "string list \<Rightarrow> nat \<Rightarrow> string list \<Rightarrow> string" where
  "upsert_text cols n upd =
     ''INSERT INTO instances ('' @ listed cols @ '') VALUES '' @
     value_groups (CHR ''('' # comma_separated (replicate (length cols) ''?'') @ '')'') n @
     '' ON DUPLICATE KEY UPDATE '' @ listed (map (\<lambda>c. c @ '' = VALUES('' @ c @ '')'') upd)"

definition ident :: "string \<Rightarrow> bool" where
  "ident s \<longleftrightarrow> s \<noteq> [] \<and> list_all (\<lambda>c. c = CHR ''_'' \<or> 97 \<le> (of_char c :: nat) \<and> (of_char c :: nat) \<le> 122) s"

type_synonym inst_key = "string \<times> string \<times> string"

definition row_key :: "(string \<Rightarrow> string) \<Rightarrow> row \<Rightarrow> inst_key" where
  "row_key coll r = (coll (text_col r ''dc''), coll (text_col r ''node_name''), coll (text_col r ''service_id''))"

definition take_over :: "string list \<Rightarrow> row \<Rightarrow> row \<Rightarrow> row" where
  "take_over upd new old = (\<lambda>c. if c \<in> set upd then new c else old c)"

definition upsert_row :: "(string \<Rightarrow> string) \<Rightarrow> string list \<Rightarrow> string list \<Rightarrow> sqlarg list \<Rightarrow>
    (inst_key \<Rightarrow> row option) \<Rightarrow> inst_key \<Rightarrow> row option" where
  "upsert_row coll cols upd args t =
     (let r = map_of (zip cols args); k = row_key coll r
      in t(k := Some (case t k of None \<Rightarrow> r | Some old \<Rightarrow> take_over upd r old)))"

definition lookup_text :: "string list \<Rightarrow> string" where
  "lookup_text sel = ''SELECT '' @ listed sel @ '' FROM instances WHERE dc = ? AND node_name = ? AND service_id = ?''"

locale registry_table =
  fixes exec :: "statement \<Rightarrow> 'db \<Rightarrow> bool \<times> 'db"
    and query :: "'db \<Rightarrow> string \<Rightarrow> sqlarg list \<Rightarrow> sqlarg list list option"
    and table :: "'db \<Rightarrow> inst_key \<Rightarrow> row option"
    and coll :: "string \<Rightarrow> string"
  assumes upserted: "list_all ident cols \<Longrightarrow> list_all ident upd \<Longrightarrow> cols \<noteq> [] \<Longrightarrow> upd \<noteq> [] \<Longrightarrow> set instances_key \<subseteq> set cols \<Longrightarrow>
      list_all (row_fits cols) rs \<Longrightarrow> exec (upsert_text cols (length rs) upd, concat rs) db = (True, db') \<Longrightarrow>
      table db' = fold (upsert_row coll cols upd) rs (table db)"
    and refused: "exec st db = (False, db') \<Longrightarrow> table db' = table db"
    and looked_up: "list_all ident sel \<Longrightarrow> sel \<noteq> [] \<Longrightarrow> query db (lookup_text sel) [ArgStr a, ArgStr b, ArgStr c] = Some rs \<Longrightarrow>
      rs = (case table db (coll a, coll b, coll c) of None \<Rightarrow> [] | Some r \<Rightarrow> [map (\<lambda>c. the (r c)) sel])"


section \<open>JSON objects round-trip\<close>

definition sorted_pairs :: "(string, string) gomap \<Rightarrow> (string, string) gomap" where
  "sorted_pairs m = map (\<lambda>k. (k, map_get [] m k)) (sort_Strings (map fst m))"

definition pairs_ok :: "(string, string) gomap \<Rightarrow> bool" where
  "pairs_ok m \<longleftrightarrow> gomap_ok m \<and> list_all (\<lambda>(k, v). utf8_ok k \<and> utf8_ok v) m"

definition member_text :: "string \<times> string \<Rightarrow> string" where
  "member_text p = json_string (fst p) @ CHR '':'' # json_string (snd p)"

lemma json_map_members: "json_map m = CHR ''{'' # comma_separated (map member_text (sorted_pairs m)) @ ''}''"
  by (simp add: json_map_def sorted_pairs_def member_text_def comp_def)

lemma json_members_pairs:
  "kvs \<noteq> [] \<Longrightarrow> list_all (\<lambda>(k, v). utf8_ok k \<and> utf8_ok v) kvs \<Longrightarrow>
   json_members (comma_separated (map member_text kvs) @ CHR ''}'' # t) = Some (kvs, t)"
proof (induction kvs rule: induct_list012)
  case (2 p)
  then show ?case
    by (subst json_members.simps) (simp add: member_text_def json_string_def json_chars_text json_space_def[of "_ # _"] split_beta)
next
  case (3 p q ps)
  then show ?case
    by (subst json_members.simps)
      (simp add: member_text_def[of p] json_string_def[of "fst p"] json_string_def[of "snd p"] json_chars_text json_space_def[of "_ # _"] split_beta)
qed simp

lemma fold_put_distinct: "distinct (map fst (acc @ kvs)) \<Longrightarrow> fold (\<lambda>(k, v) m. map_put m k v) kvs acc = acc @ kvs"
proof (induction kvs arbitrary: acc)
  case (Cons p kvs)
  have "map_put acc (fst p) (snd p) = acc @ [p]"
    using Cons.prems by (induction acc) auto
  then show ?case
    using Cons.IH[of "acc @ [p]"] Cons.prems by (simp add: split_beta)
qed simp

lemma sorted_pairs_keys: "gomap_ok m \<Longrightarrow> distinct (map fst (sorted_pairs m))"
  by (simp add: sorted_pairs_def comp_def gomap_ok_def sort_Strings_def)


lemma sorted_pairs_utf8: "pairs_ok m \<Longrightarrow> list_all (\<lambda>(k, v). utf8_ok k \<and> utf8_ok v) (sorted_pairs m)"
  by (auto simp: pairs_ok_def sorted_pairs_def list_all_iff sort_Strings_def map_get_def gomap_lookup_iff split: option.split)

lemma sorted_pairs_lookup: "map_of (sorted_pairs m) = map_of m"
proof
  fix k
  have "map_of (map (\<lambda>k. (k, map_get [] m k)) ks) k = (if k \<in> set ks then Some (map_get [] m k) else None)" for ks
    by (induction ks) auto
  then have "map_of (sorted_pairs m) k = (if k \<in> fst ` set m then Some (map_get [] m k) else None)"
    by (simp add: sorted_pairs_def sort_Strings_def)
  moreover have "k \<in> fst ` set m \<longleftrightarrow> map_of m k \<noteq> None"
    by (simp add: map_of_eq_None_iff)
  ultimately show "map_of (sorted_pairs m) k = map_of m k"
    by (auto simp: map_get_def)
qed

lemma json_object_map:
  assumes "pairs_ok m"
  shows "json_object (json_map m) = Some (sorted_pairs m)"
proof (cases "sorted_pairs m")
  case Nil
  then show ?thesis
    by (simp add: json_map_members json_object_def json_space_def)
next
  case (Cons p ps)
  obtain r where r: "comma_separated (map member_text (sorted_pairs m)) @ ''}'' = quote # r"
    by (cases ps) (simp_all add: Cons member_text_def json_string_def)
  have "json_members (quote # r) = Some (sorted_pairs m, [])"
    using json_members_pairs[of "sorted_pairs m" "[]"] sorted_pairs_utf8[OF assms] Cons unfolding r by simp
  moreover have "fold (\<lambda>(k, v) m. map_put m k v) (sorted_pairs m) [] = sorted_pairs m"
    using fold_put_distinct[of "[]" "sorted_pairs m"] sorted_pairs_keys assms by (simp add: pairs_ok_def)
  ultimately show ?thesis
    unfolding json_map_members r by (simp add: json_object_def json_space_def)
qed


section \<open>The statements of the registry\<close>

definition inst_cols :: "string list" where
  "inst_cols = [''dc'', ''node_name'', ''service_id'', ''service_name'', ''node_ip'', ''address'', ''port'', ''team'', ''app'', ''version'',
     ''tags'', ''meta'', ''node_meta'', ''first_seen'', ''last_seen'']"

definition kept_up :: "string list" where
  "kept_up = [''service_name'', ''node_ip'', ''address'', ''port'', ''team'', ''app'', ''version'', ''tags'', ''meta'', ''node_meta'', ''last_seen'']"

lemma registry_idents: "list_all ident inst_cols" "list_all ident kept_up" "inst_cols \<noteq> []" "kept_up \<noteq> []" "set instances_key \<subseteq> set inst_cols"
  by (simp_all add: inst_cols_def kept_up_def ident_def instances_key_def)

lemma upsert_statement: "upsert_instances is = (upsert_text inst_cols (length is) kept_up, concat (map instance_args is))"
  by (simp add: upsert_instances_def upsert_text_def inst_cols_def kept_up_def listed_def)

lemma lookup_statement: "''SELECT '' @ instance_cols @ '' FROM instances WHERE dc = ? AND node_name = ? AND service_id = ?'' = lookup_text inst_cols"
  by (simp add: lookup_text_def instance_cols_def inst_cols_def listed_def)

definition inst_row :: "Instance \<Rightarrow> row" where
  "inst_row i = map_of (zip inst_cols (instance_args i))"

definition inst_key :: "Instance \<Rightarrow> inst_key" where
  "inst_key i = (in_Datacenter i, in_NodeName i, in_ServiceID i)"

abbreviation coll_key :: "(string \<Rightarrow> string) \<Rightarrow> inst_key \<Rightarrow> inst_key" where
  "coll_key coll k \<equiv> (case k of (a, b, c) \<Rightarrow> (coll a, coll b, coll c))"

lemma inst_row_key: "row_key coll (inst_row i) = coll_key coll (inst_key i)"
  by (simp add: row_key_def text_col_def inst_row_def inst_cols_def instance_args_def inst_key_def)

text \<open>What an upsert of one instance after another leaves under a key.\<close>

definition put_one :: "(string \<Rightarrow> string) \<Rightarrow> Instance \<Rightarrow> (inst_key \<Rightarrow> row option) \<Rightarrow> inst_key \<Rightarrow> row option" where
  "put_one coll i = upsert_row coll inst_cols kept_up (instance_args i)"

definition put_instances :: "(string \<Rightarrow> string) \<Rightarrow> Instance list \<Rightarrow> (inst_key \<Rightarrow> row option) \<Rightarrow> inst_key \<Rightarrow> row option" where
  "put_instances coll is = fold (put_one coll) is"

lemma take_over_again: "take_over u c (take_over u b a) = take_over u c a" and take_over_self: "take_over u a a = a"
  by (auto simp: take_over_def)

lemma put_one_at:
  "put_one coll i t k =
     (if k = coll_key coll (inst_key i) then Some (case t k of None \<Rightarrow> inst_row i | Some old \<Rightarrow> take_over kept_up (inst_row i) old) else t k)"
  by (simp add: put_one_def upsert_row_def Let_def inst_row_def[symmetric] inst_row_key)

lemma put_instances_at:
  "put_instances coll is t k =
     (case filter (\<lambda>i. coll_key coll (inst_key i) = k) is of
        [] \<Rightarrow> t k
      | i # r \<Rightarrow> Some (take_over kept_up (inst_row (last (i # r))) (case t k of None \<Rightarrow> inst_row i | Some old \<Rightarrow> old)))"
  unfolding put_instances_def
proof (induction "is" arbitrary: t)
  case (Cons i "is")
  show ?case
    unfolding fold_Cons comp_def Cons.IH
    by (auto simp: put_one_at take_over_again take_over_self split: list.split option.split)
qed simp

text \<open>So a batch written after a part of it is a batch written once.\<close>

lemma put_instances_retry: "put_instances coll is (put_instances coll (take j is) t) = put_instances coll is t"
proof
  fix k
  let ?P = "\<lambda>i. coll_key coll (inst_key i) = k"
  obtain ys where ys: "filter ?P is = filter ?P (take j is) @ ys"
    by (metis append_take_drop_id filter_append)
  show "put_instances coll is (put_instances coll (take j is) t) k = put_instances coll is t k"
    unfolding put_instances_at[of _ "is"] put_instances_at[of _ "take j is"] ys
    by (auto simp: take_over_again split: list.split option.split)
qed



section \<open>The registry of the in-memory storage\<close>

text \<open>What reading and writing JSON keeps of an instance: its maps with their keys sorted.\<close>

definition stored_form :: "Instance \<Rightarrow> Instance" where
  "stored_form i = i\<lparr> in_Meta := sorted_pairs (in_Meta i), in_NodeMeta := sorted_pairs (in_NodeMeta i) \<rparr>"

definition readable :: "Instance \<Rightarrow> bool" where
  "readable i \<longleftrightarrow> list_all utf8_ok (in_Tags i) \<and> pairs_ok (in_Meta i) \<and> pairs_ok (in_NodeMeta i)"

lemma sorted_pairs_Nil [simp]: "sorted_pairs [] = []"
  by (simp add: sorted_pairs_def sort_Strings_def)

lemma scan_inst_row: "readable i \<Longrightarrow> scan_instance (map (\<lambda>c. the (inst_row i c)) inst_cols) = Some (stored_form i)"
  by (cases i) (auto simp: readable_def inst_row_def inst_cols_def instance_args_def scan_instance_def stored_form_def
      jsonOrNull_strings_def jsonOrNull_map_def json_array_strings json_object_map)

lemma take_over_row:
  "inst_key i = inst_key old \<Longrightarrow> take_over kept_up (inst_row i) (inst_row old) = inst_row (i\<lparr> in_FirstSeen := in_FirstSeen old \<rparr>)"
  by (rule ext) (auto simp: take_over_def kept_up_def inst_row_def inst_cols_def instance_args_def inst_key_def)

text \<open>
  The table and the registry hold the same instances, under names that the collation keeps
  apart.
\<close>

definition registry_agrees :: "(string \<Rightarrow> string) \<Rightarrow> string set \<Rightarrow> (inst_key \<Rightarrow> row option) \<Rightarrow> MemoryStorage \<Rightarrow> bool" where
  "registry_agrees coll K t s \<longleftrightarrow>
     (\<forall>a \<in> K. \<forall>b \<in> K. \<forall>c \<in> K. t (coll a, coll b, coll c) = map_option inst_row (Memory_Instance s a b c)) \<and>
     (\<forall>a b c i. Memory_Instance s a b c = Some i \<longrightarrow> readable i \<and> inst_key i = (a, b, c))"

definition named_in :: "string set \<Rightarrow> Instance \<Rightarrow> bool" where
  "named_in K i \<longleftrightarrow> in_Datacenter i \<in> K \<and> in_NodeName i \<in> K \<and> in_ServiceID i \<in> K"

lemma agrees_empty: "registry_agrees coll K Map.empty (Memory_New n)"
  by (simp add: registry_agrees_def Memory_Instance_def Memory_New_def Let_def)

lemma same_key:
  assumes "inj_on coll K" "named_in K i" "a \<in> K" "b \<in> K" "c \<in> K"
  shows "coll_key coll (inst_key i) = (coll a, coll b, coll c) \<longleftrightarrow> (in_Datacenter i, in_NodeName i, in_ServiceID i) = (a, b, c)"
  using assms by (auto simp: inst_key_def named_in_def inj_on_eq_iff)

lemma upserts_lookup':
  "Memory_Instance (Memory_UpsertInstances s is) dc node sid =
     (case filter (\<lambda>i. (in_Datacenter i, in_NodeName i, in_ServiceID i) = (dc, node, sid)) is of
        [] \<Rightarrow> Memory_Instance s dc node sid
      | i # r \<Rightarrow> Some ((last (i # r))\<lparr>in_FirstSeen := (case Memory_Instance s dc node sid of
          Some old \<Rightarrow> in_FirstSeen old | None \<Rightarrow> in_FirstSeen i)\<rparr>))"
  unfolding Memory_UpsertInstances_def by (rule upserts_lookup)

lemma agrees_upsert:
  assumes "inj_on coll K" "list_all (named_in K) is" "list_all readable is" "registry_agrees coll K t s"
  shows "registry_agrees coll K (put_instances coll is t) (Memory_UpsertInstances s is)"
  unfolding registry_agrees_def
proof (intro conjI ballI allI impI)
  fix a b c
  assume K: "a \<in> K" "b \<in> K" "c \<in> K"
  let ?mine = "filter (\<lambda>i. (in_Datacenter i, in_NodeName i, in_ServiceID i) = (a, b, c)) is"
  have mine: "filter (\<lambda>i. coll_key coll (inst_key i) = (coll a, coll b, coll c)) is = ?mine"
    using same_key[OF assms(1) _ K] assms(2) by (intro filter_cong) (auto simp: list_all_iff)
  have keys: "inst_key i = (a, b, c)" if "i \<in> set ?mine" for i
    using that by (simp add: inst_key_def)
  have t: "t (coll a, coll b, coll c) = map_option inst_row (Memory_Instance s a b c)"
    and old: "Memory_Instance s a b c = Some x \<Longrightarrow> inst_key x = (a, b, c)" for x
    using assms(4) K by (auto simp: registry_agrees_def)
  show "put_instances coll is t (coll a, coll b, coll c) = map_option inst_row (Memory_Instance (Memory_UpsertInstances s is) a b c)"
  proof (cases ?mine)
    case Nil
    then show ?thesis
      unfolding put_instances_at mine upserts_lookup' using t by simp
  next
    case (Cons i r)
    have "last (i # r) \<in> set ?mine" "i \<in> set ?mine"
      using last_in_set[of "i # r"] unfolding Cons by simp_all
    note k = keys[OF this(1)] keys[OF this(2)]
    show ?thesis
      unfolding put_instances_at mine upserts_lookup' Cons t
      using k old by (auto simp: take_over_row split: option.split)
  qed
next
  fix a b c i
  assume i: "Memory_Instance (Memory_UpsertInstances s is) a b c = Some i"
  let ?mine = "filter (\<lambda>i. (in_Datacenter i, in_NodeName i, in_ServiceID i) = (a, b, c)) is"
  have "readable i \<and> inst_key i = (a, b, c)"
  proof (cases ?mine)
    case Nil
    then show ?thesis
      using i assms(4) unfolding upserts_lookup' by (simp add: registry_agrees_def)
  next
    case (Cons j r)
    have "last (j # r) \<in> set ?mine"
      using last_in_set[of "j # r"] unfolding Cons by simp
    then have "readable (last (j # r))" "inst_key (last (j # r)) = (a, b, c)"
      using assms(3) by (auto simp: list_all_iff inst_key_def)
    moreover have "\<exists>u. i = (last (j # r))\<lparr> in_FirstSeen := u \<rparr>"
      using i unfolding upserts_lookup' Cons by auto
    ultimately show ?thesis
      by (auto simp: readable_def inst_key_def)
  qed
  then show "readable i" "inst_key i = (a, b, c)"
    by simp_all
qed



section \<open>Chunks and attempts\<close>

text \<open>What a loop over chunks leaves when each chunk does all of its work or none of it.\<close>

lemma each_chunk_prefix:
  assumes "\<And>ys db ok db'. list_all P ys \<Longrightarrow> ys \<noteq> [] \<Longrightarrow> store ys db = (ok, db') \<Longrightarrow> tab db' = (if ok then f ys (tab db) else tab db)"
    and "\<And>t. f [] t = t" "\<And>xs ys t. f (xs @ ys) t = f ys (f xs t)"
    and n: "0 < n"
  shows "list_all P xs \<Longrightarrow> each_chunk n store xs db = (ok, db') \<Longrightarrow>
    \<exists>j. tab db' = f (take j xs) (tab db) \<and> (ok \<longrightarrow> take j xs = xs)"
proof (induction "length xs" arbitrary: xs db rule: less_induct)
  case less
  show ?case
  proof (cases "xs = []")
    case True
    then show ?thesis
      using less.prems(2) assms(2) each_chunk_step[of n store "[]" db] by simp
  next
    case False
    obtain ok1 db1 where c: "store (take n xs) db = (ok1, db1)"
      by (metis surj_pair)
    have "list_all P (take n xs)" "list_all P (drop n xs)"
      using less.prems(1) append_take_drop_id[of n xs] list_all_append[of P "take n xs" "drop n xs"] by simp_all
    moreover have "take n xs \<noteq> []"
      using False n by simp
    ultimately have tab: "tab db1 = (if ok1 then f (take n xs) (tab db) else tab db)" and rest: "list_all P (drop n xs)"
      using assms(1)[OF _ _ c] by blast+
    show ?thesis
    proof (cases ok1)
      case False
      then have "ok = False" "db' = db1"
        using less.prems(2) c n \<open>xs \<noteq> []\<close> by (simp_all add: each_chunk_step[of n store xs])
      then show ?thesis
        using tab False assms(2) by (intro exI[of _ 0]) simp
    next
      case True
      then have "each_chunk n store (drop n xs) db1 = (ok, db')"
        using less.prems(2) c n \<open>xs \<noteq> []\<close> by (simp add: each_chunk_step[of n store xs])
      then obtain j where j: "tab db' = f (take j (drop n xs)) (tab db1)" "ok \<longrightarrow> take j (drop n xs) = drop n xs"
        using less.hyps[OF _ rest] False n by auto
      have "take (n + j) xs = take n xs @ take j (drop n xs)"
        by (simp add: take_add)
      then show ?thesis
        using j tab True assms(3) by (intro exI[of _ "n + j"]) (metis append_take_drop_id)
    qed
  qed
qed

text \<open>Attempts that fail half way leave nothing that the one that succeeds does not overwrite.\<close>

lemma persist_absorbs:
  assumes step: "\<And>db ok db'. fn db = (ok, db') \<Longrightarrow> \<exists>j. tab db' = f (take j xs) (tab db) \<and> (ok \<longrightarrow> take j xs = xs)"
    and absorb: "\<And>j t. f xs (f (take j xs) t) = f xs t"
  shows "persist_from fn env k db = (Stored, db') \<Longrightarrow> tab db' = f xs (tab db)"
proof (induction "3 - k" arbitrary: k db rule: less_induct)
  case less
  obtain ok db1 where c: "fn db = (ok, db1)"
    by (metis surj_pair)
  obtain j where j: "tab db1 = f (take j xs) (tab db)" "ok \<longrightarrow> take j xs = xs"
    using step[OF c] by blast
  show ?case
  proof (cases ok)
    case True
    then show ?thesis
      using less.prems c j by (simp add: persist_from.simps[of fn])
  next
    case False
    then have "k < 3" "persist_from fn env (k + 1) db1 = (Stored, db')"
      using less.prems c by (auto simp: persist_from.simps[of fn env k] split: if_splits)
    then have "tab db' = f xs (tab db1)"
      using less.hyps[of "k + 1" db1] by simp
    then show ?thesis
      using absorb j by simp
  qed
qed


context registry_table
begin

lemma upsert_chunk:
  assumes "list_all (\<lambda>i. row_fits inst_cols (instance_args i)) is" "upsertChunk exec is db = (ok, db')"
  shows "table db' = (if ok then put_instances coll is (table db) else table db)"
proof (cases ok)
  case True
  have "list_all (row_fits inst_cols) (map instance_args is)"
    using assms(1) by (simp add: list.pred_map comp_def)
  then have "table db' = fold (upsert_row coll inst_cols kept_up) (map instance_args is) (table db)"
    using upserted[OF registry_idents, of "map instance_args is" db db'] assms(2) True
    by (simp add: upsertChunk_def upsert_statement)
  then show ?thesis
    using True by (simp add: put_instances_def fold_map comp_def put_one_def[abs_def])
next
  case False
  then show ?thesis
    using refused assms(2) by (simp add: upsertChunk_def)
qed

lemma upsert_persisted:
  assumes "list_all (\<lambda>i. row_fits inst_cols (instance_args i)) is"
    and "persist (Mysql_UpsertInstances exec is) env db = (Stored, db')"
  shows "table db' = put_instances coll is (table db)"
proof -
  let ?P = "\<lambda>i. row_fits inst_cols (instance_args i)"
  have half: "\<exists>j. table db2 = put_instances coll (take j is) (table db1) \<and> (ok \<longrightarrow> take j is = is)"
    if "Mysql_UpsertInstances exec is db1 = (ok, db2)" for db1 ok db2
  proof (rule each_chunk_prefix[where P = ?P and store = "upsertChunk exec" and tab = table and f = "put_instances coll" and n = upsertChunk_size])
    show "each_chunk upsertChunk_size (upsertChunk exec) is db1 = (ok, db2)"
      using that by (simp add: Mysql_UpsertInstances_def)
  qed (simp_all add: upsert_chunk put_instances_def upsertChunk_size_def assms(1))
  show ?thesis
    using persist_absorbs[where tab = table and f = "put_instances coll", OF half put_instances_retry assms(2)[unfolded persist_def]] .
qed

lemma instance_read:
  assumes "registry_agrees coll K (table db) s" "a \<in> K" "b \<in> K" "c \<in> K"
    and "query db (lookup_text inst_cols) [ArgStr a, ArgStr b, ArgStr c] = Some rs"
  shows "Mysql_Instance (query db) a b c = Inr (map_option stored_form (Memory_Instance s a b c))"
proof -
  have rs: "rs = (case Memory_Instance s a b c of None \<Rightarrow> [] | Some i \<Rightarrow> [map (\<lambda>c. the (inst_row i c)) inst_cols])"
    using looked_up[OF registry_idents(1,3) assms(5)] assms(1-4) by (auto simp: registry_agrees_def split: option.split)
  have "readable i" if "Memory_Instance s a b c = Some i" for i
    using assms(1) that by (simp add: registry_agrees_def)
  then show ?thesis
    unfolding Mysql_Instance_def lookup_statement assms(5)
    by (simp add: rs scan_inst_row split: option.split)
qed

lemma registry_tracks:
  assumes "inj_on coll K" "list_all (named_in K) is" "list_all readable is"
    and "list_all (\<lambda>i. row_fits inst_cols (instance_args i)) is" "registry_agrees coll K (table db) s"
    and "persist (Mysql_UpsertInstances exec is) env db = (Stored, db')"
  shows "registry_agrees coll K (table db') (Memory_UpsertInstances s is)"
  unfolding upsert_persisted[OF assms(4,6)] using agrees_upsert[OF assms(1-3,5)] .

end



section \<open>A server in memory\<close>

text \<open>
  A provider of the contract that reads the columns back from the text of the statement; the
  statements fail as its first component says. Names are compared without case and without
  trailing spaces, as the default collation does.
\<close>

type_synonym reg_db = "bool list \<times> (inst_key \<Rightarrow> row option)"

definition ci :: "string \<Rightarrow> string" where
  "ci s = ToLower (trim_right s)"

definition reg_parse :: "string \<Rightarrow> string list \<times> string list" where
  "reg_parse text =
     (let s = drop (length ''INSERT INTO instances ('') text;
          r = drop (length '') VALUES '') (dropWhile (\<lambda>c. c \<noteq> CHR '')'') s);
          u = drop (length '' ON DUPLICATE KEY UPDATE '') (dropWhile (\<lambda>c. c \<in> {CHR ''('', CHR '')'', CHR ''?'', CHR '',''}) r)
      in (split_cols (takeWhile (\<lambda>c. c \<noteq> CHR '')'') s), map (takeWhile (\<lambda>c. c \<noteq> CHR '' '')) (split_cols u)))"

definition reg_exec :: "statement \<Rightarrow> reg_db \<Rightarrow> bool \<times> reg_db" where
  "reg_exec = (\<lambda>(text, args) (fs, t).
     if fs \<noteq> [] \<and> hd fs then (False, (tl fs, t))
     else case reg_parse text of (cols, upd) \<Rightarrow> (True, (tl fs, fold (upsert_row ci cols upd) (groups (length cols) args) t)))"

definition reg_query :: "reg_db \<Rightarrow> string \<Rightarrow> sqlarg list \<Rightarrow> sqlarg list list option" where
  "reg_query = (\<lambda>(fs, t) text args.
     let n = length ''SELECT ''; m = length '' FROM instances WHERE dc = ? AND node_name = ? AND service_id = ?'';
         sel = split_cols (take (length text - n - m) (drop n text))
     in case args of
          [ArgStr a, ArgStr b, ArgStr c] \<Rightarrow>
            Some (case t (ci a, ci b, ci c) of None \<Rightarrow> [] | Some r \<Rightarrow> [map (\<lambda>c. the (r c)) sel])
        | _ \<Rightarrow> None)"

definition item :: "string \<Rightarrow> bool" where
  "item s \<longleftrightarrow> s \<noteq> [] \<and> CHR '','' \<notin> set s \<and> \<not> is_space (hd s) \<and> \<not> is_space (last s)"

lemma split_listed: "cs \<noteq> [] \<Longrightarrow> list_all item cs \<Longrightarrow> split_cols (listed cs) = cs"
proof (cases cs)
  case (Cons c r)
  assume "list_all item cs"
  then have items: "list_all item (c # r)"
    unfolding Cons .
  have spaced: "TrimSpace (CHR '' '' # d) = d" if "item d" for d
    using that TrimSpace_id[of d] by (simp add: item_def TrimSpace_def is_space_def)
  have "Split (c @ concat (map (\<lambda>d. '', '' @ d) r)) CHR '','' = c # map (\<lambda>d. CHR '' '' # d) r"
    if "CHR '','' \<notin> set c" "list_all item r" for c r
    using that
  proof (induction r arbitrary: c)
    case Nil
    then show ?case
      by (simp add: Split_no_sep)
  next
    case (Cons d r)
    have "CHR '','' \<notin> set (CHR '' '' # d)"
      using Cons.prems(2) by (simp add: item_def)
    then have "Split ((CHR '' '' # d) @ concat (map (\<lambda>d. '', '' @ d) r)) CHR '','' = (CHR '' '' # d) # map (\<lambda>d. CHR '' '' # d) r"
      using Cons.IH[of "CHR '' '' # d"] Cons.prems(2) by simp
    then show ?case
      using Split_append[OF Cons.prems(1), of "(CHR '' '' # d) @ concat (map (\<lambda>d. '', '' @ d) r)"] by simp
  qed
  from this[of c r] have "Split (c @ concat (map (\<lambda>d. '', '' @ d) r)) CHR '','' = c # map (\<lambda>d. CHR '' '' # d) r"
    using items by (simp add: item_def)
  then have "split_cols (listed cs) = TrimSpace c # map (\<lambda>d. TrimSpace (CHR '' '' # d)) r"
    unfolding split_cols_def listed_def Cons list.case by (simp only: list.map list.map_comp comp_def)
  moreover have "map (\<lambda>d. TrimSpace (CHR '' '' # d)) r = r"
    using items spaced by (intro map_idI) (simp add: list_all_iff)
  ultimately show ?thesis
    using items TrimSpace_id[of c] Cons by (simp add: item_def)
qed simp

lemma letter_chars:
  "c = CHR ''_'' \<or> 97 \<le> (of_char c :: nat) \<and> (of_char c :: nat) \<le> 122 \<Longrightarrow>
   c \<noteq> CHR '' '' \<and> c \<noteq> CHR '','' \<and> c \<noteq> CHR ''('' \<and> c \<noteq> CHR '')'' \<and> \<not> is_space c"
  by (elim disjE; intro conjI notI; simp add: is_space_def)

lemma ident_chars:
  assumes "ident s"
  shows "\<forall>c \<in> set s. c \<noteq> CHR '' '' \<and> c \<noteq> CHR '','' \<and> c \<noteq> CHR ''('' \<and> c \<noteq> CHR '')'' \<and> \<not> is_space c" "s \<noteq> []"
proof -
  show "\<forall>c \<in> set s. c \<noteq> CHR '' '' \<and> c \<noteq> CHR '','' \<and> c \<noteq> CHR ''('' \<and> c \<noteq> CHR '')'' \<and> \<not> is_space c"
    using assms by (intro ballI letter_chars) (simp add: ident_def list_all_iff)
  show "s \<noteq> []"
    using assms by (simp add: ident_def)
qed

lemma ident_item: "ident s \<Longrightarrow> item s"
  using ident_chars[of s] hd_in_set[of s] last_in_set[of s] by (simp add: item_def) blast

lemma listed_chars: "x \<in> set (listed cs) \<Longrightarrow> x \<in> {CHR '','', CHR '' ''} \<union> (\<Union>c \<in> set cs. set c)"
  by (cases cs) (auto simp: listed_def split: if_splits)


lemma listed_no_paren: "list_all ident cs \<Longrightarrow> \<forall>x \<in> set (listed cs). x \<noteq> CHR '')''"
  using ident_chars(1) by (fastforce dest: listed_chars simp: list_all_iff)

lemma marks_chars:
  "\<forall>x \<in> set (value_groups (CHR ''('' # comma_separated (replicate m ''?'') @ '')'') n).
     x \<in> {CHR ''('', CHR '')'', CHR ''?'', CHR '',''}"
proof -
  have "\<forall>x \<in> set (comma_separated (replicate m ''?'')). x \<in> {CHR ''?'', CHR '',''}"
    by (induction m rule: induct_nat_012) (auto simp: numeral_2_eq_2)
  then show ?thesis
    by (auto simp: value_groups_def)
qed

lemma update_item:
  assumes "ident c"
  shows "item (c @ '' = VALUES('' @ c @ '')'')" "takeWhile (\<lambda>x. x \<noteq> CHR '' '') (c @ '' = VALUES('' @ c @ '')'') = c"
  using ident_chars[OF assms] hd_in_set[of c] by (auto simp: item_def is_space_def takeWhile_append)

lemma reg_parse_upsert:
  assumes "list_all ident cols" "cols \<noteq> []" "list_all ident upd" "upd \<noteq> []"
  shows "reg_parse (upsert_text cols n upd) = (cols, upd)"
proof -
  let ?marks = "value_groups (CHR ''('' # comma_separated (replicate (length cols) ''?'') @ '')'') n"
  let ?items = "map (\<lambda>c. c @ '' = VALUES('' @ c @ '')'') upd"
  let ?u = "'' ON DUPLICATE KEY UPDATE '' @ listed ?items"
  let ?s = "listed cols @ '') VALUES '' @ ?marks @ ?u"
  have shape: "drop (length ''INSERT INTO instances ('') (upsert_text cols n upd) = ?s"
    by (simp add: upsert_text_def)
  have cut: "takeWhile (\<lambda>c. c \<noteq> CHR '')'') ?s = listed cols" "dropWhile (\<lambda>c. c \<noteq> CHR '')'') ?s = '') VALUES '' @ ?marks @ ?u"
    using listed_no_paren[OF assms(1)] by (simp_all add: takeWhile_append dropWhile_append)
  have marks: "dropWhile (\<lambda>c. c \<in> {CHR ''('', CHR '')'', CHR ''?'', CHR '',''}) (?marks @ ?u) = ?u"
    using marks_chars[of "length cols" n] by (simp add: dropWhile_append)
  have cols: "split_cols (listed cols) = cols"
    using assms(1,2) ident_item by (intro split_listed) (auto simp: list_all_iff)
  have "split_cols (listed ?items) = ?items"
    using assms(3,4) update_item(1) by (intro split_listed) (auto simp: list_all_iff)
  then have upd: "map (takeWhile (\<lambda>c. c \<noteq> CHR '' '')) (split_cols (listed ?items)) = upd"
    using assms(3) update_item(2) by (auto simp: list_all_iff intro!: map_idI)
  have dropped: "drop (length x) (x @ y) = y" for x y :: string
    by simp
  show ?thesis
    unfolding reg_parse_def Let_def shape cut dropped marks cols upd ..
qed

lemma reg_exec_upsert:
  assumes "list_all ident cols" "cols \<noteq> []" "list_all ident upd" "upd \<noteq> []"
  shows "reg_exec (upsert_text cols n upd, args) (fs, t) =
    (if fs \<noteq> [] \<and> hd fs then (False, (tl fs, t))
     else (True, (tl fs, fold (upsert_row ci cols upd) (groups (length cols) args) t)))"
  by (simp add: reg_exec_def reg_parse_upsert[OF assms])

lemma middle: "take (length (a @ x @ b) - length a - length b) (drop (length a) (a @ x @ b)) = x"
  by simp

lemma reg_query_lookup:
  assumes "list_all ident sel" "sel \<noteq> []"
  shows "reg_query (fs, t) (lookup_text sel) [ArgStr a, ArgStr b, ArgStr c] =
    Some (case t (ci a, ci b, ci c) of None \<Rightarrow> [] | Some r \<Rightarrow> [map (\<lambda>c. the (r c)) sel])"
proof -
  have "split_cols (listed sel) = sel"
    using assms ident_item by (intro split_listed) (auto simp: list_all_iff)
  then show ?thesis
    unfolding reg_query_def prod.case Let_def lookup_text_def middle by (simp split: option.split)
qed


lemma row_fits_length: "row_fits cols r \<Longrightarrow> length r = length cols"
  unfolding row_fits_def by (drule list_all2_lengthD) simp

interpretation reg: registry_table reg_exec reg_query snd ci
proof unfold_locales
  fix cols upd :: "string list" and rs db db'
  assume names: "list_all ident cols" "list_all ident upd" "cols \<noteq> []" "upd \<noteq> []"
    and fits: "list_all (row_fits cols) rs" and run: "reg_exec (upsert_text cols (length rs) upd, concat rs) db = (True, db')"
  have "length r = length cols" if "r \<in> set rs" for r
    using fits that row_fits_length by (simp add: list_all_iff)
  then have "groups (length cols) (concat rs) = rs"
    using names(3) by (intro groups_concat) auto
  then show "snd db' = fold (upsert_row ci cols upd) rs (snd db)"
    using run reg_exec_upsert[OF names(1,3,2,4)] by (cases db) (auto split: if_splits)
next
  show "reg_exec st db = (False, db') \<Longrightarrow> snd db' = snd db" for st db db'
    by (cases st; cases db) (auto simp: reg_exec_def split: if_splits prod.splits)
next
  show "list_all ident sel \<Longrightarrow> sel \<noteq> [] \<Longrightarrow> reg_query db (lookup_text sel) [ArgStr a, ArgStr b, ArgStr c] = Some rs \<Longrightarrow>
      rs = (case snd db (ci a, ci b, ci c) of None \<Rightarrow> [] | Some r \<Rightarrow> [map (\<lambda>c. the (r c)) sel])" for sel db a b c rs
    using reg_query_lookup by (cases db) auto
qed


section \<open>Properties\<close>



section \<open>Witness\<close>

definition sample_instance :: Instance where
  "sample_instance = \<lparr> in_Datacenter = ''dc1'', in_NodeName = ''n1'', in_ServiceID = ''web-1'', in_ServiceName = ''web'', in_NodeIP = [],
     in_Address = [], in_Port = 80, in_Team = [], in_App = [], in_Version = [], in_Tags = [''a''], in_Meta = [(''k'', ''v'')],
     in_NodeMeta = [], in_FirstSeen = 5000000, in_LastSeen = 5000000 \<rparr>"

lemma sample_instance_fits: "row_fits inst_cols (instance_args sample_instance)"
proof -
  have "utf8_ok ''dc1''" "utf8_ok ''n1''" "utf8_ok ''web-1''" "utf8_ok ''web''" "utf8_ok []"
    "char_count ''dc1'' \<le> 32" "char_count ''n1'' \<le> 255" "char_count ''web-1'' \<le> 255" "char_count ''web'' \<le> 255" "char_count [] = 0"
    by code_simp+
  moreover have "utf8_ok ''a''" "utf8_ok ''k''" "utf8_ok ''v''"
    by code_simp+
  then have "json_array (json_strings [''a'']) = Some [''a'']" "json_object (json_map [(''k'', ''v'')]) = Some (sorted_pairs [(''k'', ''v'')])"
    by (auto intro!: json_array_strings json_object_map simp: pairs_ok_def gomap_ok_def)
  moreover have "time_fits 5000000"
    by (simp add: time_fits_def Date_def date_days_def year_start_def epoch_days_def)
  ultimately show ?thesis
    by (simp add: row_fits_def inst_cols_def instances_columns_def instance_args_def sample_instance_def jsonOrNull_strings_def
        jsonOrNull_map_def time_fits_def)
qed


end
