(* ===== verification/Client.thy ===== *)
theory Client
  imports Compare
begin

text \<open>
  The client of the Consul servers (\<open>consul/consul.go\<close>): the loop that discovers the servers of
  the datacenter, and the calls spread over them in turn. The agent's catalog, the connection
  pool and the parser of addresses are parameters.
\<close>


section \<open>State\<close>

text \<open>An entry of the agent's answer: what the loop reads of it.\<close>

record ServiceEntry =
  se_Address :: string
  se_Datacenter :: string
  se_Port :: int

text \<open>
  The client: the servers once stored, the counter of calls, the datacenter once known and
  whether the ready channel is closed, and the two counters of its metrics.
\<close>

record 'ip Consul =
  cs_dc :: string
  cs_servers :: "('ip \<times> int) list option"
  cs_serverIndex :: "64 word"
  cs_ready :: bool
  cs_idx :: "64 word"
  cs_success :: nat
  cs_errors :: nat

definition Consul_New :: "'ip Consul" where
  "Consul_New = \<lparr> cs_dc = [], cs_servers = None, cs_serverIndex = 0, cs_ready = False, cs_idx = 0, cs_success = 0, cs_errors = 0 \<rparr>"

text \<open>
  One round of \<open>watchServers\<close>: the answer is an error, or the entries and the index to wait
  from. The first two cases sleep and ask again.
\<close>

definition watchServers_round ::
    "(string \<Rightarrow> 'ip) \<Rightarrow> (ServiceEntry list \<times> 64 word) option \<Rightarrow> 'ip Consul \<Rightarrow> 'ip Consul" where
  "watchServers_round parseIP answer c =
     (case answer of
        None \<Rightarrow> c
      | Some ([], index) \<Rightarrow> c
      | Some (e # es, index) \<Rightarrow>
          (let c = c\<lparr> cs_servers := Some (map (\<lambda>i. (parseIP (se_Address i), se_Port i)) (e # es)) \<rparr>;
               c = (if cs_ready c then c else c\<lparr> cs_dc := se_Datacenter e, cs_ready := True \<rparr>)
           in c\<lparr> cs_idx := index \<rparr>))"

text \<open>
  A call: the servers loaded, the counter incremented (it wraps), and the server of the
  remainder. Loading before the first discovery panics, as does an empty list.
\<close>

datatype 'a rpc_result = RpcPanic | RpcAnswer 'a

definition pick_server :: "'ip Consul \<Rightarrow> ('ip \<times> int) rpc_result" where
  "pick_server c =
     (case cs_servers c of
        None \<Rightarrow> RpcPanic
      | Some servers \<Rightarrow>
          (let idx = cs_serverIndex c + 1
           in if servers = [] then RpcPanic else RpcAnswer (servers ! nat (sint (idx mod word_of_nat (length servers))))))"

text \<open>The call through the pool, which succeeds or not, with its counters.\<close>

definition rpc :: "('ip \<times> int \<Rightarrow> 'r option) \<Rightarrow> 'ip Consul \<Rightarrow> 'r option rpc_result \<times> 'ip Consul" where
  "rpc pool c =
     (let c' = c\<lparr> cs_serverIndex := cs_serverIndex c + 1 \<rparr>
      in case pick_server c of
        RpcPanic \<Rightarrow> (RpcPanic, c')
      | RpcAnswer server \<Rightarrow>
          (case pool server of
             None \<Rightarrow> (RpcAnswer None, c'\<lparr> cs_errors := cs_errors c + 1 \<rparr>)
           | Some r \<Rightarrow> (RpcAnswer (Some r), c'\<lparr> cs_success := cs_success c + 1 \<rparr>)))"

text \<open>The options of a blocking query, and the requests of the four reads.\<close>

definition blockingWait :: Duration where "blockingWait = 10 * Minute"

record QueryOptions =
  qo_Token :: string
  qo_MinQueryIndex :: "64 word"
  qo_MaxQueryTime :: Duration

definition queryOptions :: "string \<Rightarrow> 64 word \<Rightarrow> QueryOptions" where
  "queryOptions token idx = \<lparr> qo_Token = token, qo_MinQueryIndex = idx, qo_MaxQueryTime = blockingWait \<rparr>"

datatype request =
    ListServices string QueryOptions
  | ServiceNodes string string QueryOptions
  | ListNodes string QueryOptions
  | NodeChecks string string QueryOptions

text \<open>Each waits for the ready channel, so it is asked of a client that is ready.\<close>

definition Client_Services :: "(request \<Rightarrow> 'ip \<times> int \<Rightarrow> 'r option) \<Rightarrow> string \<Rightarrow> 64 word \<Rightarrow> 'ip Consul \<Rightarrow> 'r option rpc_result \<times> 'ip Consul" where
  "Client_Services pool token idx c = rpc (pool (ListServices (cs_dc c) (queryOptions token idx))) c"

definition Client_Service :: "(request \<Rightarrow> 'ip \<times> int \<Rightarrow> 'r option) \<Rightarrow> string \<Rightarrow> 64 word \<Rightarrow> string \<Rightarrow> 'ip Consul \<Rightarrow> 'r option rpc_result \<times> 'ip Consul" where
  "Client_Service pool token idx name c = rpc (pool (ServiceNodes (cs_dc c) name (queryOptions token idx))) c"

definition Client_Nodes :: "(request \<Rightarrow> 'ip \<times> int \<Rightarrow> 'r option) \<Rightarrow> string \<Rightarrow> 64 word \<Rightarrow> 'ip Consul \<Rightarrow> 'r option rpc_result \<times> 'ip Consul" where
  "Client_Nodes pool token idx c = rpc (pool (ListNodes (cs_dc c) (queryOptions token idx))) c"

definition Client_Node :: "(request \<Rightarrow> 'ip \<times> int \<Rightarrow> 'r option) \<Rightarrow> string \<Rightarrow> 64 word \<Rightarrow> string \<Rightarrow> 'ip Consul \<Rightarrow> 'r option rpc_result \<times> 'ip Consul" where
  "Client_Node pool token idx name c = rpc (pool (NodeChecks (cs_dc c) name (queryOptions token idx))) c"

text \<open>The datacenter blocks (\<open>None\<close>) until the client is ready; the options of the storage lock.\<close>

definition Client_Datacenter :: "'ip Consul \<Rightarrow> string option" where
  "Client_Datacenter c = (if cs_ready c then Some (cs_dc c) else None)"

record LockOptions =
  lo_SessionTTL :: string
  lo_Key :: string

definition Client_Lock :: "string \<Rightarrow> LockOptions" where
  "Client_Lock path = \<lparr> lo_SessionTTL = ''10s'', lo_Key = path \<rparr>"



section \<open>Runs\<close>

text \<open>Discovery and calls interleave; a call starts only when the client is ready.\<close>

inductive client_step :: "(string \<Rightarrow> 'ip) \<Rightarrow> 'ip Consul \<Rightarrow> 'ip Consul \<Rightarrow> bool" for parseIP where
  discover: "client_step parseIP c (watchServers_round parseIP answer c)"
| call: "cs_ready c \<Longrightarrow> client_step parseIP c (snd (rpc (pool :: 'ip \<times> int \<Rightarrow> unit option) c))"

inductive client_reach :: "(string \<Rightarrow> 'ip) \<Rightarrow> 'ip Consul \<Rightarrow> bool" for parseIP where
  client_new: "client_reach parseIP Consul_New"
| client_next: "client_reach parseIP c \<Longrightarrow> client_step parseIP c c' \<Longrightarrow> client_reach parseIP c'"

inductive_cases client_stepE: "client_step parseIP c c'"

text \<open>Ready means servers: what the reads rely on after the channel.\<close>

definition client_ok :: "'ip Consul \<Rightarrow> bool" where
  "client_ok c \<longleftrightarrow> (cs_ready c \<longleftrightarrow> cs_servers c \<noteq> None) \<and> cs_servers c \<noteq> Some []"

lemma rpc_frame [simp]: "cs_ready (snd (rpc pool c)) = cs_ready c" "cs_servers (snd (rpc pool c)) = cs_servers c"
  "cs_dc (snd (rpc pool c)) = cs_dc c" "cs_serverIndex (snd (rpc pool c)) = cs_serverIndex c + 1"
  by (auto simp: rpc_def Let_def split: rpc_result.splits option.splits)

lemma client_step_ok: "client_step parseIP c c' \<Longrightarrow> client_ok c \<Longrightarrow> client_ok c'"
  by (elim client_stepE)
    (auto simp: client_ok_def watchServers_round_def Let_def split: option.splits prod.splits list.splits)

lemma client_reach_ok: "client_reach parseIP c \<Longrightarrow> client_ok c"
  by (induction rule: client_reach.induct) (auto simp: client_ok_def Consul_New_def dest: client_step_ok)

lemma client_step_dc: "client_step parseIP c c' \<Longrightarrow> cs_ready c \<Longrightarrow> cs_ready c' \<and> cs_dc c' = cs_dc c"
  by (elim client_stepE)
    (auto simp: watchServers_round_def Let_def split: option.splits prod.splits list.splits)

lemma pick_server_nth:
  assumes "cs_servers c = Some servers" "servers \<noteq> []" "length servers < 2 ^ 63"
  shows "pick_server c = RpcAnswer (servers ! (unat (cs_serverIndex c + 1) mod length servers))"
proof -
  let ?k = "unat (cs_serverIndex c + 1)" and ?n = "length servers"
  have n: "unat (word_of_nat ?n :: 64 word) = ?n"
    using assms(3) by (simp add: unat_of_nat)
  have u: "unat ((cs_serverIndex c + 1) mod word_of_nat ?n) = ?k mod ?n"
    by (simp add: unat_mod_distrib n)
  have "?k mod ?n < ?n"
    using assms(2) by simp
  then have small: "uint ((cs_serverIndex c + 1) mod word_of_nat ?n) = int (?k mod ?n)" "?k mod ?n < 2 ^ 63"
    using u assms(3) by (simp_all add: uint_nat)
  then have "sint ((cs_serverIndex c + 1) mod word_of_nat ?n) = int (?k mod ?n)"
    by (simp add: sint_uint signed_take_bit_int_eq_self)
  then show ?thesis
    using assms by (simp add: pick_server_def Let_def)
qed


section \<open>Taking turns\<close>

text \<open>The servers a run of calls asks, whatever each call brings back.\<close>

fun servers_asked :: "('ip \<times> int \<Rightarrow> 'r option) list \<Rightarrow> 'ip Consul \<Rightarrow> ('ip \<times> int) rpc_result list" where
  "servers_asked [] c = []"
| "servers_asked (pool # pools) c = pick_server c # servers_asked pools (snd (rpc pool c))"

lemma servers_asked_nth:
  assumes "ss \<noteq> []" "length ss < 2 ^ 63"
  shows "cs_servers c = Some ss \<Longrightarrow> unat (cs_serverIndex c) + length pools < 2 ^ 64 \<Longrightarrow>
    servers_asked pools c = map (\<lambda>i. RpcAnswer (ss ! ((unat (cs_serverIndex c) + 1 + i) mod length ss))) [0..<length pools]"
proof (induction pools arbitrary: c)
  case (Cons pool pools)
  have k: "unat (cs_serverIndex c + 1) = unat (cs_serverIndex c) + 1"
    using Cons.prems(2) by (simp add: unat_word_ariths)
  have "servers_asked pools (snd (rpc pool c)) =
      map (\<lambda>i. RpcAnswer (ss ! ((unat (cs_serverIndex c) + 1 + 1 + i) mod length ss))) [0..<length pools]"
    using Cons.IH[of "snd (rpc pool c)"] Cons.prems by (simp add: k)
  moreover have "pick_server c = RpcAnswer (ss ! ((unat (cs_serverIndex c) + 1 + 0) mod length ss))"
    using pick_server_nth[OF Cons.prems(1) assms] by (simp add: k)
  ultimately show ?case
    by (simp add: map_upt_Suc del: upt_Suc)
qed simp


section \<open>Properties\<close>

text \<open>
  C26: A client that is ready stays usable: from then on a call always finds a server, whatever
  the agent answers the discovery with, errors and empty answers included, and the datacenter it
  reports never changes.
\<close>

theorem client_ready_safe:
  assumes "client_reach parseIP c" "cs_ready c" "(client_step parseIP)\<^sup>*\<^sup>* c c'" "length (the (cs_servers c')) < 2 ^ 63"
  shows "cs_ready c' \<and> cs_dc c' = cs_dc c \<and> fst (rpc pool c') \<noteq> RpcPanic"
proof -
  have "client_reach parseIP c' \<and> cs_ready c' \<and> cs_dc c' = cs_dc c"
    using assms(3)
  proof (induction rule: rtranclp_induct)
    case base
    then show ?case
      using assms(1,2) by simp
  next
    case (step y z)
    then show ?case
      using client_step_dc[OF step(2)] client_next[of parseIP y z] by simp
  qed
  moreover from this obtain ss where "cs_servers c' = Some ss" "ss \<noteq> []"
    using client_reach_ok[of parseIP c'] by (auto simp: client_ok_def)
  ultimately show ?thesis
    using pick_server_nth[of c' ss] assms(4) by (auto simp: rpc_def Let_def split: option.splits)
qed

text \<open>
  C27: Calls take turns. While the servers stay the same, any run of as many calls as there are
  servers asks each of them exactly once, whether the calls succeed or fail; the counter may
  start anywhere short of wrapping.
\<close>

theorem client_takes_turns:
  assumes "cs_servers c = Some ss" "ss \<noteq> []" "length ss < 2 ^ 63" "length pools = length ss"
    and "unat (cs_serverIndex c) + length ss < 2 ^ 64"
  shows "mset (servers_asked pools c) = image_mset RpcAnswer (mset ss)"
proof -
  let ?m = "unat (cs_serverIndex c) + 1"
  have "map (\<lambda>i. RpcAnswer (ss ! ((?m + i) mod length ss))) [0..<length ss] = map RpcAnswer (rotate ?m ss)"
    by (rule nth_equalityI) (simp_all add: nth_rotate del: rotate_Suc)
  then have "servers_asked pools c = map RpcAnswer (rotate ?m ss)"
    using servers_asked_nth[OF assms(2,3,1), of pools] assms(4,5) by simp
  moreover have "mset (rotate ?m ss) = mset ss"
    unfolding rotate_drop_take mset_append by (metis append_take_drop_id mset_append union_commute)
  ultimately show ?thesis
    by (simp only: mset_map)
qed


section \<open>Witnesses\<close>

definition sample_client :: "string Consul" where
  "sample_client = watchServers_round (\<lambda>a. a)
     (Some ([\<lparr> se_Address = ''10.0.0.1'', se_Datacenter = ''dc1'', se_Port = 8300 \<rparr>,
       \<lparr> se_Address = ''10.0.0.2'', se_Datacenter = ''dc1'', se_Port = 8300 \<rparr>], 7)) Consul_New"

lemma sample_client_simps:
  "cs_servers sample_client = Some [(''10.0.0.1'', 8300), (''10.0.0.2'', 8300)]" "cs_ready sample_client" "cs_serverIndex sample_client = 0"
  by (simp_all add: sample_client_def watchServers_round_def Consul_New_def Let_def)

theorem client_ready_safe_witness: "fst (rpc (\<lambda>_. None :: unit option) sample_client) \<noteq> RpcPanic"
proof -
  have "client_reach (\<lambda>a. a) sample_client"
    unfolding sample_client_def by (blast intro: client_reach.intros client_step.intros)
  then show ?thesis
    using client_ready_safe[of "\<lambda>a. a" sample_client sample_client "\<lambda>_. None :: unit option"] sample_client_simps by simp
qed

theorem client_takes_turns_witness:
  "mset (servers_asked [\<lambda>_. None, \<lambda>_. Some ()] sample_client) =
     {#RpcAnswer (''10.0.0.1'', 8300), RpcAnswer (''10.0.0.2'', 8300)#}"
  using client_takes_turns[OF sample_client_simps(1), of "[\<lambda>_. None, \<lambda>_. Some ()]"] sample_client_simps(3) by simp

end
