(* ===== verification/Reads.thy ===== *)
theory Reads
  imports Api Writer
begin

text \<open>
  The reads of the two storages that wrap another one: \<open>Distributed\<close>
  (\<open>storage/distributed.go\<close>), where everyone reads, and \<open>Metrics\<close> (\<open>storage/metrics.go\<close>), which
  counts the calls of each operation. The writes of both are in Writer.
\<close>


section \<open>Distributed\<close>

definition Distributed_Events :: "StorageReads \<Rightarrow> Query \<Rightarrow> error + Page" where
  "Distributed_Events st q = sr_Events st q"

definition Distributed_Histogram :: "StorageReads \<Rightarrow> Query \<Rightarrow> int \<Rightarrow> Split \<Rightarrow> error + (Bucket list \<times> bool)" where
  "Distributed_Histogram st q buckets split = sr_Histogram st q buckets split"

definition Distributed_Facets :: "StorageReads \<Rightarrow> Query \<Rightarrow> string list \<Rightarrow> int \<Rightarrow> error + Facets" where
  "Distributed_Facets st q flds limit = sr_Facets st q flds limit"

definition Distributed_Suggest :: "StorageReads \<Rightarrow> string \<Rightarrow> string \<Rightarrow> string \<Rightarrow> int \<Rightarrow> error + string list" where
  "Distributed_Suggest st dc field pre limit = sr_Suggest st dc field pre limit"

definition Distributed_Instance :: "StorageReads \<Rightarrow> string \<Rightarrow> string \<Rightarrow> string \<Rightarrow> error + Instance option" where
  "Distributed_Instance st dc node sid = sr_Instance st dc node sid"

definition Distributed_Datacenters :: "StorageReads \<Rightarrow> error + string list" where
  "Distributed_Datacenters st = sr_Datacenters st"

definition Distributed_Since :: "StorageReads \<Rightarrow> string \<Rightarrow> Time \<Rightarrow> int \<Rightarrow> Event list \<times> error option" where
  "Distributed_Since st dc after limit = sr_Since st dc after limit"

text \<open>The wrapped storage as the interface its caller sees.\<close>

definition distributed_reads :: "StorageReads \<Rightarrow> StorageReads" where
  "distributed_reads st = \<lparr> sr_Events = Distributed_Events st, sr_Histogram = Distributed_Histogram st,
     sr_Facets = Distributed_Facets st, sr_Suggest = Distributed_Suggest st, sr_Instance = Distributed_Instance st,
     sr_Datacenters = Distributed_Datacenters st, sr_Since = Distributed_Since st \<rparr>"

lemma distributed_reads_inner: "distributed_reads st = st"
  by (cases st) (simp add: distributed_reads_def fun_eq_iff Distributed_Events_def Distributed_Histogram_def
      Distributed_Facets_def Distributed_Suggest_def Distributed_Instance_def Distributed_Datacenters_def Distributed_Since_def)


section \<open>Metrics\<close>

text \<open>
  The number of observations of each histogram: by operation, and the one for event queries
  that is older than the label. Latencies are not modelled.
\<close>

record Observed =
  ob_op :: "string \<Rightarrow> nat"
  ob_read :: nat

definition nothing_observed :: Observed where
  "nothing_observed = \<lparr> ob_op = \<lambda>_. 0, ob_read = 0 \<rparr>"

definition observe :: "string \<Rightarrow> Observed \<Rightarrow> Observed" where
  "observe op m = m\<lparr> ob_op := (ob_op m)(op := ob_op m op + 1) \<rparr>"

text \<open>Deferred calls run last first; what they observe does not depend on the result.\<close>

definition Metrics_Events :: "StorageReads \<Rightarrow> Query \<Rightarrow> Observed \<Rightarrow> (error + Page) \<times> Observed" where
  "Metrics_Events st q m = (sr_Events st q, observe ''events'' (m\<lparr> ob_read := ob_read m + 1 \<rparr>))"

definition Metrics_Histogram :: "StorageReads \<Rightarrow> Query \<Rightarrow> int \<Rightarrow> Split \<Rightarrow> Observed \<Rightarrow> (error + (Bucket list \<times> bool)) \<times> Observed" where
  "Metrics_Histogram st q buckets split m = (sr_Histogram st q buckets split, observe ''histogram'' m)"

definition Metrics_Facets :: "StorageReads \<Rightarrow> Query \<Rightarrow> string list \<Rightarrow> int \<Rightarrow> Observed \<Rightarrow> (error + Facets) \<times> Observed" where
  "Metrics_Facets st q flds limit m = (sr_Facets st q flds limit, observe ''facets'' m)"

definition Metrics_Suggest :: "StorageReads \<Rightarrow> string \<Rightarrow> string \<Rightarrow> string \<Rightarrow> int \<Rightarrow> Observed \<Rightarrow> (error + string list) \<times> Observed" where
  "Metrics_Suggest st dc field pre limit m = (sr_Suggest st dc field pre limit, observe ''suggest'' m)"

definition Metrics_Instance :: "StorageReads \<Rightarrow> string \<Rightarrow> string \<Rightarrow> string \<Rightarrow> Observed \<Rightarrow> (error + Instance option) \<times> Observed" where
  "Metrics_Instance st dc node sid m = (sr_Instance st dc node sid, observe ''instance'' m)"

definition Metrics_Datacenters :: "StorageReads \<Rightarrow> Observed \<Rightarrow> (error + string list) \<times> Observed" where
  "Metrics_Datacenters st m = (sr_Datacenters st, observe ''datacenters'' m)"

definition Metrics_Since :: "StorageReads \<Rightarrow> string \<Rightarrow> Time \<Rightarrow> int \<Rightarrow> Observed \<Rightarrow> (Event list \<times> error option) \<times> Observed" where
  "Metrics_Since st dc after limit m = (sr_Since st dc after limit, observe ''since'' m)"

text \<open>The answers of the wrapper in a state of its counters.\<close>

definition metered_reads :: "StorageReads \<Rightarrow> Observed \<Rightarrow> StorageReads" where
  "metered_reads st m = \<lparr> sr_Events = (\<lambda>q. fst (Metrics_Events st q m)),
     sr_Histogram = (\<lambda>q buckets split. fst (Metrics_Histogram st q buckets split m)),
     sr_Facets = (\<lambda>q flds limit. fst (Metrics_Facets st q flds limit m)),
     sr_Suggest = (\<lambda>dc field pre limit. fst (Metrics_Suggest st dc field pre limit m)),
     sr_Instance = (\<lambda>dc node sid. fst (Metrics_Instance st dc node sid m)),
     sr_Datacenters = fst (Metrics_Datacenters st m),
     sr_Since = (\<lambda>dc after limit. fst (Metrics_Since st dc after limit m)) \<rparr>"

lemma metered_reads_inner: "metered_reads st m = st"
  by (cases st) (simp add: metered_reads_def Metrics_Events_def Metrics_Histogram_def Metrics_Facets_def
      Metrics_Suggest_def Metrics_Instance_def Metrics_Datacenters_def Metrics_Since_def)

end
