(* ===== verification/Server.thy ===== *)
theory Server
  imports Reads
begin

text \<open>
  The HTTP server (\<open>server/server.go\<close>, \<open>server/static.go\<close>): which handler a request reaches, what
  is compressed, and the status each answer is written with. The router of \<open>net/http\<close> is
  modelled for the patterns the server registers and for paths in canonical form; it redirects
  every other path to its canonical one before it looks for a handler.
\<close>


section \<open>Routes\<close>

text \<open>\<open>/x\<close> and \<open>/{$}\<close> are one path; \<open>/x/\<close> is every path below.\<close>

datatype pattern = Exact string | Subtree string

datatype endpoint =
    ToWeb | Meta | Events | Histogram | Facets | Suggest | Instance_of | Stream
  | Healthz | Status_page | Readyz | Prometheus | Pprof string | Web

definition routes :: "(pattern \<times> endpoint) list" where
  "routes =
    [(Exact ''/'', ToWeb),
     (Exact ''/api/v1/meta'', Meta),
     (Exact ''/api/v1/events'', Events),
     (Exact ''/api/v1/histogram'', Histogram),
     (Exact ''/api/v1/facets'', Facets),
     (Exact ''/api/v1/suggest'', Suggest),
     (Exact ''/api/v1/instance'', Instance_of),
     (Exact ''/api/v1/stream'', Stream),
     (Exact ''/healthz'', Healthz),
     (Exact ''/status'', Status_page),
     (Exact ''/readyz'', Readyz),
     (Exact ''/metrics'', Prometheus),
     (Subtree ''/debug/pprof/'', Pprof ''index''),
     (Exact ''/debug/pprof/cmdline'', Pprof ''cmdline''),
     (Exact ''/debug/pprof/profile'', Pprof ''profile''),
     (Exact ''/debug/pprof/symbol'', Pprof ''symbol''),
     (Exact ''/debug/pprof/trace'', Pprof ''trace''),
     (Subtree ''/web/'', Web)]"

fun pattern_matches :: "pattern \<Rightarrow> string \<Rightarrow> bool" where
  "pattern_matches (Exact p) path = (path = p)"
| "pattern_matches (Subtree p) path = HasPrefix path p"

text \<open>The most specific pattern wins: the path itself, else the longest subtree it is in.\<close>

fun specificity :: "pattern \<Rightarrow> nat" where
  "specificity (Exact p) = 2 * length p + 1"
| "specificity (Subtree p) = 2 * length p"

fun best_match :: "string \<Rightarrow> (pattern \<times> 'e) list \<Rightarrow> (pattern \<times> 'e) option" where
  "best_match path [] = None"
| "best_match path ((p, e) # rs) =
     (if pattern_matches p path then
        (case best_match path rs of
           Some (p', e') \<Rightarrow> if specificity p < specificity p' then Some (p', e') else Some (p, e)
         | None \<Rightarrow> Some (p, e))
      else best_match path rs)"

text \<open>
  What the router does with a request. Every pattern is registered for GET, which takes HEAD
  with it; a path that only lacks the slash of a subtree is redirected.
\<close>

datatype routed = To endpoint | Moved string | WrongMethod | NoPage

definition serve_route :: "string \<Rightarrow> string \<Rightarrow> routed" where
  "serve_route meth path =
     (let found = map_option snd (best_match path routes);
          slash = (case best_match (path @ ''/'') routes of Some (Subtree p, e) \<Rightarrow> p = path @ ''/'' | _ \<Rightarrow> False)
      in if meth = ''GET'' \<or> meth = ''HEAD'' then
           (case found of Some e \<Rightarrow> To e | None \<Rightarrow> if slash then Moved (path @ ''/'') else NoPage)
         else if found \<noteq> None \<or> slash then WrongMethod else NoPage)"

text \<open>\<open>Handler\<close>: everything but the stream goes through the compressing handler.\<close>

definition compressed :: "string \<Rightarrow> bool" where
  "compressed path \<longleftrightarrow> \<not> HasPrefix path ''/api/v1/stream''"


section \<open>Static files\<close>

text \<open>Where the handler of \<open>/web/\<close> takes a file from; reading it is \<open>http.FileServer\<close>'s.\<close>

datatype static_file = FromDir string string | NotBuilt | Embedded string

definition static :: "string \<Rightarrow> bool \<Rightarrow> string \<Rightarrow> static_file" where
  "static dir built path =
     (let file = drop (length ''/web/'') path
      in if dir \<noteq> [] then FromDir dir file
         else if \<not> built then NotBuilt
         else Embedded file)"


section \<open>Requests\<close>

record Server =
  sv_StaticDir :: string
  sv_Built :: bool
  sv_store :: StorageReads
  sv_watch :: WatchView
  sv_version :: string
  sv_retentionDays :: int
  sv_hub :: Hub

record Request =
  rq_Method :: string
  rq_Path :: string
  rq_Values :: Values
  rq_LastEventID :: string

datatype reply =
    RMeta "metaResponse response"
  | REvents "eventsResponse response"
  | RHistogram "histogramResponse response"
  | RFacets "Facets response"
  | RSuggest "string list response"
  | RInstance "Instance response"
  | RStream "(frame list \<times> nat) response"
  | RReady "unit response"
  | RText string
  | RRedirect string
  | RWrongMethod
  | RNoPage
  | RLibrary string
  | RStatic static_file

text \<open>The readings of the clock a handler takes, in turn.\<close>

record Clock =
  ck_1 :: Time
  ck_2 :: Time
  ck_3 :: Time
  ck_4 :: Time

fun answer :: "Clock \<Rightarrow> Server \<Rightarrow> Request \<Rightarrow> endpoint \<Rightarrow> reply \<times> Hub" where
  "answer k s r ToWeb = (RRedirect ''/web/'', sv_hub s)"
| "answer k s r Meta = (RMeta (handleMeta (sv_store s) (sv_watch s) (sv_retentionDays s) (sv_version s)), sv_hub s)"
| "answer k s r Events = (REvents (handleEvents (ck_1 k) (ck_2 k) (sv_store s) (rq_Values r)), sv_hub s)"
| "answer k s r Histogram = (RHistogram (handleHistogram (ck_1 k) (ck_2 k) (sv_store s) (rq_Values r)), sv_hub s)"
| "answer k s r Facets = (RFacets (handleFacets (ck_1 k) (ck_2 k) (sv_store s) (rq_Values r)), sv_hub s)"
| "answer k s r Suggest = (RSuggest (handleSuggest (sv_store s) (sv_watch s) (rq_Values r)), sv_hub s)"
| "answer k s r Instance_of = (RInstance (handleInstance (sv_store s) (rq_Values r)), sv_hub s)"
| "answer k s r Stream =
    (case handleStream (ck_1 k) (ck_2 k) (ck_3 k) (ck_4 k) (sv_store s) (sv_watch s) (rq_LastEventID r) (rq_Values r) (sv_hub s)
     of (res, h) \<Rightarrow> (RStream res, h))"
| "answer k s r Healthz = (RText ''OK'', sv_hub s)"
| "answer k s r Status_page = (RText ''OK'', sv_hub s)"
| "answer k s r Readyz = (RReady (handleReady (sv_store s) (sv_watch s)), sv_hub s)"
| "answer k s r Prometheus = (RLibrary ''metrics'', sv_hub s)"
| "answer k s r (Pprof page) = (RLibrary page, sv_hub s)"
| "answer k s r Web = (RStatic (static (sv_StaticDir s) (sv_Built s) (rq_Path r)), sv_hub s)"

definition Server_serve :: "Clock \<Rightarrow> Server \<Rightarrow> Request \<Rightarrow> reply \<times> Hub" where
  "Server_serve k s r =
     (case serve_route (rq_Method r) (rq_Path r) of
        To e \<Rightarrow> answer k s r e
      | Moved path \<Rightarrow> (RRedirect path, sv_hub s)
      | WrongMethod \<Rightarrow> (RWrongMethod, sv_hub s)
      | NoPage \<Rightarrow> (RNoPage, sv_hub s))"

text \<open>The status an answer is written with; a handler that panics writes none.\<close>

fun status_code :: "'a response \<Rightarrow> int option" where
  "status_code (OK a) = Some 200"
| "status_code (BadRequest e) = Some 400"
| "status_code (BadRequestStorage e) = Some 400"
| "status_code NotFound = Some 404"
| "status_code (InternalError e) = Some 500"
| "status_code (Unavailable e) = Some 503"
| "status_code Panicked = None"

text \<open>For what the library answers, the status is its own.\<close>

datatype sent = Sent int | Aborted | ByLibrary

definition of_code :: "int option \<Rightarrow> sent" where
  "of_code c = (case c of Some n \<Rightarrow> Sent n | None \<Rightarrow> Aborted)"

fun reply_status :: "reply \<Rightarrow> sent" where
  "reply_status (RMeta r) = of_code (status_code r)"
| "reply_status (REvents r) = of_code (status_code r)"
| "reply_status (RHistogram r) = of_code (status_code r)"
| "reply_status (RFacets r) = of_code (status_code r)"
| "reply_status (RSuggest r) = of_code (status_code r)"
| "reply_status (RInstance r) = of_code (status_code r)"
| "reply_status (RStream r) = of_code (status_code r)"
| "reply_status (RReady r) = of_code (status_code r)"
| "reply_status (RText t) = Sent 200"
| "reply_status (RRedirect p) = Sent 301"
| "reply_status RWrongMethod = Sent 405"
| "reply_status RNoPage = Sent 404"
| "reply_status (RLibrary n) = ByLibrary"
| "reply_status (RStatic f) = (if f = NotBuilt then Sent 503 else ByLibrary)"


section \<open>The router\<close>

lemma best_match_mem: "best_match path rs = Some (p, e) \<Longrightarrow> (p, e) \<in> set rs \<and> pattern_matches p path"
  by (induction path rs rule: best_match.induct) (auto split: if_splits option.splits)

lemma best_match_best:
  "best_match path rs = Some (p, e) \<Longrightarrow> (p', e') \<in> set rs \<Longrightarrow> pattern_matches p' path \<Longrightarrow> specificity p' \<le> specificity p"
proof (induction path rs arbitrary: p e rule: best_match.induct)
  case (2 path p0 e0 rs)
  then show ?case
  proof (cases "best_match path rs")
    case None
    then have "\<not> pattern_matches p' path" if "(p', e') \<in> set rs"
      using that by (induction rs) (auto split: if_splits option.splits)
    then show ?thesis
      using 2 None by (auto split: if_splits)
  qed (use 2 in \<open>fastforce split: if_splits\<close>)
qed simp

lemma best_match_None: "best_match path rs = None \<longleftrightarrow> (\<forall>(p, e) \<in> set rs. \<not> pattern_matches p path)"
  by (induction path rs rule: best_match.induct) (auto split: option.splits)


lemma odd_even_apart: "2 * m + 1 \<noteq> 2 * (n :: nat)"
  by presburger

lemma prefix_same_length: "HasPrefix s p \<Longrightarrow> HasPrefix s p' \<Longrightarrow> length p = length p' \<Longrightarrow> p = p'"
  unfolding HasPrefix_def by metis

lemma specificity_inj:
  assumes "pattern_matches p path" "pattern_matches p' path" "specificity p = specificity p'"
  shows "p = p'"
proof (cases p)
  case (Exact s)
  then show ?thesis
    using assms odd_even_apart[of "length s"] by (cases p') auto
next
  case (Subtree s)
  show ?thesis
  proof (cases p')
    case (Exact t)
    then show ?thesis
      using assms(3) odd_even_apart[of "length t" "length s"] \<open>p = Subtree s\<close> by simp
  next
    case (Subtree t)
    have "HasPrefix path s" "HasPrefix path t" "length s = length t"
      using assms \<open>p = Subtree s\<close> Subtree by simp_all
    then show ?thesis
      using prefix_same_length \<open>p = Subtree s\<close> Subtree by blast
  qed
qed

text \<open>With no pattern registered twice, the order of registration does not matter.\<close>

lemma best_match_perm:
  assumes "mset rs = mset rs'" "distinct (map fst rs)"
  shows "best_match path rs = best_match path rs'"
proof -
  have same: "set rs = set rs'"
    using assms(1) by (rule mset_eq_setD)
  show ?thesis
  proof (cases "best_match path rs")
    case None
    then have "best_match path rs' = None"
      unfolding best_match_None same .
    then show ?thesis
      using None by simp
  next
    case (Some m)
    obtain p e where m: "m = (p, e)"
      by (cases m)
    note found = best_match_mem[OF Some[unfolded m]]
    then obtain p' e' where m': "best_match path rs' = Some (p', e')"
      using best_match_None[of path rs'] same by (cases "best_match path rs'") auto
    note found' = best_match_mem[OF m']
    have "specificity p = specificity p'"
      using best_match_best[OF Some[unfolded m], of p' e'] best_match_best[OF m', of p e] found found' same by auto
    then have "p = p'"
      using specificity_inj found found' by blast
    then have "e = e'"
      using eq_key_imp_eq_value[OF assms(2), of p] found found' same by auto
    then show ?thesis
      using Some m m' \<open>p = p'\<close> by simp
  qed
qed

lemma To_route:
  assumes "serve_route meth path = To e"
  shows "(meth = ''GET'' \<or> meth = ''HEAD'') \<and> (\<exists>p. (p, e) \<in> set routes \<and> pattern_matches p path)"
proof -
  have "(meth = ''GET'' \<or> meth = ''HEAD'') \<and> map_option snd (best_match path routes) = Some e"
    using assms by (auto simp: serve_route_def Let_def split: if_splits option.splits)
  then show ?thesis
    using best_match_mem[of path routes] by fastforce
qed


section \<open>Answers over the in-memory storage\<close>

lemma parseQuery_valid: "parseQuery now1 now2 v = Inr q \<Longrightarrow> Query_Validate q = None"
  by (auto simp: parseQuery_Inr)

lemma Memory_Histogram_fails:
  "Query_Validate q = None \<Longrightarrow> Memory_Histogram now m q b split = Inl err \<Longrightarrow> err = PanicMakeslice \<and> \<not> window_ok now q b"
  by (auto simp: Memory_Histogram_def Let_def split: if_splits elim: hist_ok[where s = m and split = split])

lemma memory_answers:
  "\<exists>a. handleMeta (memory_reads now m) w n ver = OK a"
  "of_code (status_code (handleEvents t1 t2 (memory_reads now m) v)) \<in> {Sent 200, Sent 400}"
  "of_code (status_code (handleFacets t1 t2 (memory_reads now m) v)) \<in> {Sent 200, Sent 400}"
  "of_code (status_code (handleInstance (memory_reads now m) v)) \<in> {Sent 200, Sent 404}"
  "of_code (status_code (handleReady (memory_reads now m) w)) \<in> {Sent 200, Sent 503}"
  "of_code (status_code (fst (handleStream t1 t2 t3 t4 st w lid v h))) \<in> {Sent 200, Sent 400}"
  by (auto simp: handleMeta_def handleEvents_def handleFacets_def handleInstance_def handleReady_def handleStream_def
      memory_reads_def Memory_Events_def Memory_Facets_def Let_def of_code_def
      split: sum.split option.split prod.split dest: parseQuery_valid)


text \<open>The endpoint tells the path, except under a subtree.\<close>

lemma To_path:
  "serve_route meth path = To e \<Longrightarrow> e = Suggest \<Longrightarrow> path = ''/api/v1/suggest''"
  "serve_route meth path = To e \<Longrightarrow> e = Histogram \<Longrightarrow> path = ''/api/v1/histogram''"
  "serve_route meth path = To e \<Longrightarrow> e = Stream \<Longrightarrow> path = ''/api/v1/stream''"
  by (auto simp: routes_def dest!: To_route)

lemma HasPrefix_nth: "HasPrefix s p \<Longrightarrow> i < length p \<Longrightarrow> s ! i = p ! i"
  unfolding HasPrefix_def by (metis nth_take)

lemma compressed_route:
  assumes "(p, e) \<in> set routes" "pattern_matches p path"
  shows "compressed path \<longleftrightarrow> e \<noteq> Stream"
proof (cases p)
  case (Exact s)
  then show ?thesis
    using assms by (auto simp: routes_def compressed_def HasPrefix_def)
next
  case (Subtree s)
  then have "path ! 1 \<noteq> CHR ''a'' \<and> e \<noteq> Stream"
    using assms HasPrefix_nth[of path s 1] by (auto simp: routes_def)
  then show ?thesis
    using HasPrefix_nth[of path "''/api/v1/stream''" 1] by (auto simp: compressed_def)
qed

lemma routed_compressed: "serve_route meth path = To e \<Longrightarrow> compressed path \<longleftrightarrow> e \<noteq> Stream"
  using To_route[of meth path e] compressed_route[of _ e path] by blast

text \<open>The order of registration does not matter.\<close>

lemma routes_order_free: "mset rs = mset routes \<Longrightarrow> best_match path rs = best_match path routes"
  by (rule best_match_perm[symmetric]) (simp_all add: routes_def)

text \<open>The two ways for a handler to panic over the in-memory storage.\<close>

definition asks_for_panic :: "Clock \<Rightarrow> Time \<Rightarrow> Request \<Rightarrow> bool" where
  "asks_for_panic k now r \<longleftrightarrow>
     rq_Path r = ''/api/v1/suggest'' \<and> intParam (rq_Values r) ''limit'' 20 < 0 \<or>
     rq_Path r = ''/api/v1/histogram'' \<and>
       (\<exists>q. parseQuery (ck_1 k) (ck_2 k) (rq_Values r) = Inr q \<and> \<not> window_ok now q (intParam (rq_Values r) ''buckets'' 60))"

lemma histogram_answers:
  assumes "rq_Path r = ''/api/v1/histogram''"
  shows "of_code (status_code (handleHistogram (ck_1 k) (ck_2 k) (memory_reads now m) (rq_Values r))) \<in>
    (if asks_for_panic k now r then {Sent 200, Sent 400, Aborted} else {Sent 200, Sent 400})"
  using assms
  by (auto simp: handleHistogram_def memory_reads_def of_code_def asks_for_panic_def
      split: sum.split error.split dest!: Memory_Histogram_fails[OF parseQuery_valid])

lemma suggest_answers:
  assumes "rq_Path r = ''/api/v1/suggest''"
  shows "of_code (status_code (handleSuggest (memory_reads now m) w (rq_Values r))) =
    (if asks_for_panic k now r then Aborted else Sent 200)"
  using assms by (simp add: handleSuggest_memory of_code_def asks_for_panic_def)

lemma answers:
  assumes "serve_route (rq_Method r) (rq_Path r) = To e" "sv_store s = memory_reads now m"
  shows "reply_status (fst (answer k s r e)) \<in>
    {Sent 200, Sent 301, Sent 400, Sent 404, Sent 503, ByLibrary} \<union> (if asks_for_panic k now r then {Aborted} else {})"
proof (cases e)
  case Histogram
  then show ?thesis
    using To_path(2)[OF assms(1)] histogram_answers[of r k now m] assms(2) by (auto split: if_splits)
next
  case Suggest
  then show ?thesis
    using To_path(1)[OF assms(1)] suggest_answers[of r now m "sv_watch s" k] assms(2) by simp
next
  case Meta
  then show ?thesis
    using memory_answers(1)[of now m "sv_watch s" "sv_retentionDays s" "sv_version s"] assms(2) by (auto simp: of_code_def)
next
  case Events
  then show ?thesis
    using memory_answers(2)[of "ck_1 k" "ck_2 k" now m "rq_Values r"] assms(2) by auto
next
  case Facets
  then show ?thesis
    using memory_answers(3)[of "ck_1 k" "ck_2 k" now m "rq_Values r"] assms(2) by auto
next
  case Instance_of
  then show ?thesis
    using memory_answers(4)[of now m "rq_Values r"] assms(2) by auto
next
  case Readyz
  then show ?thesis
    using memory_answers(5)[of now m "sv_watch s"] assms(2) by auto
next
  case Stream
  then show ?thesis
    using memory_answers(6)[of "ck_1 k" "ck_2 k" "ck_3 k" "ck_4 k" "sv_store s" "sv_watch s" "rq_LastEventID r" "rq_Values r" "sv_hub s"]
    by (auto split: prod.split)
qed simp_all


section \<open>Properties\<close>

text \<open>
  C20: Over the in-memory storage the server answers every request, of any method, path and
  parameters: with a page, a redirect, a bad request, not found, method not allowed, or
  unavailable while the watcher is not ready or the interface not built. No request fails with
  an internal error, and a handler can panic only for a negative limit of suggestions, or for
  a histogram of a window that is empty, absurdly wide or cut in absurdly many buckets.
\<close>

theorem requests_answered:
  "reply_status (fst (Server_serve k (s\<lparr>sv_store := memory_reads now m\<rparr>) r)) \<in>
     {Sent 200, Sent 301, Sent 400, Sent 404, Sent 405, Sent 503, ByLibrary} \<union>
     (if asks_for_panic k now r then {Aborted} else {})"
proof (cases "serve_route (rq_Method r) (rq_Path r)")
  case (To e)
  then show ?thesis
    using answers[OF To, of "s\<lparr>sv_store := memory_reads now m\<rparr>" now m k] by (auto simp: Server_serve_def)
qed (simp_all add: Server_serve_def)

text \<open>
  C21: Requests only read, streams excepted. A request leaves the hub as it was unless it is a GET or HEAD for the stream whose query is
  accepted for the local datacenter, and that one adds exactly its own client; and of the
  requests that reach a handler it is exactly the stream's whose answer is not compressed.
\<close>

theorem streams_alone_subscribe:
  "snd (Server_serve k s r) =
     (if (rq_Method r = ''GET'' \<or> rq_Method r = ''HEAD'') \<and> rq_Path r = ''/api/v1/stream''
      then (case stream_query (ck_1 k) (ck_2 k) (sv_watch s) (rq_Values r) of
              Inr q \<Rightarrow> snd (subscribe q (sv_hub s)) | Inl err \<Rightarrow> sv_hub s)
      else sv_hub s) \<and>
   (case serve_route (rq_Method r) (rq_Path r) of To e \<Rightarrow> compressed (rq_Path r) = (e \<noteq> Stream) | _ \<Rightarrow> True)"
proof (intro conjI)
  have hit: "serve_route meth ''/api/v1/stream'' = To Stream" if "meth = ''GET'' \<or> meth = ''HEAD''" for meth
    using that by (auto simp: serve_route_def routes_def HasPrefix_def)
  have only: "snd (answer k s r e) = sv_hub s" if "e \<noteq> Stream" for e
    using that by (cases e) simp_all
  show "snd (Server_serve k s r) =
     (if (rq_Method r = ''GET'' \<or> rq_Method r = ''HEAD'') \<and> rq_Path r = ''/api/v1/stream''
      then (case stream_query (ck_1 k) (ck_2 k) (sv_watch s) (rq_Values r) of
              Inr q \<Rightarrow> snd (subscribe q (sv_hub s)) | Inl err \<Rightarrow> sv_hub s)
      else sv_hub s)"
  proof (cases "(rq_Method r = ''GET'' \<or> rq_Method r = ''HEAD'') \<and> rq_Path r = ''/api/v1/stream''")
    case True
    then show ?thesis
      using hit by (auto simp: Server_serve_def handleStream_def split: sum.split prod.split)
  next
    case False
    then have "serve_route (rq_Method r) (rq_Path r) \<noteq> To Stream"
      using To_route To_path(3) by blast
    then show ?thesis
      using False only by (auto simp: Server_serve_def split: routed.split)
  qed
  show "case serve_route (rq_Method r) (rq_Path r) of To e \<Rightarrow> compressed (rq_Path r) = (e \<noteq> Stream) | _ \<Rightarrow> True"
    by (simp add: routed_compressed split: routed.split)
qed

end
