(* ===== verification/Program.thy ===== *)
theory Program
  imports Reads Client
begin

text \<open>
  The program itself: its configuration (\<open>config.go\<close> and the \<open>config.go\<close> of each package) and
  what \<open>main.go\<close> wires together: the storage it builds, and the loop that hands every event of
  the watcher to the live streams and to the storage writer.
\<close>


section \<open>Configuration\<close>

record ConsulConfig =
  cc_Address :: string
  cc_Token :: string
  cc_Datacenter :: string
  cc_EnableDistributedLock :: bool
  cc_LockPath :: string

definition Consul_DefaultConfig :: ConsulConfig where
  "Consul_DefaultConfig = \<lparr> cc_Address = ''localhost:8500'', cc_Token = [], cc_Datacenter = [],
     cc_EnableDistributedLock = False, cc_LockPath = ''consul_timeline/lock'' \<rparr>"

record ServerConfig =
  sc_ListenAddr :: string
  sc_StaticDir :: string

definition Server_DefaultConfig :: ServerConfig where
  "Server_DefaultConfig = \<lparr> sc_ListenAddr = '':8888'', sc_StaticDir = [] \<rparr>"

record MysqlConfig =
  my_Host :: string
  my_Port :: int
  my_User :: string
  my_Password :: string
  my_Database :: string
  my_SetupSchema :: bool
  my_PrintSchema :: bool
  my_RetentionDays :: int
  my_FacetSample :: int
  my_MaxOpenConns :: int
  my_Params :: string

definition Mysql_DefaultConfig :: MysqlConfig where
  "Mysql_DefaultConfig = \<lparr> my_Host = ''localhost'', my_Port = 3306, my_User = [], my_Password = [], my_Database = ''consul_timeline'',
     my_SetupSchema = False, my_PrintSchema = False, my_RetentionDays = 14, my_FacetSample = 100000, my_MaxOpenConns = 16, my_Params = [] \<rparr>"

definition dsn :: "MysqlConfig \<Rightarrow> string" where
  "dsn cfg =
     (let d = my_User cfg @ '':'' @ my_Password cfg @ ''@tcp('' @ my_Host cfg @ '':'' @ Itoa (my_Port cfg) @ '')/'' @ my_Database cfg @
        ''?parseTime=true&loc=UTC&charset=utf8mb4&interpolateParams=true''
      in if my_Params cfg \<noteq> [] then d @ ''&'' @ my_Params cfg else d)"

record MemoryConfig =
  mm_MaxSize :: int

definition Memory_DefaultConfig :: MemoryConfig where
  "Memory_DefaultConfig = \<lparr> mm_MaxSize = 10000 \<rparr>"

record Config =
  cf_LogLevel :: string
  cf_LogFormat :: string
  cf_Storage :: string
  cf_Consul :: ConsulConfig
  cf_Server :: ServerConfig
  cf_Mysql :: MysqlConfig
  cf_Memory :: MemoryConfig
  cf_Derive :: Derive

text \<open>\<open>DefaultConfig\<close> with the defaults of the packages, as \<open>GetConfig\<close> starts from.\<close>

definition DefaultConfig :: Config where
  "DefaultConfig = \<lparr> cf_LogLevel = ''info'', cf_LogFormat = ''text'', cf_Storage = ''memory'', cf_Consul = Consul_DefaultConfig,
     cf_Server = Server_DefaultConfig, cf_Mysql = Mysql_DefaultConfig, cf_Memory = Memory_DefaultConfig, cf_Derive = DefaultDerive \<rparr>"

text \<open>The values of the flags once the command line is parsed; each starts at its default.\<close>

record Flags =
  fl_log_level :: string
  fl_log_format :: string
  fl_config :: string
  fl_storage :: string
  fl_print_config :: bool
  fl_derive_team :: string
  fl_derive_app :: string
  fl_derive_version :: string
  fl_consul :: ConsulConfig
  fl_server :: ServerConfig
  fl_mysql :: MysqlConfig
  fl_memory :: MemoryConfig

definition no_flags :: Flags where
  "no_flags = \<lparr> fl_log_level = cf_LogLevel DefaultConfig, fl_log_format = cf_LogFormat DefaultConfig, fl_config = [],
     fl_storage = cf_Storage DefaultConfig, fl_print_config = False, fl_derive_team = [], fl_derive_app = [], fl_derive_version = [],
     fl_consul = Consul_DefaultConfig, fl_server = Server_DefaultConfig, fl_mysql = Mysql_DefaultConfig, fl_memory = Memory_DefaultConfig \<rparr>"

definition FromFlags :: "Flags \<Rightarrow> Config" where
  "FromFlags f =
     (let d = DefaultDerive;
          d = (if fl_derive_team f \<noteq> [] then d\<lparr> dv_Team := SplitList (fl_derive_team f) \<rparr> else d);
          d = (if fl_derive_app f \<noteq> [] then d\<lparr> dv_App := SplitList (fl_derive_app f) \<rparr> else d);
          d = (if fl_derive_version f \<noteq> [] then d\<lparr> dv_Version := SplitList (fl_derive_version f) \<rparr> else d)
      in \<lparr> cf_LogLevel = fl_log_level f, cf_LogFormat = fl_log_format f, cf_Storage = fl_storage f, cf_Consul = fl_consul f,
           cf_Server = fl_server f, cf_Mysql = fl_mysql f, cf_Memory = fl_memory f, cf_Derive = d \<rparr>)"

text \<open>
  \<open>GetConfig\<close>: reading the file and decoding YAML over a configuration are parameters; the
  process exits when either fails, and after printing.
\<close>

datatype get_config = ConfigFatal | ConfigPrinted Config | ConfigRun Config

definition GetConfig :: "(string \<Rightarrow> string option) \<Rightarrow> (string \<Rightarrow> Config \<Rightarrow> Config option) \<Rightarrow> Flags \<Rightarrow> get_config" where
  "GetConfig read_file unmarshal f =
     (let res = (if fl_config f \<noteq> [] then
            (case read_file (fl_config f) of None \<Rightarrow> None | Some b \<Rightarrow> unmarshal b DefaultConfig)
          else Some (FromFlags f))
      in case res of None \<Rightarrow> ConfigFatal | Some cfg \<Rightarrow> if fl_print_config f then ConfigPrinted cfg else ConfigRun cfg)"

text \<open>Without a file and without flags the two ways to a configuration agree.\<close>

lemma GetConfig_default: "GetConfig read_file unmarshal no_flags = ConfigRun DefaultConfig"
  by (simp add: GetConfig_def FromFlags_def no_flags_def DefaultConfig_def)

text \<open>With a file, the flags of the packages are read and then ignored.\<close>

lemma GetConfig_file:
  "fl_config f \<noteq> [] \<Longrightarrow> GetConfig read_file unmarshal f =
     GetConfig read_file unmarshal (no_flags\<lparr> fl_config := fl_config f, fl_print_config := fl_print_config f \<rparr>)"
  by (simp add: GetConfig_def no_flags_def split: option.split)


section \<open>The storage\<close>

definition watchBuffer :: nat where "watchBuffer = 10000"
definition storageQueue :: nat where "storageQueue = 100000"
definition maintainInterval :: Duration where "maintainInterval = 10 * Minute"

text \<open>Which backend the configuration names, and what is put around it.\<close>

datatype backend = MysqlBackend MysqlConfig | MemoryBackend MemoryConfig

definition main_backend :: "Config \<Rightarrow> backend" where
  "main_backend cfg = (if cf_Storage cfg = ''mysql'' then MysqlBackend (cf_Mysql cfg) else MemoryBackend (cf_Memory cfg))"

text \<open>Asked for the schema, the program prints it and does nothing else.\<close>

datatype main_run = PrintsSchema | Serves backend

definition main_start :: "Config \<Rightarrow> main_run" where
  "main_start cfg = (if my_PrintSchema (cf_Mysql cfg) then PrintsSchema else Serves (main_backend cfg))"

definition main_writer :: "Config \<Rightarrow> 's WriterOps \<Rightarrow> bool \<Rightarrow> 's Metrics WriterOps" where
  "main_writer cfg inner leader =
     metered (if cc_EnableDistributedLock (cf_Consul cfg) then distributed inner leader else inner)"

definition main_reads :: "Config \<Rightarrow> StorageReads \<Rightarrow> Observed \<Rightarrow> StorageReads" where
  "main_reads cfg inner m =
     metered_reads (if cc_EnableDistributedLock (cf_Consul cfg) then distributed_reads inner else inner) m"

text \<open>Whatever is put around the storage, its readers see it.\<close>

lemma main_reads_inner: "main_reads cfg inner m = inner"
  by (simp add: main_reads_def metered_reads_inner distributed_reads_inner)

text \<open>
  \<open>maintain\<close>: a round after each tick of the timer, thirty seconds after the start and then at
  intervals; the context ends it. An error is logged and changes nothing.
\<close>

fun maintain_rounds :: "('s \<Rightarrow> bool \<times> 's) \<Rightarrow> bool list \<Rightarrow> 's \<Rightarrow> 's" where
  "maintain_rounds maintain [] s = s"
| "maintain_rounds maintain (tick # rest) s = (if \<not> tick then s else maintain_rounds maintain rest (snd (maintain s)))"


section \<open>From the watcher to the streams and the writer\<close>

text \<open>
  The loop of \<open>main\<close>: it takes an event of the watcher, publishes it to the hub and then queues
  it for the writer, unless the context ends while it waits for room in the queue. The streams
  act on the hub meanwhile, and the writer takes from the other end of the queue.
\<close>

record Pipeline =
  pl_system :: System
  pl_published :: "Event list"
  pl_queue :: "Event list"
  pl_taken :: "Event list"
  pl_done :: bool

definition Pipeline_new :: Pipeline where
  "Pipeline_new = \<lparr> pl_system = System_new, pl_published = [], pl_queue = [], pl_taken = [], pl_done = False \<rparr>"

inductive pipeline_step :: "(nat list \<Rightarrow> nat list) \<Rightarrow> Pipeline \<Rightarrow> Pipeline \<Rightarrow> bool" for ord where
  forward: "\<not> pl_done p \<Longrightarrow> act ord (DoPublish e) (pl_system p) = Inr y \<Longrightarrow> length (pl_queue p) < storageQueue \<Longrightarrow>
    pipeline_step ord p (p\<lparr> pl_system := y, pl_published := pl_published p @ [e], pl_queue := pl_queue p @ [e] \<rparr>)"
| forward_cancelled: "\<not> pl_done p \<Longrightarrow> act ord (DoPublish e) (pl_system p) = Inr y \<Longrightarrow>
    pipeline_step ord p (p\<lparr> pl_system := y, pl_published := pl_published p @ [e], pl_done := True \<rparr>)"
| cancelled: "\<not> pl_done p \<Longrightarrow> pipeline_step ord p (p\<lparr> pl_done := True \<rparr>)"
| taken: "pl_queue p = e # q \<Longrightarrow> pipeline_step ord p (p\<lparr> pl_queue := q, pl_taken := pl_taken p @ [e] \<rparr>)"
| streams: "\<forall>e. a \<noteq> DoPublish e \<Longrightarrow> act ord a (pl_system p) = Inr y \<Longrightarrow> pipeline_step ord p (p\<lparr> pl_system := y \<rparr>)"

inductive pipeline_reach :: "(nat list \<Rightarrow> nat list) \<Rightarrow> Pipeline \<Rightarrow> bool" for ord where
  pipeline_new: "pipeline_reach ord Pipeline_new"
| pipeline_next: "pipeline_reach ord p \<Longrightarrow> pipeline_step ord p p' \<Longrightarrow> pipeline_reach ord p'"

inductive_cases pipeline_stepE: "pipeline_step ord p p'"

definition pipeline_ok :: "Pipeline \<Rightarrow> bool" where
  "pipeline_ok p \<longleftrightarrow> system_ok (pl_system p) \<and> length (pl_queue p) \<le> storageQueue \<and>
     (\<exists>lost. pl_published p = pl_taken p @ pl_queue p @ lost \<and> length lost \<le> (if pl_done p then 1 else 0))"

lemma act_keeps_ok: "perm_order ord \<Longrightarrow> system_ok y \<Longrightarrow> act ord a y = Inr y' \<Longrightarrow> system_ok y'"
  using system_ok_act[of ord y a] by auto

lemma pipeline_step_ok:
  assumes "perm_order ord" "pipeline_step ord p p'" "pipeline_ok p"
  shows "pipeline_ok p'"
  using assms(2,3)
  by (elim pipeline_stepE) (auto simp: pipeline_ok_def dest: act_keeps_ok[OF assms(1)])

lemma pipeline_reach_ok:
  assumes "perm_order ord"
  shows "pipeline_reach ord p \<Longrightarrow> pipeline_ok p"
proof (induction rule: pipeline_reach.induct)
  case pipeline_new
  then show ?case
    by (simp add: pipeline_ok_def Pipeline_new_def system_ok_new)
next
  case (pipeline_next p p')
  then show ?case
    using pipeline_step_ok[OF assms] by blast
qed


section \<open>Properties\<close>

text \<open>
  C25: The loop of main keeps order and loses at most one event. Whatever the streams do and
  whenever the context ends, publishing never panics, the queue to the writer never exceeds its
  capacity, and the events published to the live streams are those the writer has taken followed
  by those still queued, in order and each once, except that the one published as the context
  ended may be missing at the end.
\<close>

theorem forward_in_order:
  assumes "perm_order ord" "pipeline_reach ord p"
  shows "\<exists>lost. pl_published p = pl_taken p @ pl_queue p @ lost \<and> length lost \<le> (if pl_done p then 1 else 0) \<and>
    length (pl_queue p) \<le> storageQueue \<and> (\<exists>y. act ord (DoPublish e) (pl_system p) = Inr y)"
proof -
  have "pipeline_ok p"
    using pipeline_reach_ok[OF assms] .
  then show ?thesis
    using system_ok_publish[OF assms(1), of "pl_system p" e] by (auto simp: pipeline_ok_def)
qed

theorem forward_in_order_witness:
  "\<exists>(p :: Pipeline) lost. pl_published p = [zero_event] \<and> pl_published p = pl_taken p @ pl_queue p @ lost \<and> pl_done p"
proof -
  obtain y where y: "act (\<lambda>is. is) (DoPublish zero_event) (pl_system Pipeline_new) = Inr y"
    using system_ok_publish[of "\<lambda>is. is" System_new zero_event] system_ok_new by (auto simp: perm_order_def Pipeline_new_def)
  let ?p = "Pipeline_new\<lparr> pl_system := y, pl_published := [] @ [zero_event], pl_done := True \<rparr>"
  have "pipeline_step (\<lambda>is. is) Pipeline_new ?p"
    using forward_cancelled[OF _ y] by (simp add: Pipeline_new_def)
  then have "pipeline_reach (\<lambda>is. is) ?p"
    by (blast intro: pipeline_reach.intros)
  then obtain lost where split: "pl_published ?p = pl_taken ?p @ pl_queue ?p @ lost"
    using forward_in_order[of "\<lambda>is. is" ?p zero_event] by (auto simp: perm_order_def)
  have published: "pl_published ?p = [zero_event]" "pl_done ?p"
    by simp_all
  show ?thesis
    by (rule exI[of _ ?p], rule exI[of _ lost]) (intro conjI published split)
qed

end
