(* ===== verification/CommandLine.thy ===== *)
theory CommandLine
  imports Program
begin

text \<open>
  The command line: the flags that \<open>config.go\<close> and the \<open>config.go\<close> of each package register, and
  package \<open>flag\<close>, which parses them. The result is the record \<open>Flags\<close> that \<open>FromFlags\<close> reads.
\<close>


section \<open>Numbers of package strconv, with the base in the text\<close>

text \<open>\<open>ParseInt(s, 0, 64)\<close>; \<open>None\<close> is an error, of syntax or of range.\<close>

definition lower :: "char \<Rightarrow> nat" where
  "lower c = (let n = of_char c in if 65 \<le> n \<and> n \<le> 90 then n + 32 else n)"

definition base_digit :: "char \<Rightarrow> nat option" where
  "base_digit c = (let n = lower c in
     if 48 \<le> n \<and> n \<le> 57 then Some (n - 48) else if 97 \<le> n \<and> n \<le> 122 then Some (n - 87) else None)"

fun base_value :: "nat \<Rightarrow> string \<Rightarrow> nat \<Rightarrow> nat option" where
  "base_value base [] n = Some n"
| "base_value base (c # s) n =
     (if c = CHR ''_'' then base_value base s n
      else case base_digit c of None \<Rightarrow> None | Some d \<Rightarrow> if d < base then base_value base s (n * base + d) else None)"

definition base_of :: "string \<Rightarrow> nat \<times> string" where
  "base_of s =
     (if s \<noteq> [] \<and> hd s = CHR ''0'' then
        (if 3 \<le> length s \<and> lower (s ! 1) = 98 then (2, drop 2 s)
         else if 3 \<le> length s \<and> lower (s ! 1) = 111 then (8, drop 2 s)
         else if 3 \<le> length s \<and> lower (s ! 1) = 120 then (16, drop 2 s)
         else (8, tl s))
      else (10, s))"

text \<open>Underscores only between digits, or between the prefix and a digit.\<close>

datatype seen = AtStart | Digit | Underscore | Other

fun underscores :: "bool \<Rightarrow> seen \<Rightarrow> string \<Rightarrow> bool" where
  "underscores hex i [] \<longleftrightarrow> i \<noteq> Underscore"
| "underscores hex i (c # s) \<longleftrightarrow>
     (if is_digit c \<or> hex \<and> 97 \<le> lower c \<and> lower c \<le> 102 then underscores hex Digit s
      else if c = CHR ''_'' then i = Digit \<and> underscores hex Underscore s
      else i \<noteq> Underscore \<and> underscores hex Other s)"

definition underscoreOK :: "string \<Rightarrow> bool" where
  "underscoreOK s =
     (if 2 \<le> length s \<and> hd s = CHR ''0'' \<and> lower (s ! 1) \<in> {98, 111, 120}
      then underscores (lower (s ! 1) = 120) Digit (drop 2 s)
      else underscores False AtStart s)"

definition ParseInt0 :: "string \<Rightarrow> int option" where
  "ParseInt0 s =
     (let (neg, ds) = (case s of
          [] \<Rightarrow> (False, [])
        | c # r \<Rightarrow> if c = CHR ''-'' then (True, r) else if c = CHR ''+'' then (False, r) else (False, s))
      in if ds = [] then None
         else case base_of ds of (base, rest) \<Rightarrow>
           (case base_value base rest 0 of None \<Rightarrow> None | Some n \<Rightarrow>
             if CHR ''_'' \<in> set ds \<and> \<not> underscoreOK ds then None
             else let i = (if neg then - int n else int n) in if in_int64 i then Some i else None))"

definition ParseBool :: "string \<Rightarrow> bool option" where
  "ParseBool s =
     (if s \<in> {''1'', ''t'', ''T'', ''TRUE'', ''true'', ''True''} then Some True
      else if s \<in> {''0'', ''f'', ''F'', ''FALSE'', ''false'', ''False''} then Some False
      else None)"


section \<open>The registered flags\<close>

datatype flag_var =
    StringVar "string \<Rightarrow> Flags \<Rightarrow> Flags"
  | IntVar "int \<Rightarrow> Flags \<Rightarrow> Flags"
  | BoolVar "bool \<Rightarrow> Flags \<Rightarrow> Flags"

definition main_flags :: "(string \<times> flag_var) list" where
  "main_flags =
    [(''log-level'', StringVar (\<lambda>v f. f\<lparr> fl_log_level := v \<rparr>)),
     (''log-format'', StringVar (\<lambda>v f. f\<lparr> fl_log_format := v \<rparr>)),
     (''config'', StringVar (\<lambda>v f. f\<lparr> fl_config := v \<rparr>)),
     (''storage'', StringVar (\<lambda>v f. f\<lparr> fl_storage := v \<rparr>)),
     (''print-config'', BoolVar (\<lambda>v f. f\<lparr> fl_print_config := v \<rparr>)),
     (''derive-team'', StringVar (\<lambda>v f. f\<lparr> fl_derive_team := v \<rparr>)),
     (''derive-app'', StringVar (\<lambda>v f. f\<lparr> fl_derive_app := v \<rparr>)),
     (''derive-version'', StringVar (\<lambda>v f. f\<lparr> fl_derive_version := v \<rparr>))]"

definition consul_flags :: "(string \<times> flag_var) list" where
  "consul_flags =
    [(''consul'', StringVar (\<lambda>v f. f\<lparr> fl_consul := (fl_consul f)\<lparr> cc_Address := v \<rparr> \<rparr>)),
     (''consul-token'', StringVar (\<lambda>v f. f\<lparr> fl_consul := (fl_consul f)\<lparr> cc_Token := v \<rparr> \<rparr>)),
     (''consul-datacenter'', StringVar (\<lambda>v f. f\<lparr> fl_consul := (fl_consul f)\<lparr> cc_Datacenter := v \<rparr> \<rparr>)),
     (''consul-enable-distributed-lock'', BoolVar (\<lambda>v f. f\<lparr> fl_consul := (fl_consul f)\<lparr> cc_EnableDistributedLock := v \<rparr> \<rparr>)),
     (''consul-lock-path'', StringVar (\<lambda>v f. f\<lparr> fl_consul := (fl_consul f)\<lparr> cc_LockPath := v \<rparr> \<rparr>))]"

definition server_flags :: "(string \<times> flag_var) list" where
  "server_flags =
    [(''listen'', StringVar (\<lambda>v f. f\<lparr> fl_server := (fl_server f)\<lparr> sc_ListenAddr := v \<rparr> \<rparr>)),
     (''static-dir'', StringVar (\<lambda>v f. f\<lparr> fl_server := (fl_server f)\<lparr> sc_StaticDir := v \<rparr> \<rparr>))]"

definition memory_flags :: "(string \<times> flag_var) list" where
  "memory_flags = [(''storage-memory-max-size'', IntVar (\<lambda>v f. f\<lparr> fl_memory := (fl_memory f)\<lparr> mm_MaxSize := v \<rparr> \<rparr>))]"

definition mysql_flags :: "(string \<times> flag_var) list" where
  "mysql_flags =
    [(''mysql-setup-schema'', BoolVar (\<lambda>v f. f\<lparr> fl_mysql := (fl_mysql f)\<lparr> my_SetupSchema := v \<rparr> \<rparr>)),
     (''mysql-print-schema'', BoolVar (\<lambda>v f. f\<lparr> fl_mysql := (fl_mysql f)\<lparr> my_PrintSchema := v \<rparr> \<rparr>)),
     (''mysql-host'', StringVar (\<lambda>v f. f\<lparr> fl_mysql := (fl_mysql f)\<lparr> my_Host := v \<rparr> \<rparr>)),
     (''mysql-port'', IntVar (\<lambda>v f. f\<lparr> fl_mysql := (fl_mysql f)\<lparr> my_Port := v \<rparr> \<rparr>)),
     (''mysql-user'', StringVar (\<lambda>v f. f\<lparr> fl_mysql := (fl_mysql f)\<lparr> my_User := v \<rparr> \<rparr>)),
     (''mysql-password'', StringVar (\<lambda>v f. f\<lparr> fl_mysql := (fl_mysql f)\<lparr> my_Password := v \<rparr> \<rparr>)),
     (''mysql-db'', StringVar (\<lambda>v f. f\<lparr> fl_mysql := (fl_mysql f)\<lparr> my_Database := v \<rparr> \<rparr>)),
     (''mysql-retention-days'', IntVar (\<lambda>v f. f\<lparr> fl_mysql := (fl_mysql f)\<lparr> my_RetentionDays := v \<rparr> \<rparr>)),
     (''mysql-facet-sample'', IntVar (\<lambda>v f. f\<lparr> fl_mysql := (fl_mysql f)\<lparr> my_FacetSample := v \<rparr> \<rparr>)),
     (''mysql-max-open-conns'', IntVar (\<lambda>v f. f\<lparr> fl_mysql := (fl_mysql f)\<lparr> my_MaxOpenConns := v \<rparr> \<rparr>)),
     (''mysql-params'', StringVar (\<lambda>v f. f\<lparr> fl_mysql := (fl_mysql f)\<lparr> my_Params := v \<rparr> \<rparr>))]"

definition registered :: "(string \<times> flag_var) list" where
  "registered = main_flags @ consul_flags @ server_flags @ memory_flags @ mysql_flags"


section \<open>Package flag\<close>

fun flag_Set :: "flag_var \<Rightarrow> string \<Rightarrow> Flags \<Rightarrow> Flags option" where
  "flag_Set (StringVar upd) v f = Some (upd v f)"
| "flag_Set (IntVar upd) v f = map_option (\<lambda>i. upd i f) (ParseInt0 v)"
| "flag_Set (BoolVar upd) v f = map_option (\<lambda>b. upd b f) (ParseBool v)"

text \<open>
  \<open>Parse\<close> stops at the first argument that is not a flag, or after two dashes; a flag that is
  not registered, a value that does not parse and a missing value end the process with 2, a
  request for help with 0.
\<close>

datatype parsed = Parsed Flags "string list" | ExitUsage | ExitHelp

text \<open>The name and the value of an argument: the first \<open>=\<close> after the first character separates them.\<close>

definition flag_name :: "string \<Rightarrow> string \<times> string option" where
  "flag_name s =
     (case Cut (tl s) CHR ''='' of (a, v, found) \<Rightarrow> if found then (hd s # a, Some v) else (s, None))"

definition flag_dashes :: "string \<Rightarrow> string option" where
  "flag_dashes s = (if length s < 2 \<or> hd s \<noteq> CHR ''-'' then None
     else if s ! 1 = CHR ''-'' then Some (drop 2 s) else Some (tl s))"

fun flag_Parse :: "(string \<times> flag_var) list \<Rightarrow> string list \<Rightarrow> Flags \<Rightarrow> parsed" where
  "flag_Parse reg [] f = Parsed f []"
| "flag_Parse reg (s # rest) f =
     (case flag_dashes s of
        None \<Rightarrow> Parsed f (s # rest)
      | Some n \<Rightarrow>
          if s = ''--'' then Parsed f rest
          else if n = [] \<or> hd n = CHR ''-'' \<or> hd n = CHR ''='' then ExitUsage
          else case flag_name n of (name, val) \<Rightarrow>
            (case map_of reg name of
               None \<Rightarrow> if name = ''help'' \<or> name = ''h'' then ExitHelp else ExitUsage
             | Some (BoolVar upd) \<Rightarrow>
                 (case flag_Set (BoolVar upd) (case val of Some v \<Rightarrow> v | None \<Rightarrow> ''true'') f of
                    None \<Rightarrow> ExitUsage | Some f' \<Rightarrow> flag_Parse reg rest f')
             | Some var \<Rightarrow>
                 (case val of
                    Some v \<Rightarrow> (case flag_Set var v f of None \<Rightarrow> ExitUsage | Some f' \<Rightarrow> flag_Parse reg rest f')
                  | None \<Rightarrow>
                      (case rest of
                         [] \<Rightarrow> ExitUsage
                       | v # rest' \<Rightarrow>
                           (case flag_Set var v f of None \<Rightarrow> ExitUsage | Some f' \<Rightarrow> flag_Parse reg rest' f')))))"

text \<open>The process from its arguments: every flag starts at its default.\<close>

datatype started = Exited int | Started get_config

definition main_config :: "(string \<Rightarrow> string option) \<Rightarrow> (string \<Rightarrow> Config \<Rightarrow> Config option) \<Rightarrow> string list \<Rightarrow> started" where
  "main_config read_file unmarshal args =
     (case flag_Parse registered args no_flags of
        Parsed f _ \<Rightarrow> Started (GetConfig read_file unmarshal f)
      | ExitUsage \<Rightarrow> Exited 2
      | ExitHelp \<Rightarrow> Exited 0)"


section \<open>Writing a configuration as arguments\<close>

definition bool_text :: "bool \<Rightarrow> string" where
  "bool_text b = (if b then ''true'' else ''false'')"

text \<open>The value of every flag, in the order of registration.\<close>

definition flag_texts :: "Flags \<Rightarrow> string list" where
  "flag_texts f =
    [fl_log_level f, fl_log_format f, fl_config f, fl_storage f, bool_text (fl_print_config f),
     fl_derive_team f, fl_derive_app f, fl_derive_version f,
     cc_Address (fl_consul f), cc_Token (fl_consul f), cc_Datacenter (fl_consul f),
     bool_text (cc_EnableDistributedLock (fl_consul f)), cc_LockPath (fl_consul f),
     sc_ListenAddr (fl_server f), sc_StaticDir (fl_server f), Itoa (mm_MaxSize (fl_memory f)),
     bool_text (my_SetupSchema (fl_mysql f)), bool_text (my_PrintSchema (fl_mysql f)), my_Host (fl_mysql f),
     Itoa (my_Port (fl_mysql f)), my_User (fl_mysql f), my_Password (fl_mysql f), my_Database (fl_mysql f),
     Itoa (my_RetentionDays (fl_mysql f)), Itoa (my_FacetSample (fl_mysql f)), Itoa (my_MaxOpenConns (fl_mysql f)),
     my_Params (fl_mysql f)]"

definition flag_argument :: "string \<times> string \<Rightarrow> string" where
  "flag_argument nv = CHR ''-'' # fst nv @ CHR ''='' # snd nv"

definition command_line :: "Flags \<Rightarrow> string list" where
  "command_line f = map flag_argument (zip (map fst registered) (flag_texts f))"

definition in_range :: "Flags \<Rightarrow> bool" where
  "in_range f \<longleftrightarrow> in_int64 (mm_MaxSize (fl_memory f)) \<and> in_int64 (my_Port (fl_mysql f)) \<and>
     in_int64 (my_RetentionDays (fl_mysql f)) \<and> in_int64 (my_FacetSample (fl_mysql f)) \<and> in_int64 (my_MaxOpenConns (fl_mysql f))"

text \<open>Setting each flag in turn, without the parser.\<close>

fun set_all :: "(flag_var \<times> string) list \<Rightarrow> Flags \<Rightarrow> Flags option" where
  "set_all [] f = Some f"
| "set_all ((var, v) # vs) f = (case flag_Set var v f of None \<Rightarrow> None | Some f' \<Rightarrow> set_all vs f')"

definition name_ok :: "string \<Rightarrow> bool" where
  "name_ok n \<longleftrightarrow> n \<noteq> [] \<and> hd n \<noteq> CHR ''-'' \<and> CHR ''='' \<notin> set n"

lemma flag_name_argument: "name_ok n \<Longrightarrow> flag_name (n @ CHR ''='' # v) = (n, Some v)"
  by (cases n) (auto simp: name_ok_def flag_name_def Cut_found)

lemma flag_Parse_argument:
  assumes "name_ok n" "map_of reg n = Some var" "flag_Set var v f = Some f'"
  shows "flag_Parse reg (flag_argument (n, v) # rest) f = flag_Parse reg rest f'"
proof -
  obtain c m where n: "n = c # m" "c \<noteq> CHR ''-''" "c \<noteq> CHR ''=''"
    using assms(1) by (cases n) (auto simp: name_ok_def)
  then have "flag_dashes (flag_argument (n, v)) = Some (n @ CHR ''='' # v)"
    by (simp add: flag_dashes_def flag_argument_def)
  moreover have "flag_argument (n, v) \<noteq> ''--''" "n @ CHR ''='' # v \<noteq> []" "hd (n @ CHR ''='' # v) = c"
    using n by (simp_all add: flag_argument_def)
  ultimately show ?thesis
    using assms n(2,3) by (cases var) (auto simp: flag_name_argument)
qed

lemma flag_Parse_all:
  assumes "list_all name_ok (map fst reg)" "distinct (map fst reg)"
  shows "set rs \<subseteq> set reg \<Longrightarrow> length vs = length rs \<Longrightarrow> set_all (zip (map snd rs) vs) f = Some f' \<Longrightarrow>
    flag_Parse reg (map flag_argument (zip (map fst rs) vs)) f = Parsed f' []"
proof (induction rs arbitrary: vs f)
  case (Cons r rs)
  obtain n var v vs' where split: "r = (n, var)" "vs = v # vs'"
    using Cons.prems(2) by (cases r; cases vs) auto
  then obtain g where g: "flag_Set var v f = Some g" "set_all (zip (map snd rs) vs') g = Some f'"
    using Cons.prems(3) by (auto split: option.splits)
  have "name_ok n" "map_of reg n = Some var"
    using assms Cons.prems(1) split(1) by (auto simp: list_all_iff)
  then show ?case
    using Cons.IH[of vs' g] Cons.prems(1,2) split g flag_Parse_argument[OF _ _ g(1)] by simp
qed simp

text \<open>A number in decimal is read back with the base left to the text.\<close>

lemma base_digit_digit: "is_digit c \<Longrightarrow> base_digit c = Some (digit_val c) \<and> digit_val c < 10"
  by (auto simp: base_digit_def lower_def is_digit_def digit_val_def Let_def)

lemma base_value_dec: "list_all is_digit ds \<Longrightarrow> base_value 10 ds n = Some (foldl (\<lambda>n c. 10 * n + digit_val c) n ds)"
proof (induction ds arbitrary: n)
  case (Cons c ds)
  then have "c \<noteq> CHR ''_''"
    by (auto simp: is_digit_def)
  then show ?case
    using Cons base_digit_digit[of c] by (simp add: mult.commute)
qed simp

lemma nat_str_hd: "0 < n \<Longrightarrow> hd (nat_str n) \<noteq> CHR ''0''"
proof (induction n rule: nat_str.induct)
  case (1 n)
  have "digit_char d \<noteq> CHR ''0''" if "0 < d" "d < 10" for d
    using that of_digit_char[of d] by force
  then show ?case
    using 1 by (subst nat_str.simps) (auto simp: hd_append)
qed

lemma ParseInt0_digits:
  assumes "list_all is_digit ds" "ds \<noteq> []" "hd ds \<noteq> CHR ''0'' \<or> ds = ''0''" "CHR ''_'' \<notin> set ds"
  shows "(case base_of ds of (base, rest) \<Rightarrow> base_value base rest 0) = Some (dec_val ds)"
proof (cases "ds = ''0''")
  case True
  then show ?thesis
    by (simp add: base_of_def dec_val_def digit_val_def)
next
  case False
  then show ?thesis
    using assms base_value_dec[of ds 0] by (simp add: base_of_def dec_val_def)
qed

lemma ParseInt0_Itoa: "in_int64 i \<Longrightarrow> ParseInt0 (Itoa i) = Some i"
proof -
  assume i: "in_int64 i"
  let ?ds = "nat_str (nat \<bar>i\<bar>)"
  have digits: "list_all is_digit ?ds"
    by (rule nat_str_digits)
  then have "CHR ''_'' \<notin> set ?ds"
    by (auto simp: list_all_iff is_digit_def)
  moreover have "hd ?ds \<noteq> CHR ''0'' \<or> ?ds = ''0''"
    using nat_str_hd[of "nat \<bar>i\<bar>"] by (cases "i = 0") (auto simp: nat_str.simps[of 0] digit_char_def)
  ultimately have val: "(case base_of ?ds of (base, rest) \<Rightarrow> base_value base rest 0) = Some (nat \<bar>i\<bar>)"
    using ParseInt0_digits[OF digits] by simp
  obtain base rest where br: "base_of ?ds = (base, rest)"
    by (cases "base_of ?ds")
  obtain c r where ds: "?ds = c # r" "c \<noteq> CHR ''-''" "c \<noteq> CHR ''+''"
    using digits is_digit_not_sign by (cases ?ds) auto
  show ?thesis
    using i val br ds \<open>CHR ''_'' \<notin> set ?ds\<close> by (cases "i < 0") (auto simp: ParseInt0_def Itoa_def)
qed


lemma ParseBool_text [simp]: "ParseBool (bool_text b) = Some b"
  by (simp add: ParseBool_def bool_text_def)

lemma registered_names: "distinct (map fst registered)" "list_all name_ok (map fst registered)" "length registered = 27"
  by (simp_all add: registered_def main_flags_def consul_flags_def server_flags_def memory_flags_def mysql_flags_def name_ok_def)

text \<open>No flag writes the field of another, and together they write every field.\<close>

lemma set_all_texts: "in_range f \<Longrightarrow> set_all (zip (map snd registered) (flag_texts f)) g = Some f"
  by (simp add: registered_def main_flags_def consul_flags_def server_flags_def memory_flags_def mysql_flags_def
      flag_texts_def in_range_def ParseInt0_Itoa)

lemma command_line_parsed: "in_range f \<Longrightarrow> flag_Parse registered (command_line f) g = Parsed f []"
  unfolding command_line_def
  by (rule flag_Parse_all[OF registered_names(2,1) subset_refl _ set_all_texts])
    (simp_all add: registered_names(3) flag_texts_def)

text \<open>A file replaces everything the flags of the packages say.\<close>

lemma GetConfig_flags:
  "GetConfig read_file unmarshal f =
     (if fl_config f = [] then (if fl_print_config f then ConfigPrinted (FromFlags f) else ConfigRun (FromFlags f))
      else GetConfig read_file unmarshal (no_flags\<lparr> fl_config := fl_config f, fl_print_config := fl_print_config f \<rparr>))"
  using GetConfig_file[of f] by (cases "fl_config f = []") (simp_all add: GetConfig_def)


section \<open>Property\<close>

text \<open>
  C28: Every configuration can be given on the command line. Whatever the 27 flags are to hold,
  numbers of 64 bits and any strings, the arguments that name each flag with its value are
  parsed to exactly that, from any state of the flags: no flag is refused, and none writes the
  field of another. The program then runs with them, or prints them; but once a configuration
  file is named, everything but the file and the request to print is as if not given, the
  request to print the MySQL schema included.
\<close>

theorem command_line_roundtrip:
  assumes "in_range f"
  shows "flag_Parse registered (command_line f) g = Parsed f [] \<and>
    main_config read_file unmarshal (command_line f) =
      Started (if fl_config f = [] then (if fl_print_config f then ConfigPrinted (FromFlags f) else ConfigRun (FromFlags f))
        else GetConfig read_file unmarshal (no_flags\<lparr> fl_config := fl_config f, fl_print_config := fl_print_config f \<rparr>))"
  using command_line_parsed[OF assms] GetConfig_flags[of read_file unmarshal f] by (simp add: main_config_def)

theorem command_line_roundtrip_witness:
  "flag_Parse registered (command_line (no_flags\<lparr> fl_storage := ''mysql'', fl_memory := \<lparr> mm_MaxSize = - 7 \<rparr> \<rparr>)) no_flags =
     Parsed (no_flags\<lparr> fl_storage := ''mysql'', fl_memory := \<lparr> mm_MaxSize = - 7 \<rparr> \<rparr>) []"
proof -
  have "in_range (no_flags\<lparr> fl_storage := ''mysql'', fl_memory := \<lparr> mm_MaxSize = - 7 \<rparr> \<rparr>)"
    by (simp add: in_range_def no_flags_def Mysql_DefaultConfig_def in_int64_def)
  from command_line_roundtrip[OF this, of no_flags] show ?thesis
    by blast
qed

end
