(* ===== verification/LoadGen.thy ===== *)
theory LoadGen
  imports Timeline Complex_Main
begin

text \<open>
  The load generator (\<open>bench/loadgen/main.go\<close>): the services it invents, what it registers for
  them, the action it picks next and what it removes. The random source and the agents it calls
  are parameters; pods are kept in a heap, so that the list of running pods holds addresses as
  the code's holds pointers.
\<close>


section \<open>Random numbers\<close>

text \<open>
  \<open>Intn n\<close> of the locked source, a function of its state; \<open>math/rand\<close> promises a number below \<open>n\<close>
  for a positive \<open>n\<close>, and panics for zero.
\<close>

type_synonym 'r intn = "nat \<Rightarrow> 'r \<Rightarrow> nat \<times> 'r"

definition rand_ok :: "'r intn \<Rightarrow> bool" where
  "rand_ok intn \<longleftrightarrow> (\<forall>n r. 0 < n \<longrightarrow> fst (intn n r) < n)"

fun hex :: "'r intn \<Rightarrow> nat \<Rightarrow> 'r \<Rightarrow> string \<times> 'r" where
  "hex intn 0 r = ([], r)"
| "hex intn (Suc n) r =
     (case intn 16 r of (d, r) \<Rightarrow> case hex intn n r of (s, r) \<Rightarrow> (''0123456789abcdef'' ! d # s, r))"

text \<open>A number of seconds in \<open>[lo, hi]\<close>.\<close>

definition between :: "'r intn \<Rightarrow> nat \<Rightarrow> nat \<Rightarrow> 'r \<Rightarrow> Duration \<times> 'r" where
  "between intn lo hi r = (case intn (hi - lo + 1) r of (d, r) \<Rightarrow> (int (lo + d) * Second, r))"


section \<open>Families\<close>

definition metaMarker :: string where "metaMarker = ''bench_loadgen''"

datatype platform = K8s | Marathon | Lb

definition teams :: "string list" where
  "teams = [''payments'', ''inventory'', ''checkout'', ''pricing'', ''ranking'', ''catalog'', ''identity'', ''ingest'', ''network'', ''adserving'',
     ''pacing'', ''billing'', ''fleet'', ''directory'', ''observability'', ''storage'', ''recommend'', ''search'', ''gateway'', ''crm'', ''ads'', ''ml'',
     ''data'', ''auth'', ''edge'', ''sched'', ''cache'', ''stream'', ''graph'', ''mail'']"

definition apps :: "string list" where
  "apps = [''api'', ''worker'', ''sched'', ''gateway'', ''indexer'', ''bidder'', ''scorer'', ''router'', ''controller'', ''exporter'', ''preferences'',
     ''sandbox'', ''request'', ''engine'', ''slave'', ''config'']"

record family =
  fm_team :: string
  fm_app :: string
  fm_plat :: platform
  fm_suffixes :: "string list"

definition family_name :: "family \<Rightarrow> string" where
  "family_name f =
     (if fm_plat f = Lb then ''lb-in-'' @ fm_team f @ ''-'' @ fm_app f else fm_team f @ ''-'' @ fm_app f)"

definition newFamily :: "nat \<Rightarrow> family" where
  "newFamily i =
     (let team = teams ! (i mod length teams);
          app = apps ! ((i div length teams) mod length apps);
          n = i div (length teams * length apps);
          app = (if n > 0 then app @ Itoa (int n) else app)
      in if i mod 10 < 7 then
           \<lparr> fm_team = team, fm_app = app, fm_plat = K8s,
             fm_suffixes = [[[], ''-admin''], [[], ''-admin'', ''-remotedbg''], [[], ''-admin'', ''-remotedbg'', ''-metricscollector-admin'']] ! (i mod 3) \<rparr>
         else if i mod 10 < 9 then
           \<lparr> fm_team = team, fm_app = app, fm_plat = Marathon, fm_suffixes = [[[]], [[], ''-admin'']] ! (i mod 2) \<rparr>
         else \<lparr> fm_team = team, fm_app = app, fm_plat = Lb, fm_suffixes = [[]] \<rparr>)"

fun checkNames :: "platform \<Rightarrow> string \<Rightarrow> string list" where
  "checkNames K8s svc = [''pod_running'', ''pod_readiness'', ''kubernetes_http_check_0'', ''kubernetes_http_check_1'']"
| "checkNames Marathon svc = [''marathon_http_check_0'']"
| "checkNames Lb svc = [''Service '' @ [CHR 0x27] @ svc @ [CHR 0x27] @ '' check'']"


section \<open>Pods\<close>

record lg_check =
  lc_id :: string
  lc_name :: string
  lc_status :: string

record lg_service =
  ls_name :: string
  ls_id :: string
  ls_port :: nat
  ls_checks :: "lg_check list"

record pod =
  pd_fam :: family
  pd_agent :: nat
  pd_ip :: string
  pd_name :: string
  pd_version :: string
  pd_svcs :: "lg_service list"
  pd_flapper :: bool

abbreviation dec :: "nat \<Rightarrow> string" where "dec n \<equiv> Itoa (int n)"

definition svc_port :: "family \<Rightarrow> string \<Rightarrow> nat \<Rightarrow> nat \<Rightarrow> nat" where
  "svc_port f suf base i =
     (if fm_plat f = Lb then 443
      else if suf = ''-admin'' then 12011
      else if suf = ''-remotedbg'' then 12013
      else if suf = ''-metricscollector-admin'' then 12012
      else base + i)"

definition new_service :: "'r intn \<Rightarrow> family \<Rightarrow> string \<Rightarrow> nat \<Rightarrow> string \<Rightarrow> nat \<Rightarrow> 'r \<Rightarrow> lg_service \<times> 'r" where
  "new_service intn f ip base suf i r =
     (let name = family_name f @ suf; port = svc_port f suf base i
      in case (case fm_plat f of
             K8s \<Rightarrow> (''kubernetes-pod-'' @ name @ ''-'' @ ip @ ''-'' @ dec port, r)
           | Marathon \<Rightarrow> (case hex intn 32 r of (h, r) \<Rightarrow> (''marathon-app-'' @ name @ ''-'' @ dec port @ ''-'' @ h, r))
           | Lb \<Rightarrow> (name, r)) of
        (sid, r) \<Rightarrow>
          (\<lparr> ls_name = name, ls_id = sid, ls_port = port,
             ls_checks = map (\<lambda>cn. \<lparr> lc_id = sid @ '':'' @ cn, lc_name = cn, lc_status = [] \<rparr>) (checkNames (fm_plat f) name) \<rparr>, r))"

fun new_services :: "'r intn \<Rightarrow> family \<Rightarrow> string \<Rightarrow> nat \<Rightarrow> nat \<Rightarrow> string list \<Rightarrow> 'r \<Rightarrow> lg_service list \<times> 'r" where
  "new_services intn f ip base i [] r = ([], r)"
| "new_services intn f ip base i (suf # sufs) r =
     (case new_service intn f ip base suf i r of (s, r) \<Rightarrow>
        case new_services intn f ip base (i + 1) sufs r of (ss, r) \<Rightarrow> (s # ss, r))"

definition newPod :: "'r intn \<Rightarrow> family \<Rightarrow> nat \<Rightarrow> string \<Rightarrow> 'r \<Rightarrow> pod \<times> 'r" where
  "newPod intn f a version r =
     (case intn 2 r of (x, r) \<Rightarrow> case intn 200 r of (y, r) \<Rightarrow> case intn 250 r of (z, r) \<Rightarrow>
      let ip = ''10.'' @ dec (48 + x) @ ''.'' @ dec (1 + y) @ ''.'' @ dec (2 + z)
      in case (if fm_plat f = K8s then
               (case intn 1000 r of (k, r) \<Rightarrow> case hex intn 10 r of (h, r) \<Rightarrow> case hex intn 5 r of (h', r) \<Rightarrow>
                  (fm_app f @ ''-'' @ dec (7000 + k) @ ''-'' @ h @ ''-'' @ h', r))
             else ([], r)) of (name, r) \<Rightarrow>
         case intn 1000 r of (b, r) \<Rightarrow>
         case (if fm_plat f = Marathon then (case intn 1000 r of (b, r) \<Rightarrow> (31000 + b, r)) else (8000 + b, r)) of (base, r) \<Rightarrow>
         case new_services intn f ip base 0 (fm_suffixes f) r of (ss, r) \<Rightarrow>
           (\<lparr> pd_fam = f, pd_agent = a, pd_ip = ip, pd_name = name, pd_version = version, pd_svcs = ss, pd_flapper = False \<rparr>, r))"

fun lg_tags :: "family \<Rightarrow> string list" where
  "lg_tags f = (case fm_plat f of
       K8s \<Rightarrow> [''http'', ''kubernetes'', ''default'', fm_team f]
     | Marathon \<Rightarrow> [''http'', ''marathon'', ''default'', ''marathon-user-svc-'' @ fm_team f]
     | Lb \<Rightarrow> [''tcp'', ''lb''])"

text \<open>The part before the last dash; slicing without one panics.\<close>

definition before_last_dash :: "string \<Rightarrow> string option" where
  "before_last_dash s =
     (if CHR ''-'' \<in> set s then Some (rev (tl (dropWhile (\<lambda>c. c \<noteq> CHR ''-'') (rev s)))) else None)"

definition lg_meta :: "pod \<Rightarrow> (string, string) gomap option" where
  "lg_meta p =
     (let f = pd_fam p; m = [(metaMarker, ''1''), (''team'', fm_team f), (''owners'', ''gu-'' @ fm_team f)]
      in case fm_plat f of
           K8s \<Rightarrow> (case before_last_dash (pd_name p) of None \<Rightarrow> None | Some rs \<Rightarrow>
             Some (fold (\<lambda>(k, v) m. map_put m k v)
               [(''app'', fm_team f @ ''/'' @ fm_app f), (''k8s_namespace'', fm_team f), (''k8s_cluster'', ''bench''), (''k8s_pod'', pd_name p),
                (''k8s_controller'', ''ReplicaSet/'' @ rs), (''deployed_version'', pd_version p), (''version'', pd_version p)] m))
         | Marathon \<Rightarrow>
             Some (fold (\<lambda>(k, v) m. map_put m k v)
               [(''marathon_app_id'', fm_team f @ ''/'' @ family_name f), (''marathon_app_version'', pd_version p), (''OWNERS'', ''gu-'' @ fm_team f)] m)
         | Lb \<Rightarrow> Some m)"

definition lg_output :: "ConsulApi \<Rightarrow> string \<Rightarrow> string \<Rightarrow> string \<Rightarrow> nat \<Rightarrow> string" where
  "lg_output api checkName status ip port =
     (let url = ''http://'' @ ip @ '':'' @ dec port
      in if checkName = ''pod_running'' then
           (if status = HealthPassing api then ''Pod is Running'' else ''Pod is Pending: containers with unready status: [app]'')
         else if checkName = ''pod_readiness'' then
           (if status = HealthPassing api then ''Pod is Ready''
            else ''Pod is not Ready: readiness probe failed: HTTP probe failed with statuscode: 503'')
         else if HasPrefix checkName (''Service '' @ [CHR 0x27]) then
           (if status = HealthPassing api then ''TCP connect '' @ ip @ '':'' @ dec port @ '': Success''
            else ''dial tcp '' @ ip @ '':'' @ dec port @ '': connect: connection refused'')
         else if status = HealthPassing api then
           ''HTTP GET '' @ url @ ''/admin/traffic: 200 OK Output: advertise as healthy - accept full traffic''
         else if status = HealthWarning api then
           ''HTTP GET '' @ url @ ''/admin/traffic: 429 Too Many Requests Output: shedding load '' @
             [CHR 0xE2, CHR 0x80, CHR 0x93] @ '' 12% of requests rejected''
         else if port mod 2 = 0 then
           ''HTTP GET '' @ url @ ''/admin/traffic: 503 Service Unavailable Output: advertise as unhealthy - don'' @ [CHR 0x27] @ ''t accept traffic''
         else ''Get '' @ [CHR 0x22] @ url @ ''/healthz'' @ [CHR 0x22] @ '': dial tcp '' @ ip @ '':'' @ dec port @ '': connect: connection refused'')"



section \<open>Registrations\<close>

record Registration =
  rg_ID :: string
  rg_Name :: string
  rg_Address :: string
  rg_Port :: nat
  rg_Tags :: "string list"
  rg_Meta :: "(string, string) gomap"
  rg_Checks :: "(string \<times> string \<times> string) list"

text \<open>What the agent is asked to register for each service of a pod, every check in one status.\<close>

definition registrations :: "string \<Rightarrow> pod \<Rightarrow> Registration list option" where
  "registrations status p =
     all_some (map (\<lambda>s. map_option (\<lambda>m. \<lparr> rg_ID = ls_id s, rg_Name = ls_name s, rg_Address = pd_ip p, rg_Port = ls_port s,
       rg_Tags = lg_tags (pd_fam p), rg_Meta = m, rg_Checks = map (\<lambda>c. (lc_id c, lc_name c, status)) (ls_checks s) \<rparr>) (lg_meta p)) (pd_svcs p))"

definition set_statuses :: "string \<Rightarrow> pod \<Rightarrow> pod" where
  "set_statuses status p = p\<lparr> pd_svcs := map (\<lambda>s. s\<lparr> ls_checks := map (\<lambda>c. c\<lparr> lc_status := status \<rparr>) (ls_checks s) \<rparr>) (pd_svcs p) \<rparr>"

text \<open>A refused registration is counted, and the next one is tried.\<close>

fun count_errors :: "('a \<Rightarrow> 'w \<Rightarrow> bool \<times> 'w) \<Rightarrow> 'a list \<Rightarrow> 'w \<Rightarrow> nat \<times> 'w" where
  "count_errors call [] w = (0, w)"
| "count_errors call (x # xs) w =
     (case call x w of (ok, w) \<Rightarrow> case count_errors call xs w of (n, w) \<Rightarrow> (if ok then n else n + 1, w))"

definition registerPod :: "(nat \<Rightarrow> Registration \<Rightarrow> 'w \<Rightarrow> bool \<times> 'w) \<Rightarrow> pod \<Rightarrow> string \<Rightarrow> 'w \<Rightarrow> (pod \<times> nat \<times> 'w) option" where
  "registerPod register p status w =
     map_option (\<lambda>rs. (set_statuses status p, count_errors (register (pd_agent p)) rs w)) (registrations status p)"

definition deregisterPod :: "(nat \<Rightarrow> string \<Rightarrow> 'w \<Rightarrow> bool \<times> 'w) \<Rightarrow> pod \<Rightarrow> 'w \<Rightarrow> nat \<times> 'w" where
  "deregisterPod deregister p w = count_errors (deregister (pd_agent p)) (map ls_id (pd_svcs p)) w"

text \<open>The status of a check changes only when the agent took the update.\<close>

definition setCheck :: "ConsulApi \<Rightarrow> (nat \<Rightarrow> string \<Rightarrow> string \<Rightarrow> string \<Rightarrow> 'w \<Rightarrow> bool \<times> 'w) \<Rightarrow> pod \<Rightarrow> nat \<Rightarrow> nat \<Rightarrow> string \<Rightarrow> 'w \<Rightarrow>
    pod \<times> nat \<times> 'w" where
  "setCheck api update p i j status w =
     (let s = pd_svcs p ! i; c = ls_checks s ! j
      in case update (pd_agent p) (lc_id c) (lg_output api (lc_name c) status (pd_ip p) (ls_port s)) status w of (ok, w) \<Rightarrow>
           if ok then (p\<lparr> pd_svcs := (pd_svcs p)[i := s\<lparr> ls_checks := (ls_checks s)[j := c\<lparr> lc_status := status \<rparr>] \<rparr>] \<rparr>, 0, w)
           else (p, 1, w))"

text \<open>The services an agent lists, with their meta: those of this tool are deregistered.\<close>

fun cleanup_agent :: "(string \<Rightarrow> 'w \<Rightarrow> bool \<times> 'w) \<Rightarrow> (string \<times> (string, string) gomap) list \<Rightarrow> 'w \<Rightarrow> nat \<times> 'w" where
  "cleanup_agent deregister [] w = (0, w)"
| "cleanup_agent deregister ((sid, m) # svcs) w =
     (if map_get [] m metaMarker \<noteq> ''1'' then cleanup_agent deregister svcs w
      else case deregister sid w of (ok, w) \<Rightarrow>
        case cleanup_agent deregister svcs w of (n, w) \<Rightarrow> (if ok then n + 1 else n, w))"


section \<open>Actions\<close>

text \<open>The last pod takes the place of the one removed.\<close>

fun index_of :: "nat \<Rightarrow> nat list \<Rightarrow> nat option" where
  "index_of p [] = None"
| "index_of p (q # qs) = (if q = p then Some 0 else map_option Suc (index_of p qs))"

definition removePodLocked :: "nat \<Rightarrow> nat list \<Rightarrow> nat list" where
  "removePodLocked p pods = (case index_of p pods of None \<Rightarrow> pods | Some i \<Rightarrow> butlast (pods[i := last pods]))"

datatype lg_action = Flip nat nat nat string | Churn nat | Maintenance nat nat

text \<open>
  \<open>pickAction\<close>: the estimate of the events, the action, and the pods that are left; \<open>None\<close> is a
  panic, of a random number below zero elements.
\<close>

definition pickAction :: "ConsulApi \<Rightarrow> 'r intn \<Rightarrow> ('r \<Rightarrow> rat \<times> 'r) \<Rightarrow> (nat \<Rightarrow> pod) \<Rightarrow> nat list \<Rightarrow> 'r \<Rightarrow>
    ((nat \<times> lg_action option) \<times> nat list \<times> 'r) option" where
  "pickAction api intn float heap pods r =
     (if pods = [] then Some ((0, None), pods, r)
      else case intn (length pods) r of (k, r) \<Rightarrow>
        let p = pods ! k; svcs = pd_svcs (heap p)
        in case float r of (x, r) \<Rightarrow>
          if x < 90 / 100 then
            (if svcs = [] then None
             else case intn (length svcs) r of (i, r) \<Rightarrow>
               let checks = ls_checks (svcs ! i)
               in if checks = [] then None
                  else case intn (length checks) r of (j, r) \<Rightarrow>
                    if lc_status (checks ! j) = HealthPassing api then
                      (case float r of (y, r) \<Rightarrow>
                         Some ((1, Some (Flip p i j (if y < 20 / 100 then HealthWarning api else HealthCritical api))), pods, r))
                    else Some ((1, Some (Flip p i j (HealthPassing api))), pods, r))
          else if x < 97 / 100 \<and> \<not> pd_flapper (heap p) then
            Some ((length svcs + sum_list (map (\<lambda>s. 3 * length (ls_checks s)) svcs), Some (Churn p)), removePodLocked p pods, r)
          else
            (if svcs = [] then None
             else case intn (length svcs) r of (i, r) \<Rightarrow> Some ((2, Some (Maintenance p i)), pods, r)))"

text \<open>
  \<open>bump\<close>: spaces, a sign and digits at the start are the number; without one, or out of range,
  the version stays.
\<close>

definition scan_int :: "string \<Rightarrow> int option" where
  "scan_int s0 =
     (let s = dropWhile (\<lambda>c. c \<in> {CHR '' '', CHR 0x09, CHR 0x0B, CHR 0x0C, CHR 0x0D}) s0;
          (sign, ds) = (case s of c # r \<Rightarrow> if c = CHR ''-'' \<or> c = CHR ''+'' then ([c], r) else ([], s) | [] \<Rightarrow> ([], []))
      in Atoi (sign @ takeWhile is_digit ds))"

definition bump :: "string \<Rightarrow> string" where
  "bump version = (case scan_int version of None \<Rightarrow> version | Some n \<Rightarrow> Itoa (wrap64 (n + 1)))"

text \<open>
  The first half of \<open>churn\<close>, once the wait is over: the new pod of the same family on the same
  agent, one in ten with the next version.
\<close>

definition replacement :: "'r intn \<Rightarrow> ('r \<Rightarrow> rat \<times> 'r) \<Rightarrow> pod \<Rightarrow> 'r \<Rightarrow> pod \<times> 'r" where
  "replacement intn float old r =
     (case float r of (x, r) \<Rightarrow>
        newPod intn (pd_fam old) (pd_agent old) (if x < 10 / 100 then bump (pd_version old) else pd_version old) r)"


section \<open>The initial catalog\<close>

text \<open>The pods of one family, round robin over the agents, from the counters of pods and flappers.\<close>

fun family_pods :: "'r intn \<Rightarrow> nat \<Rightarrow> family \<Rightarrow> string \<Rightarrow> nat \<Rightarrow> nat \<times> int \<times> 'r \<Rightarrow> pod list \<times> (nat \<times> int \<times> 'r)" where
  "family_pods intn agents f version 0 st = ([], st)"
| "family_pods intn agents f version (Suc n) (k, flappers, r) =
     (case newPod intn f (k mod agents) version r of (p, r) \<Rightarrow>
        let flap = (fm_plat f = Marathon \<and> k mod 17 = 0 \<and> flappers > 0);
            p = (if flap then p\<lparr> pd_flapper := True \<rparr> else p)
        in case family_pods intn agents f version n (k + 1, if flap then flappers - 1 else flappers, r) of
             (ps, st) \<Rightarrow> (p # ps, st))"

fun initial_pods :: "'r intn \<Rightarrow> nat \<Rightarrow> nat \<Rightarrow> nat list \<Rightarrow> nat \<times> int \<times> 'r \<Rightarrow> pod list \<times> (nat \<times> int \<times> 'r)" where
  "initial_pods intn agents podsPerFam [] st = ([], st)"
| "initial_pods intn agents podsPerFam (i # is) (k, flappers, r) =
     (let f = newFamily i;
          n = (if fm_plat f = Lb \<and> podsPerFam > agents then agents else podsPerFam)
      in case intn 40 r of (v, r) \<Rightarrow>
         case (if fm_plat f = Marathon then (case intn 60 r of (v, r) \<Rightarrow> (79400 + v, r)) else (109300 + v, r)) of (v, r) \<Rightarrow>
         case family_pods intn agents f (dec v) n (k, flappers, r) of (ps, st) \<Rightarrow>
         case initial_pods intn agents podsPerFam is st of (qs, st) \<Rightarrow> (ps @ qs, st))"



section \<open>Lemmas\<close>

definition pod_ok :: "pod \<Rightarrow> bool" where
  "pod_ok p \<longleftrightarrow> pd_svcs p \<noteq> [] \<and> list_all (\<lambda>s. ls_checks s \<noteq> []) (pd_svcs p)"

lemma checkNames_not_Nil: "checkNames p svc \<noteq> []"
  by (cases p) simp_all

lemma suffixes_not_Nil: "fm_suffixes (newFamily i) \<noteq> []"
proof -
  have three: "[[[], a], [[], b, c], [[], d, e, f]] ! (i mod 3) \<noteq> []" for a b c d e f :: string
  proof -
    have "i mod 3 = 0 \<or> i mod 3 = 1 \<or> i mod 3 = 2"
      by presburger
    then show ?thesis
      by (elim disjE) simp_all
  qed
  have two: "[[[]], [[], a]] ! (i mod 2) \<noteq> []" for a :: string
    by (cases "i mod 2 = 0") (simp_all add: mod2_eq_if)
  show ?thesis
    using three two by (simp add: newFamily_def Let_def)
qed

lemma new_services_ok:
  "new_services intn f ip base i sufs r = (ss, r') \<Longrightarrow>
   length ss = length sufs \<and> list_all (\<lambda>s. ls_checks s \<noteq> []) ss"
proof (induction sufs arbitrary: i r ss r')
  case (Cons suf sufs)
  obtain s r1 where one: "new_service intn f ip base suf i r = (s, r1)"
    by (metis surj_pair)
  obtain ss' r2 where rest: "new_services intn f ip base (i + 1) sufs r1 = (ss', r2)"
    by (metis surj_pair)
  have "ls_checks s \<noteq> []"
    using one by (auto simp: new_service_def Let_def checkNames_not_Nil split: prod.splits)
  moreover have "ss = s # ss'"
    using Cons.prems one rest by simp
  ultimately show ?case
    using Cons.IH[OF rest] by simp
qed simp

lemma newPod_shape:
  assumes "newPod intn f a version r = (p, r')"
  shows "pd_fam p = f \<and> pd_agent p = a \<and> pd_version p = version \<and> \<not> pd_flapper p \<and>
    (\<exists>ip base r r'. new_services intn f ip base 0 (fm_suffixes f) r = (pd_svcs p, r')) \<and>
    (fm_plat f = K8s \<longrightarrow> CHR ''-'' \<in> set (pd_name p))"
  using assms unfolding newPod_def by (auto simp: Let_def split: prod.splits if_splits) blast+

lemma newPod_ok: "newPod intn (newFamily i) a version r = (p, r') \<Longrightarrow> pod_ok p"
  using newPod_shape[of intn "newFamily i" a version r p r'] suffixes_not_Nil[of i]
  by (auto simp: pod_ok_def dest!: new_services_ok)

lemma set_statuses_ok: "pod_ok (set_statuses status p) \<longleftrightarrow> pod_ok p"
  by (simp add: pod_ok_def set_statuses_def list_all_iff)

lemma setCheck_ok: "setCheck api update p i j status w = (p', n, w') \<Longrightarrow> i < length (pd_svcs p) \<Longrightarrow> pod_ok p \<Longrightarrow> pod_ok p'"
  by (auto simp: setCheck_def Let_def pod_ok_def list_all_length nth_list_update split: prod.splits if_splits)

text \<open>What a pod registers under: found again by the tool, and read by the watcher as it was meant.\<close>

lemma newPod_meta:
  assumes "newPod intn f a version r = (p, r')"
  shows "\<exists>m. lg_meta p = Some m \<and> map_get [] m metaMarker = ''1'' \<and> gomap_ok m \<and>
    (fm_team f \<noteq> [] \<longrightarrow> Apply DefaultDerive m =
      (fm_team f, if fm_plat f = K8s then fm_team f @ ''/'' @ fm_app f else [], if fm_plat f = K8s then version else []))"
proof -
  note shape = newPod_shape[OF assms]
  show ?thesis
  proof (cases "fm_plat f")
    case K8s
    then obtain rs where "before_last_dash (pd_name p) = Some rs"
      using shape by (auto simp: before_last_dash_def)
    then show ?thesis
      using K8s shape by (simp add: lg_meta_def metaMarker_def Apply_def DefaultDerive_def map_get_def gomap_ok_def)
  qed (use shape in \<open>simp_all add: lg_meta_def metaMarker_def Apply_def DefaultDerive_def map_get_def gomap_ok_def\<close>)
qed

lemma index_of_Some: "index_of p pods = Some i \<Longrightarrow> i < length pods \<and> pods ! i = p"
  by (induction pods arbitrary: i) (auto split: if_splits)

lemma index_of_None: "index_of p pods = None \<longleftrightarrow> p \<notin> set pods"
  by (induction pods) auto

lemma removePod_mset: "p \<in> set pods \<Longrightarrow> mset pods = add_mset p (mset (removePodLocked p pods))"
proof -
  assume p: "p \<in> set pods"
  then obtain i where i: "index_of p pods = Some i"
    using index_of_None[of p pods] by (cases "index_of p pods") auto
  note at = index_of_Some[OF i]
  obtain qs q where pods: "pods = qs @ [q]"
    using p by (cases pods rule: rev_cases) auto
  show ?thesis
  proof (cases "i < length qs")
    case True
    then have "removePodLocked p pods = qs[i := q]" "qs ! i = p"
      using at i pods by (simp_all add: removePodLocked_def list_update_append nth_append)
    moreover have "p \<in># mset qs"
      using nth_mem[OF True] calculation(2) by simp
    ultimately show ?thesis
      using pods mset_update[OF True, of q] insert_DiffM[of p "mset qs"] by simp
  next
    case False
    then have "i = length qs"
      using at pods by simp
    then show ?thesis
      using at i pods by (simp add: removePodLocked_def)
  qed
qed

lemma bump_Itoa: "in_int64 (n + 1) \<Longrightarrow> 0 \<le> n \<Longrightarrow> bump (Itoa n) = Itoa (n + 1)"
proof -
  assume n: "in_int64 (n + 1)" "0 \<le> n"
  have digits: "list_all is_digit (Itoa n)" "Itoa n \<noteq> []"
    using n(2) nat_str_digits[of "nat n"] by (simp_all add: Itoa_def)
  obtain c r where c: "Itoa n = c # r" "is_digit c"
    using digits by (cases "Itoa n") auto
  then have "c \<notin> {CHR '' '', CHR 0x09, CHR 0x0B, CHR 0x0C, CHR 0x0D}" "c \<noteq> CHR ''-''" "c \<noteq> CHR ''+''"
    by (auto simp: is_digit_def)
  moreover have whole: "takeWhile is_digit r = r" and "in_int64 n"
    using digits(1) c(1) n by (simp_all add: list_all_iff takeWhile_eq_all_conv in_int64_def)
  ultimately show ?thesis
    using c n Atoi_Itoa[of n] by (simp add: bump_def scan_int_def whole del: takeWhile_eq_all_conv)
qed


text \<open>Where no call fails, cleaning up removes every marked service of the agent and no other.\<close>

lemma cleanup_exact:
  "cleanup_agent (\<lambda>sid w. (True, w @ [sid])) svcs w =
     (length (filter (\<lambda>(sid, m). map_get [] m metaMarker = ''1'') svcs),
      w @ map fst (filter (\<lambda>(sid, m). map_get [] m metaMarker = ''1'') svcs))"
  by (induction svcs arbitrary: w) auto


section \<open>Property\<close>

text \<open>
  C40: The load generator never trips over its own catalog. As long as every pod has a service
  and every service a check, which holds of every pod it makes and is kept by updates, picking
  an action never asks the random source for a number below zero: there is an action exactly
  when there is a pod, a flip names an existing check and a status it does not have, and a
  replacement takes exactly its own pod, never one that flaps, out of the list, whatever the
  random numbers are.
\<close>

theorem loadgen_picks_safe:
  assumes "api_ok api" "rand_ok intn" "\<forall>p \<in> set pods. pod_ok (heap p)"
  shows "pod_ok (fst (newPod intn (newFamily i) a version r)) \<and>
    (\<exists>cost act pods' r'. pickAction api intn float heap pods r = Some ((cost, act), pods', r') \<and> (act = None \<longleftrightarrow> pods = []) \<and>
      (case act of
         None \<Rightarrow> pods' = pods
       | Some (Flip p s c status) \<Rightarrow> pods' = pods \<and> p \<in> set pods \<and> s < length (pd_svcs (heap p)) \<and>
           c < length (ls_checks (pd_svcs (heap p) ! s)) \<and> lc_status (ls_checks (pd_svcs (heap p) ! s) ! c) \<noteq> status
       | Some (Churn p) \<Rightarrow> mset pods = add_mset p (mset pods') \<and> \<not> pd_flapper (heap p)
       | Some (Maintenance p s) \<Rightarrow> pods' = pods \<and> p \<in> set pods \<and> s < length (pd_svcs (heap p))))"
proof
  show "pod_ok (fst (newPod intn (newFamily i) a version r))"
    by (rule newPod_ok[OF surjective_pairing])
  show "\<exists>cost act pods' r'. pickAction api intn float heap pods r = Some ((cost, act), pods', r') \<and> (act = None \<longleftrightarrow> pods = []) \<and>
      (case act of
         None \<Rightarrow> pods' = pods
       | Some (Flip p s c status) \<Rightarrow> pods' = pods \<and> p \<in> set pods \<and> s < length (pd_svcs (heap p)) \<and>
           c < length (ls_checks (pd_svcs (heap p) ! s)) \<and> lc_status (ls_checks (pd_svcs (heap p) ! s) ! c) \<noteq> status
       | Some (Churn p) \<Rightarrow> mset pods = add_mset p (mset pods') \<and> \<not> pd_flapper (heap p)
       | Some (Maintenance p s) \<Rightarrow> pods' = pods \<and> p \<in> set pods \<and> s < length (pd_svcs (heap p)))"
  proof (cases "pods = []")
    case False
    have below: "fst (intn n r) < n" if "0 < n" for n r
      using assms(2) that by (simp add: rand_ok_def)
    obtain k r1 where k: "intn (length pods) r = (k, r1)"
      by (metis surj_pair)
    obtain x r2 where x: "float r1 = (x, r2)"
      by (metis surj_pair)
    let ?p = "pods ! k"
    have p: "?p \<in> set pods"
      using below[of "length pods" r] False k by simp
    then have ok: "pd_svcs (heap ?p) \<noteq> []" "\<And>s. s < length (pd_svcs (heap ?p)) \<Longrightarrow> ls_checks (pd_svcs (heap ?p) ! s) \<noteq> []"
      using assms(3) by (auto simp: pod_ok_def list_all_length)
    obtain s r3 where s: "intn (length (pd_svcs (heap ?p))) r2 = (s, r3)"
      by (metis surj_pair)
    have s_lt: "s < length (pd_svcs (heap ?p))"
      using below[of "length (pd_svcs (heap ?p))" r2] ok(1) s by simp
    let ?checks = "ls_checks (pd_svcs (heap ?p) ! s)"
    obtain c r4 where c: "intn (length ?checks) r3 = (c, r4)"
      by (metis surj_pair)
    have c_lt: "c < length ?checks"
      using below[of "length ?checks" r3] ok(2)[OF s_lt] c by simp
    obtain y r5 where y: "float r4 = (y, r5)"
      by (metis surj_pair)
    consider "x < 90 / 100" | "\<not> x < 90 / 100" "x < 97 / 100" "\<not> pd_flapper (heap ?p)"
      | "\<not> x < 90 / 100" "\<not> (x < 97 / 100 \<and> \<not> pd_flapper (heap ?p))"
      by blast
    then show ?thesis
    proof cases
      case 1
      then show ?thesis
        using False k x s c y p ok(1) ok(2)[OF s_lt] s_lt c_lt assms(1) by (simp add: pickAction_def Let_def api_ok_def)
    next
      case 2
      then show ?thesis
        using False k x p removePod_mset[OF p] by (simp add: pickAction_def Let_def)
    next
      case 3
      then show ?thesis
        using False k x s p ok(1) s_lt by (auto simp: pickAction_def Let_def)
    qed
  qed (simp add: pickAction_def)
qed

theorem loadgen_picks_safe_witness:
  "\<exists>cost act pods' r'. pickAction \<lparr> HealthPassing = ''passing'', HealthWarning = ''warning'', HealthCritical = ''critical'',
       HealthMaint = ''maintenance'', NodeMaint = ''_node_maintenance'', ServiceMaintPrefix = ''_service_maintenance:'' \<rparr>
     (\<lambda>n r. (r mod n, Suc r)) (\<lambda>r. (0, r)) (\<lambda>_. fst (newPod (\<lambda>n r. (r mod n, Suc r)) (newFamily 0) 0 ''7'' (0 :: nat))) [4] 0 =
     Some ((cost, act), pods', r') \<and> act \<noteq> None"
proof -
  let ?api = "\<lparr> HealthPassing = ''passing'', HealthWarning = ''warning'', HealthCritical = ''critical'',
       HealthMaint = ''maintenance'', NodeMaint = ''_node_maintenance'', ServiceMaintPrefix = ''_service_maintenance:'' \<rparr>"
  let ?intn = "\<lambda>n r. (r mod n, Suc r)"
  have "api_ok ?api" "rand_ok ?intn"
    by (simp_all add: api_ok_def rand_ok_def)
  moreover have "\<forall>p \<in> set [4 :: nat]. pod_ok ((\<lambda>_. fst (newPod ?intn (newFamily 0) 0 ''7'' 0)) p)"
    by (intro ballI newPod_ok[OF surjective_pairing])
  ultimately show ?thesis
    using loadgen_picks_safe[of ?api ?intn "[4]" "\<lambda>_. fst (newPod ?intn (newFamily 0) 0 ''7'' 0)" 0 0 "''7''" 0 "\<lambda>r. (0, r)"]
    by blast
qed

end
