(* ===== verification/Spec2Isabelle.thy ===== *)
theory Spec2Isabelle
  imports Prelude GoStrings Timeline Query Memory MemoryReads MemoryStats Compare Watch Hub Writer GoTime Api Json
    MysqlWrite MysqlRow MysqlRead MysqlTable MysqlSelect MysqlServer MysqlRegistry Client Reads Server Program CommandLine LoadGen
begin

text \<open>
  A verification development for consul-timeline.

  The program watches the Consul servers of a datacenter, turns the differences between
  consecutive states into events, stores them, and serves them over an HTTP API and a live
  stream.
\<close>


section \<open>From the watcher to the clients\<close>



definition forwarded :: "Event \<Rightarrow> System \<Rightarrow> Pipeline" where
  "forwarded e y = \<lparr> pl_system = y, pl_published = [e], pl_queue = [], pl_taken = [e], pl_done = False \<rparr>"

lemma forwarded_reach:
  assumes "act (\<lambda>is. is) (DoPublish e) System_new = Inr y"
  shows "pipeline_reach (\<lambda>is. is) (forwarded e y)"
proof -
  let ?queued = "Pipeline_new\<lparr> pl_system := y, pl_published := [] @ [e], pl_queue := [] @ [e] \<rparr>"
  have "pipeline_step (\<lambda>is. is) Pipeline_new ?queued"
    using forward[of Pipeline_new "\<lambda>is. is" e y] assms by (simp add: Pipeline_new_def storageQueue_def)
  moreover have "pipeline_step (\<lambda>is. is) ?queued (forwarded e y)"
    using taken[of ?queued e "[]"] by (simp add: Pipeline_new_def forwarded_def)
  ultimately show ?thesis
    by (blast intro: pipeline_new pipeline_next)
qed


end
